(* ===== verification/Rs_Prelude.thy ===== *)
theory Rs_Prelude
  imports Main "HOL-Library.Monad_Syntax" "HOL-Library.Signed_Division"
begin

text \<open>
  Shared ground of the development: the return codes of the rsyslog runtime, C integers of a
  fixed width written out on \<^typ>\<open>int\<close>, bytes and NUL-terminated C strings as
  \<^typ>\<open>string\<close>, and the generic lemmas the component theories rest on.

  Conventions.
  \<^item> A pointer into a NUL-terminated buffer is the list of the bytes from it up to the
    terminator. Reading through it is \<open>deref\<close> (the terminator reads as byte 0) and
    \<open>++p\<close> is \<^const>\<open>tl\<close>.
  \<^item> A C \<open>int\<close> is an \<^typ>\<open>int\<close>; where a value is stored into a narrower type the
    conversion is written out (\<open>to_short\<close>, \<open>to_intTiny\<close>, \<open>to_char\<close>), and where an
    operation could leave the width the theories prove that it does not.
  \<^item> C division and remainder truncate towards zero: \<open>sdiv\<close> and \<open>smod\<close>.
\<close>

section \<open>Lemma collections\<close>

named_theorems bytes \<open>reading and writing bytes of C strings\<close>
named_theorems ranges \<open>bounds of fixed-width integers\<close>

section \<open>Return codes\<close>

text \<open>The values of \<open>enum rsRetVal_\<close> (\<open>runtime/rsyslog.h\<close>) that the modelled code
  returns or tests.\<close>

datatype rsRetVal =
    RS_RET_OK
  | RS_RET_ERR
  | RS_RET_OUT_OF_MEMORY
  | RS_RET_INVLD_TIME
  | RS_RET_COULD_NOT_PARSE
  | RS_RET_EMPTY_MSG
  | RS_RET_PARSER_NOT_FOUND
  | RS_RET_QSIZE_ZERO
  | RS_RET_QUEUE_FULL
  | RS_RET_FORCE_TERM
  | RS_RET_IDLE
  | RS_RET_TERMINATE_NOW
  | RS_RET_TERMINATE_WHEN_IDLE
  | RS_RET_DISCARDMSG
  | RS_RET_RATE_LIMITED
  | RS_RET_EMPTY_LIST
  | RS_RET_END_OF_LINKEDLIST
  | RS_RET_NOT_FOUND
  | RS_RET_OK_DELETE_LISTENTRY
  | RS_RET_VAR_NOT_FOUND
  | RS_RET_SYNTAX_ERROR
  | RS_RET_SUSPENDED
  | RS_RET_DISABLE_ACTION
  | RS_RET_PREVIOUS_COMMITTED
  | RS_RET_DEFER_COMMIT
  | RS_RET_ACTION_FAILED
  | RS_RET_INVLD_PROP
  | RS_RET_INTERNAL_ERROR
  | RS_RET_INVALID_VALUE
  | RS_RET_JNAME_INVALID
  | RS_RET_JNAME_NOTFOUND
  | RS_RET_PROVIDED_BUFFER_TOO_SMALL
  | RS_RET_NOT_A_NUMBER
  | RS_RET_FALSE
  | RS_RET_MISSING_CNFPARAMS
  | RS_RET_RULESET_NOT_FOUND

section \<open>Integers of a fixed width\<close>

definition INT_MAX :: int where
  "INT_MAX = 2147483647"

text \<open>Conversion of an \<open>int\<close> to a signed type of \<open>w\<close> bits (two's complement).\<close>

definition to_signed :: "nat \<Rightarrow> int \<Rightarrow> int" where
  "to_signed w i = (i + 2 ^ (w - 1)) mod 2 ^ w - 2 ^ (w - 1)"

abbreviation to_intTiny :: "int \<Rightarrow> int" where
  "to_intTiny \<equiv> to_signed 8"

abbreviation to_short :: "int \<Rightarrow> int" where
  "to_short \<equiv> to_signed 16"

abbreviation to_int :: "int \<Rightarrow> int" where
  "to_int \<equiv> to_signed 32"

definition to_uint :: "int \<Rightarrow> int" where
  "to_uint i = i mod 2 ^ 32"

lemma to_intTiny_id [ranges]: "- 128 \<le> i \<Longrightarrow> i < 128 \<Longrightarrow> to_intTiny i = i"
  by (simp add: to_signed_def)

lemma to_short_id [ranges]: "- 32768 \<le> i \<Longrightarrow> i < 32768 \<Longrightarrow> to_short i = i"
  by (simp add: to_signed_def)

lemma to_int_id [ranges]: "- 2147483648 \<le> i \<Longrightarrow> i < 2147483648 \<Longrightarrow> to_int i = i"
  by (simp add: to_signed_def)

lemma to_uint_id [ranges]: "0 \<le> i \<Longrightarrow> i < 4294967296 \<Longrightarrow> to_uint i = i"
  by (simp add: to_uint_def)

lemma zdiv_less: "a < b * c \<Longrightarrow> a div b < c" if "0 < b" for a b c :: int
proof -
  assume "a < b * c"
  moreover have "b * (a div b) \<le> a"
    using that by (simp add: minus_mod_eq_mult_div [symmetric])
  ultimately have "b * (a div b) < b * c"
    by linarith
  with that show ?thesis
    by simp
qed

lemma sdiv_nonneg [simp]: "0 \<le> (a::int) \<Longrightarrow> 0 \<le> b \<Longrightarrow> a sdiv b = a div b"
  by (cases "a = 0"; cases "b = 0") (auto simp: signed_divide_int_def)

lemma smod_nonneg [simp]: "0 \<le> (a::int) \<Longrightarrow> 0 \<le> b \<Longrightarrow> a smod b = a mod b"
  by (cases "a = 0") (auto simp: signed_modulo_int_def)

section \<open>Bytes and C strings\<close>

definition NUL :: char where
  "NUL = CHR 0x00"

text \<open>The value of an \<open>uchar\<close> when it is promoted to \<open>int\<close>, and the byte an
  \<open>int\<close> is stored as.\<close>

definition byte_val :: "char \<Rightarrow> int" where
  "byte_val c = int (of_char c)"

definition to_char :: "int \<Rightarrow> char" where
  "to_char i = char_of (nat (i mod 256))"

fun deref :: "string \<Rightarrow> char" where
  "deref [] = NUL"
| "deref (c # cs) = c"

text \<open>The byte \<open>p[i]\<close>; reads behind the terminator do not occur in the modelled code and
  are NUL here.\<close>

definition byte_at :: "string \<Rightarrow> int \<Rightarrow> char" where
  "byte_at s i = (if 0 \<le> i \<and> i < int (length s) then s ! nat i else NUL)"

definition is_digit :: "char \<Rightarrow> bool" where
  "is_digit c \<longleftrightarrow> 48 \<le> byte_val c \<and> byte_val c \<le> 57"

text \<open>\<open>isalnum\<close> of the C library in the C locale.\<close>

definition is_alnum :: "char \<Rightarrow> bool" where
  "is_alnum c \<longleftrightarrow> is_digit c \<or> (65 \<le> byte_val c \<and> byte_val c \<le> 90)
     \<or> (97 \<le> byte_val c \<and> byte_val c \<le> 122)"

text \<open>A C string read up to its first NUL, as the \<open>str*\<close> functions see it.\<close>

definition c_str :: "string \<Rightarrow> string" where
  "c_str s = takeWhile (\<lambda>c. c \<noteq> NUL) s"

lemma byte_val_bounds [ranges]: "0 \<le> byte_val c" "byte_val c < 256"
  using nat_of_char_less_256 [of c] by (simp_all add: byte_val_def)

lemma byte_val_to_char [bytes]: "byte_val (to_char i) = i mod 256"
proof -
  have "byte_val (to_char i) = int (of_char (char_of (nat (i mod 256)) :: char))"
    by (simp add: byte_val_def to_char_def)
  also have "\<dots> = int (nat (i mod 256) mod 256)"
    by (simp only: of_char_of)
  also have "\<dots> = i mod 256"
    by simp
  finally show ?thesis .
qed

lemma byte_val_inject: "byte_val c = byte_val d \<longleftrightarrow> c = d"
proof
  assume "byte_val c = byte_val d"
  then have "int (of_char c) = int (of_char d)"
    by (simp add: byte_val_def)
  then have "(of_char c :: nat) = of_char d"
    by linarith
  then have "char_of (of_char c :: nat) = (char_of (of_char d :: nat) :: char)"
    by simp
  then show "c = d"
    by (simp only: char_of_char)
qed simp

lemma to_char_byte_val [bytes]: "to_char (byte_val c) = c"
  using byte_val_bounds [of c] by (simp add: byte_val_to_char flip: byte_val_inject)

lemma byte_val_NUL [bytes]: "byte_val NUL = 0"
  by (simp add: byte_val_def NUL_def)

lemma not_digit_NUL [simp]: "\<not> is_digit NUL"
  by (simp add: is_digit_def byte_val_NUL)

lemma to_char_eq_iff: "0 \<le> i \<Longrightarrow> i < 256 \<Longrightarrow> to_char i = c \<longleftrightarrow> i = byte_val c"
  by (auto simp: byte_val_to_char to_char_byte_val)

lemma deref_eq_NUL: "NUL \<notin> set s \<Longrightarrow> deref s = NUL \<longleftrightarrow> s = []"
  by (cases s) auto

lemma deref_append: "s \<noteq> [] \<Longrightarrow> deref (s @ t) = deref s"
  by (cases s) auto

section \<open>Library routines of C: strcmp and bsearch\<close>

text \<open>\<open>strcmp\<close> on strings without an embedded NUL: the difference of the first bytes that
  differ, as unsigned values.\<close>

fun strcmp :: "string \<Rightarrow> string \<Rightarrow> int" where
  "strcmp [] [] = 0"
| "strcmp [] (d # ds) = - byte_val d"
| "strcmp (c # cs) [] = byte_val c"
| "strcmp (c # cs) (d # ds) = (if c = d then strcmp cs ds else byte_val c - byte_val d)"

text \<open>\<open>bsearch\<close> on the interval \<open>l..<u\<close>; \<open>cmp x\<close> is negative, zero or positive
  as the key is below, at or above the element.\<close>

function bsearch_in :: "('a \<Rightarrow> int) \<Rightarrow> 'a list \<Rightarrow> nat \<Rightarrow> nat \<Rightarrow> 'a option" where
  "bsearch_in cmp xs l u =
     (if l < u
      then let idx = (l + u) div 2; c = cmp (xs ! idx)
           in if c < 0 then bsearch_in cmp xs l idx
              else if c > 0 then bsearch_in cmp xs (idx + 1) u
              else Some (xs ! idx)
      else None)"
  by pat_completeness auto
termination
  by (relation "measure (\<lambda>(cmp, xs, l, u). u - l)") auto

declare bsearch_in.simps [simp del]

definition bsearch :: "('a \<Rightarrow> int) \<Rightarrow> 'a list \<Rightarrow> 'a option" where
  "bsearch cmp xs = bsearch_in cmp xs 0 (length xs)"

text \<open>The table is ordered for the key: the elements below it come first, those above it last.\<close>

definition ordered_for :: "('a \<Rightarrow> int) \<Rightarrow> 'a list \<Rightarrow> bool" where
  "ordered_for cmp xs \<longleftrightarrow>
     (\<forall>j < length xs. \<forall>i < j. (0 < cmp (xs ! j) \<longrightarrow> 0 < cmp (xs ! i))
        \<and> (cmp (xs ! i) < 0 \<longrightarrow> cmp (xs ! j) < 0))"

lemma bsearch_in_sound:
  "bsearch_in cmp xs l u = Some x \<Longrightarrow> u \<le> length xs \<Longrightarrow> x \<in> set xs \<and> cmp x = 0"
proof (induction cmp xs l u rule: bsearch_in.induct)
  case (1 cmp xs l u)
  then show ?case
    by (auto simp: bsearch_in.simps [of cmp xs l u] Let_def intro!: nth_mem split: if_splits)
qed

lemma bsearch_in_complete:
  assumes "ordered_for cmp xs" "l \<le> i" "i < u" "u \<le> length xs" "cmp (xs ! i) = 0"
  shows "\<exists>x. bsearch_in cmp xs l u = Some x"
  using assms
proof (induction cmp xs l u rule: bsearch_in.induct)
  case (1 cmp xs l u)
  define idx where "idx = (l + u) div 2"
  have idx: "l \<le> idx" "idx < u" "idx < length xs"
    using "1.prems" by (auto simp: idx_def)
  have ord: "\<And>a b. a < b \<Longrightarrow> b < length xs \<Longrightarrow>
      (0 < cmp (xs ! b) \<longrightarrow> 0 < cmp (xs ! a)) \<and> (cmp (xs ! a) < 0 \<longrightarrow> cmp (xs ! b) < 0)"
    using "1.prems"(1) by (auto simp: ordered_for_def)
  show ?case
  proof (cases "cmp (xs ! idx)" "0 :: int" rule: linorder_cases)
    case less
    have "i < idx"
      using less ord [of idx i] "1.prems" by (cases "i = idx") (force simp: not_less)+
    with less show ?thesis
      using "1.IH"(1) [OF _ idx_def refl] "1.prems" idx
      by (simp add: bsearch_in.simps [of cmp xs l u] Let_def flip: idx_def)
  next
    case equal
    with idx show ?thesis
      by (simp add: bsearch_in.simps [of cmp xs l u] Let_def flip: idx_def)
  next
    case greater
    have "idx < i"
      using greater ord [of i idx] "1.prems" idx by (cases "i = idx") (force simp: not_less)+
    with greater show ?thesis
      using "1.IH"(2) [OF _ idx_def refl] "1.prems" idx
      by (simp add: bsearch_in.simps [of cmp xs l u] Let_def flip: idx_def)
  qed
qed

lemma bsearch_Some: "bsearch cmp xs = Some x \<Longrightarrow> x \<in> set xs \<and> cmp x = 0"
  using bsearch_in_sound [of cmp xs 0 "length xs" x] by (simp add: bsearch_def)

lemma bsearch_finds:
  assumes "ordered_for cmp xs" "y \<in> set xs" "cmp y = 0"
  shows "\<exists>x. bsearch cmp xs = Some x"
proof -
  from assms(2) obtain i where "i < length xs" "xs ! i = y"
    by (auto simp: in_set_conv_nth)
  then show ?thesis
    using bsearch_in_complete [of cmp xs 0 i "length xs"] assms by (simp add: bsearch_def)
qed

lemma byte_val_eq_0: "byte_val c = 0 \<longleftrightarrow> c = NUL"
  by (metis byte_val_NUL byte_val_inject)

lemma strcmp_eq_0: "NUL \<notin> set s \<Longrightarrow> NUL \<notin> set t \<Longrightarrow> strcmp s t = 0 \<longleftrightarrow> s = t"
  by (induction s t rule: strcmp.induct)
    (auto simp: byte_val_inject byte_val_eq_0)

lemma strcmp_swap: "strcmp t s = - strcmp s t"
  by (induction s t rule: strcmp.induct) auto

lemma strcmp_Cons_le:
  assumes "c \<noteq> NUL"
  shows "\<not> strcmp (c # cs) [] \<le> 0"
    "strcmp (c # cs) (d # ds) \<le> 0 \<longleftrightarrow> byte_val c < byte_val d \<or> c = d \<and> strcmp cs ds \<le> 0"
  using assms byte_val_bounds(1) [of c] byte_val_eq_0 [of c] byte_val_inject [of c d] by auto

lemma strcmp_trans:
  "strcmp s t \<le> 0 \<Longrightarrow> strcmp t u \<le> 0 \<Longrightarrow> NUL \<notin> set s \<Longrightarrow> NUL \<notin> set t \<Longrightarrow> NUL \<notin> set u
    \<Longrightarrow> strcmp s u \<le> 0"
proof (induction s arbitrary: t u)
  case Nil
  then show ?case
    using byte_val_bounds(1) by (cases u) auto
next
  case (Cons c cs)
  have c: "c \<noteq> NUL"
    using Cons.prems(3) by auto
  obtain d ds where t: "t = d # ds" "d \<noteq> NUL"
    using Cons.prems(1,4) strcmp_Cons_le(1) [OF c] by (cases t) auto
  obtain e es where u: "u = e # es"
    using Cons.prems(2) strcmp_Cons_le(1) [OF t(2)] t(1) by (cases u) auto
  have "byte_val c < byte_val d \<or> c = d \<and> strcmp cs ds \<le> 0"
    "byte_val d < byte_val e \<or> d = e \<and> strcmp ds es \<le> 0"
    using Cons.prems(1,2) unfolding t(1) u strcmp_Cons_le(2) [OF c] strcmp_Cons_le(2) [OF t(2)] by blast+
  moreover have "strcmp cs es \<le> 0" if "strcmp cs ds \<le> 0" "strcmp ds es \<le> 0"
    using Cons.IH [OF that] Cons.prems(3-5) t(1) u by simp
  ultimately show ?case
    unfolding u strcmp_Cons_le(2) [OF c] by force
qed

text \<open>\<open>qsort\<close>: some order in which no element is above a later one; which of several equal
  elements comes first is left open by the C library, here it is the earlier one of the input.\<close>

fun qsort_insert :: "('a \<Rightarrow> 'a \<Rightarrow> int) \<Rightarrow> 'a \<Rightarrow> 'a list \<Rightarrow> 'a list" where
  "qsort_insert cmp x [] = [x]"
| "qsort_insert cmp x (y # ys) = (if cmp x y \<le> 0 then x # y # ys else y # qsort_insert cmp x ys)"

primrec qsort :: "('a \<Rightarrow> 'a \<Rightarrow> int) \<Rightarrow> 'a list \<Rightarrow> 'a list" where
  "qsort cmp [] = []"
| "qsort cmp (x # xs) = qsort_insert cmp x (qsort cmp xs)"

lemma set_qsort_insert [simp]: "set (qsort_insert cmp x ys) = insert x (set ys)"
  by (induction ys) auto

lemma set_qsort [simp]: "set (qsort cmp xs) = set xs"
  by (induction xs) auto

text \<open>The comparison is a total preorder on the elements.\<close>

definition cmp_on :: "'a set \<Rightarrow> ('a \<Rightarrow> 'a \<Rightarrow> int) \<Rightarrow> bool" where
  "cmp_on A cmp \<longleftrightarrow> (\<forall>x \<in> A. \<forall>y \<in> A. cmp y x = - cmp x y)
     \<and> (\<forall>x \<in> A. \<forall>y \<in> A. \<forall>z \<in> A. cmp x y \<le> 0 \<longrightarrow> cmp y z \<le> 0 \<longrightarrow> cmp x z \<le> 0)"

lemma cmp_on_subset: "cmp_on B cmp \<Longrightarrow> A \<subseteq> B \<Longrightarrow> cmp_on A cmp"
  unfolding cmp_on_def by blast

lemma sorted_qsort_insert:
  assumes "cmp_on (insert x (set ys)) cmp" "sorted_wrt (\<lambda>a b. cmp a b \<le> 0) ys"
  shows "sorted_wrt (\<lambda>a b. cmp a b \<le> 0) (qsort_insert cmp x ys)"
  using assms
proof (induction ys)
  case (Cons y ys)
  have sub: "cmp_on (insert x (set ys)) cmp"
    using Cons.prems(1) by (rule cmp_on_subset) auto
  show ?case
  proof (cases "cmp x y \<le> 0")
    case True
    have "cmp x z \<le> 0" if "z \<in> set ys" for z
    proof -
      have "cmp y z \<le> 0"
        using Cons.prems(2) that by simp
      with True Cons.prems(1) that show ?thesis
        unfolding cmp_on_def by (meson insertI1 insertI2 list.set_intros)
    qed
    with True Cons.prems(2) show ?thesis
      by auto
  next
    case False
    moreover have "cmp y x = - cmp x y"
      using Cons.prems(1) unfolding cmp_on_def by (meson insertI1 insertI2 list.set_intros(1))
    ultimately show ?thesis
      using Cons.IH [OF sub] Cons.prems(2) by auto
  qed
qed simp

lemma sorted_qsort:
  assumes "cmp_on (set xs) cmp"
  shows "sorted_wrt (\<lambda>a b. cmp a b \<le> 0) (qsort cmp xs)"
  using assms
proof (induction xs)
  case (Cons x xs)
  have "cmp_on (set xs) cmp"
    using Cons.prems by (rule cmp_on_subset) auto
  with Cons show ?case
    by (simp add: sorted_qsort_insert)
qed simp

end
