(* ===== verification/Timezones.thy ===== *)
theory Timezones
  imports Rs_Prelude
begin

text \<open>
  The configured time zones (\<open>runtime/timezones.c\<close>): the table that \<open>timezone\<close> statements
  fill, its sorting by name, and the binary search the RFC 3164 timestamp parser does in it. The
  table is a list; a failing allocation is not modelled.
\<close>

section \<open>The table\<close>

record tzinfo =
  tz_id :: string
  offsMode :: char
  offsHour :: int
  offsMin :: int

definition addTimezoneInfo :: "tzinfo list \<Rightarrow> string \<Rightarrow> char \<Rightarrow> int \<Rightarrow> int \<Rightarrow> tzinfo list" where
  "addTimezoneInfo tzinfos tzid mode h m =
     tzinfos @ [\<lparr>tz_id = tzid, offsMode = mode, offsHour = h, offsMin = m\<rparr>]"

text \<open>\<open>glblProcessTimezone\<close> behind the parameter retrieval: the check and conversion of the
  \<open>offset\<close> parameter; a missing or malformed parameter leaves the table alone.\<close>

definition glblProcessTimezone :: "tzinfo list \<Rightarrow> string option \<Rightarrow> string option \<Rightarrow> tzinfo list" where
  "glblProcessTimezone tzinfos key_param offset_param =
     (case offset_param of
        None \<Rightarrow> tzinfos
      | Some offset \<Rightarrow>
          (case key_param of
             None \<Rightarrow> tzinfos
           | Some key \<Rightarrow>
               if length offset \<noteq> 6
                  \<or> \<not> (offset ! 0 = CHR ''-'' \<or> offset ! 0 = CHR ''+'')
                  \<or> \<not> (is_digit (offset ! 1) \<and> is_digit (offset ! 2))
                  \<or> offset ! 3 \<noteq> CHR '':''
                  \<or> \<not> (is_digit (offset ! 4) \<and> is_digit (offset ! 5))
               then tzinfos
               else
                 let h = (byte_val (offset ! 1) - 48) * 10 + byte_val (offset ! 2) - 48;
                     m = (byte_val (offset ! 4) - 48) * 10 + byte_val (offset ! 5) - 48
                 in if h > 12 \<or> m > 59 then tzinfos
                    else addTimezoneInfo tzinfos key (offset ! 0) h m))"

definition qs_arrcmp_tzinfo :: "tzinfo \<Rightarrow> tzinfo \<Rightarrow> int" where
  "qs_arrcmp_tzinfo s1 s2 = strcmp (tz_id s1) (tz_id s2)"

definition sortTimezones :: "tzinfo list \<Rightarrow> tzinfo list" where
  "sortTimezones tzinfos = (if length tzinfos > 0 then qsort qs_arrcmp_tzinfo tzinfos else tzinfos)"

definition bs_arrcmp_tzinfo :: "string \<Rightarrow> tzinfo \<Rightarrow> int" where
  "bs_arrcmp_tzinfo key tz = strcmp key (tz_id tz)"

definition glblFindTimezone :: "tzinfo list \<Rightarrow> string \<Rightarrow> tzinfo option" where
  "glblFindTimezone tzinfos key = bsearch (bs_arrcmp_tzinfo key) tzinfos"

text \<open>All \<open>timezone\<close> statements of a configuration, as pairs of the two parameters, and the
  sorting when it is activated.\<close>

definition process_timezones :: "tzinfo list \<Rightarrow> (string \<times> string) list \<Rightarrow> tzinfo list" where
  "process_timezones tzs stmts =
     foldl (\<lambda>tzs (key, offset). glblProcessTimezone tzs (Some key) (Some offset)) tzs stmts"

definition load_timezones :: "(string \<times> string) list \<Rightarrow> tzinfo list" where
  "load_timezones stmts = sortTimezones (process_timezones [] stmts)"

section \<open>Lookup\<close>

lemma sorted_ordered_for:
  assumes "sorted_wrt (\<lambda>a b. qs_arrcmp_tzinfo a b \<le> 0) tzs" "\<forall>z \<in> set tzs. NUL \<notin> set (tz_id z)"
    and "NUL \<notin> set key"
  shows "ordered_for (bs_arrcmp_tzinfo key) tzs"
  unfolding ordered_for_def
proof (intro allI impI conjI)
  fix j i
  assume ij: "j < length tzs" "i < j"
  let ?a = "tz_id (tzs ! i)" and ?b = "tz_id (tzs ! j)"
  have le: "strcmp ?a ?b \<le> 0"
    using assms(1) ij by (auto simp: sorted_wrt_iff_nth_less qs_arrcmp_tzinfo_def)
  have nn: "NUL \<notin> set ?a" "NUL \<notin> set ?b"
    using assms(2) ij by auto
  {
    assume "0 < bs_arrcmp_tzinfo key (tzs ! j)"
    then have "\<not> strcmp key ?b \<le> 0"
      by (simp add: bs_arrcmp_tzinfo_def)
    with strcmp_trans [OF _ le assms(3) nn] have "\<not> strcmp key ?a \<le> 0"
      by blast
    then show "0 < bs_arrcmp_tzinfo key (tzs ! i)"
      by (simp add: bs_arrcmp_tzinfo_def)
  next
    assume "bs_arrcmp_tzinfo key (tzs ! i) < 0"
    then have "\<not> strcmp ?a key \<le> 0"
      using strcmp_swap [of key ?a] by (simp add: bs_arrcmp_tzinfo_def)
    with strcmp_trans [OF le _ nn assms(3)] have "\<not> strcmp ?b key \<le> 0"
      by blast
    then show "bs_arrcmp_tzinfo key (tzs ! j) < 0"
      using strcmp_swap [of key ?b] by (simp add: bs_arrcmp_tzinfo_def)
  }
qed

text \<open>What an \<open>offset\<close> parameter denotes: sign, hours and minutes of \<open>+hh:mm\<close>.\<close>

fun tz_offset :: "string \<Rightarrow> (char \<times> int \<times> int) option" where
  "tz_offset [s, h1, h2, c, m1, m2] =
     (let h = (byte_val h1 - 48) * 10 + byte_val h2 - 48; m = (byte_val m1 - 48) * 10 + byte_val m2 - 48
      in if s \<in> {CHR ''+'', CHR ''-''} \<and> c = CHR '':'' \<and> list_all is_digit [h1, h2, m1, m2]
            \<and> h \<le> 12 \<and> m \<le> 59
         then Some (s, h, m) else None)"
| "tz_offset _ = None"

definition tz_entry :: "string \<Rightarrow> char \<times> int \<times> int \<Rightarrow> tzinfo" where
  "tz_entry key = (\<lambda>(s, h, m). \<lparr>tz_id = key, offsMode = s, offsHour = h, offsMin = m\<rparr>)"

lemma length_6_conv: "length xs = 6 \<longleftrightarrow> (\<exists>a b c d e f. xs = [a, b, c, d, e, f])"
  by (auto simp: numeral_eq_Suc length_Suc_conv)

lemma tz_offset_length: "length offset \<noteq> 6 \<Longrightarrow> tz_offset offset = None"
  by (cases offset rule: tz_offset.cases) auto

lemma glblProcessTimezone_eq:
  "glblProcessTimezone tzs (Some key) (Some offset) =
     (case tz_offset offset of None \<Rightarrow> tzs | Some v \<Rightarrow> tzs @ [tz_entry key v])"
proof (cases "length offset = 6")
  case True
  then obtain a b c d e f where "offset = [a, b, c, d, e, f]"
    unfolding length_6_conv by blast
  then show ?thesis
    by (auto simp: glblProcessTimezone_def addTimezoneInfo_def tz_entry_def Let_def)
qed (simp add: glblProcessTimezone_def tz_offset_length)

lemma set_process_timezones:
  "set (process_timezones tzs stmts) =
     set tzs \<union> {tz_entry key v | key offset v. (key, offset) \<in> set stmts \<and> tz_offset offset = Some v}"
proof (induction stmts arbitrary: tzs)
  case (Cons st stmts)
  obtain key offset where st: "st = (key, offset)"
    by fastforce
  have step: "process_timezones tzs ((key, offset) # stmts) =
      process_timezones (glblProcessTimezone tzs (Some key) (Some offset)) stmts"
    by (simp add: process_timezones_def)
  show ?case
    unfolding st step Cons.IH glblProcessTimezone_eq by (cases "tz_offset offset") fastforce+
qed (simp add: process_timezones_def)

lemma tz_id_entry [simp]: "tz_id (tz_entry key v) = key"
  by (simp add: tz_entry_def split: prod.split)

lemma load_timezones_ordered:
  assumes "\<forall>(k, v) \<in> set stmts. NUL \<notin> set k" "NUL \<notin> set key"
  shows "ordered_for (bs_arrcmp_tzinfo key) (load_timezones stmts)"
proof -
  let ?tzs = "process_timezones [] stmts"
  have nn: "\<forall>z \<in> set ?tzs. NUL \<notin> set (tz_id z)"
    using assms(1) by (fastforce simp: set_process_timezones)
  have "cmp_on (set ?tzs) qs_arrcmp_tzinfo"
    unfolding cmp_on_def qs_arrcmp_tzinfo_def using nn strcmp_swap strcmp_trans by blast
  then have "sorted_wrt (\<lambda>a b. qs_arrcmp_tzinfo a b \<le> 0) (load_timezones stmts)"
    using sorted_qsort by (auto simp: load_timezones_def sortTimezones_def)
  moreover have "set (load_timezones stmts) = set ?tzs"
    by (auto simp: load_timezones_def sortTimezones_def)
  ultimately show ?thesis
    using sorted_ordered_for nn assms(2) by simp
qed

section \<open>Properties\<close>

text \<open>(C32) Looking a zone name up in the table that a list of \<open>timezone\<close> statements leaves after
  sorting (names without an embedded NUL): \<open>glblFindTimezone\<close> finds an entry exactly if some
  statement for that name has an offset of the form \<open>+hh:mm\<close> or \<open>-hh:mm\<close> with at most 12
  hours and 59 minutes, and the entry is that of such a statement.\<close>

theorem glblFindTimezone_correct:
  assumes "\<forall>(k, v) \<in> set stmts. NUL \<notin> set k" "NUL \<notin> set key"
  shows "case glblFindTimezone (load_timezones stmts) key of
      None \<Rightarrow> \<forall>offset. (key, offset) \<in> set stmts \<longrightarrow> tz_offset offset = None
    | Some z \<Rightarrow> \<exists>offset v. (key, offset) \<in> set stmts \<and> tz_offset offset = Some v \<and> z = tz_entry key v"
proof -
  have set: "set (load_timezones stmts) =
      {tz_entry k v | k offset v. (k, offset) \<in> set stmts \<and> tz_offset offset = Some v}"
    using set_process_timezones [of "[]" stmts] by (auto simp: load_timezones_def sortTimezones_def)
  have zero: "bs_arrcmp_tzinfo key (tz_entry k v) = 0 \<longleftrightarrow> k = key" if "(k, offset) \<in> set stmts" for k v offset
    using that assms strcmp_eq_0 [of key k] by (fastforce simp: bs_arrcmp_tzinfo_def)
  show ?thesis
  proof (cases "glblFindTimezone (load_timezones stmts) key")
    case None
    have "tz_offset offset = None" if st: "(key, offset) \<in> set stmts" for offset
    proof (cases "tz_offset offset")
      case offs: (Some v)
      then have "tz_entry key v \<in> set (load_timezones stmts)"
        unfolding set using st by blast
      then obtain x where "bsearch (bs_arrcmp_tzinfo key) (load_timezones stmts) = Some x"
        using bsearch_finds [OF load_timezones_ordered [OF assms]] zero [OF st] by blast
      with None show ?thesis
        by (simp add: glblFindTimezone_def)
    qed
    with None show ?thesis
      by simp
  next
    case (Some z)
    then have "z \<in> set (load_timezones stmts)" "bs_arrcmp_tzinfo key z = 0"
      using bsearch_Some unfolding glblFindTimezone_def by fast+
    then show ?thesis
      unfolding set using zero Some by fastforce
  qed
qed

lemma load_timezones_example:
  "load_timezones [(''PDT'', ''-07:00''), (''CET'', ''+01:00''), (''X'', ''+1:00'')] =
     [tz_entry ''CET'' (CHR ''+'', 1, 0), tz_entry ''PDT'' (CHR ''-'', 7, 0)]"
  by code_simp

theorem glblFindTimezone_correct_witness:
  "\<exists>offset v. (''PDT'', offset) \<in> set [(''PDT'', ''-07:00''), (''CET'', ''+01:00''), (''X'', ''+1:00'')]
     \<and> tz_offset offset = Some v \<and> tz_entry ''PDT'' (CHR ''-'', 7, 0) = tz_entry ''PDT'' v"
proof -
  let ?stmts = "[(''PDT'', ''-07:00''), (''CET'', ''+01:00''), (''X'', ''+1:00'')]"
  have "glblFindTimezone [tz_entry ''CET'' (CHR ''+'', 1, 0), tz_entry ''PDT'' (CHR ''-'', 7, 0)] ''PDT'' =
      Some (tz_entry ''PDT'' (CHR ''-'', 7, 0))"
    by (simp add: glblFindTimezone_def bsearch_def bs_arrcmp_tzinfo_def bsearch_in.simps byte_val_def)
  then show ?thesis
    using glblFindTimezone_correct [of ?stmts "''PDT''"]
    unfolding load_timezones_example by (simp add: NUL_def)
qed

end
