(* ===== verification/Datetime.thy ===== *)
theory Datetime
  imports Timezones "HOL-Library.Sublist"
begin

text \<open>
  Timestamps (\<open>runtime/datetime.c\<close>): the \<open>syslogTime\<close>
  structure, the number scanner \<open>srSLMGParseInt32\<close>, the RFC 3339 and RFC 3164 timestamp
  parsers with their lookahead for years and time zones, and what the parsers guarantee: how far
  they move, that a failure leaves the caller's variables alone, and the range of every field they
  store.

  A parser takes the remaining bytes and the remaining length the caller claims (\<open>lenStr\<close>,
  which the code keeps apart from the buffer) and returns both.
\<close>

section \<open>Data\<close>

text \<open>\<open>struct syslogTime\<close>; the \<open>intTiny\<close> (\<open>char\<close>), \<open>short\<close> and \<open>int\<close> fields are
  integers, conversions are written at the stores.\<close>

record syslogTime =
  timeType :: int
  month :: int
  day :: int
  wday :: int
  hour :: int
  minute :: int
  second :: int
  secfracPrecision :: int
  OffsetMinute :: int
  OffsetHour :: int
  OffsetMode :: char
  year :: int
  secfrac :: int
  inUTC :: bool

section \<open>Scanning a number\<close>

text \<open>The loop of \<open>srSLMGParseInt32\<close>: the accumulated value, the position and the remaining
  length.\<close>

fun ParseInt32_loop :: "int \<Rightarrow> string \<Rightarrow> int \<Rightarrow> int \<times> string \<times> int" where
  "ParseInt32_loop i [] lenStr = (i, [], lenStr)"
| "ParseInt32_loop i (c # cs) lenStr =
     (if 0 < lenStr \<and> is_digit c \<and> i < INT_MAX sdiv 10 - 1
      then ParseInt32_loop (i * 10 + byte_val c - 48) cs (lenStr - 1)
      else (i, c # cs, lenStr))"

definition srSLMGParseInt32 :: "string \<Rightarrow> int \<Rightarrow> int \<times> string \<times> int" where
  "srSLMGParseInt32 psz lenStr = ParseInt32_loop 0 psz lenStr"

text \<open>A number that the caller checks against \<open>lo..hi\<close>, and the test
  \<open>lenStr == 0 || *pszTS++ != c\<close> followed by \<open>--lenStr\<close>, both aborting with
  \<^const>\<open>RS_RET_INVLD_TIME\<close> (here \<^const>\<open>None\<close>).\<close>

definition number_in :: "int \<Rightarrow> int \<Rightarrow> string \<Rightarrow> int \<Rightarrow> (int \<times> string \<times> int) option" where
  "number_in lo hi p lenStr =
     (let (v, p', lenStr') = srSLMGParseInt32 p lenStr
      in if v < lo \<or> v > hi then None else Some (v, p', lenStr'))"

definition expect :: "char \<Rightarrow> string \<Rightarrow> int \<Rightarrow> (string \<times> int) option" where
  "expect c p lenStr = (if lenStr = 0 \<or> deref p \<noteq> c then None else Some (tl p, lenStr - 1))"

text \<open>The optional \<open>.subsec\<close>: value and number of digits scanned.\<close>

definition parse_secfrac :: "string \<Rightarrow> int \<Rightarrow> int \<times> int \<times> string \<times> int" where
  "parse_secfrac p lenStr =
     (if 0 < lenStr \<and> deref p = CHR ''.''
      then let pszStart = tl p;
               (v, p', lenStr') = srSLMGParseInt32 pszStart (lenStr - 1)
           in (v, int (length pszStart) - int (length p'), p', lenStr')
      else (0, 0, p, lenStr))"

section \<open>RFC 3339 timestamps\<close>

text \<open>The time zone: \<open>Z\<close>, or \<open>+hh:mm\<close> or \<open>-hh:mm\<close>; it must be there.\<close>

definition parse_tz3339 :: "string \<Rightarrow> int \<Rightarrow> (char \<times> int \<times> int \<times> string \<times> int) option" where
  "parse_tz3339 p lenStr =
     (if lenStr = 0 then None
      else if deref p = CHR ''Z'' then Some (CHR ''Z'', 0, 0, tl p, lenStr - 1)
      else if deref p = CHR ''+'' \<or> deref p = CHR ''-'' then
        do { (oh, p1, len1) \<leftarrow> number_in 0 23 (tl p) (lenStr - 1);
             (p2, len2) \<leftarrow> expect (CHR '':'') p1 len1;
             (om, p3, len3) \<leftarrow> number_in 0 59 p2 len2;
             Some (deref p, oh, om, p3, len3) }
      else None)"

text \<open>The trailing space that a timestamp in front of more data must have.\<close>

definition parse_final_sp :: "string \<Rightarrow> int \<Rightarrow> (string \<times> int) option" where
  "parse_final_sp p lenStr =
     (if 0 < lenStr
      then (if deref p \<noteq> CHR '' '' then None else Some (tl p, lenStr - 1))
      else Some (p, lenStr))"

text \<open>\<open>:mm:ss\<close>, which both timestamp formats have behind the hour.\<close>

definition parse_min_sec :: "string \<Rightarrow> int \<Rightarrow> (int \<times> int \<times> string \<times> int) option" where
  "parse_min_sec p lenStr =
     do { (p1, len1) \<leftarrow> expect (CHR '':'') p lenStr;
          (mn, p2, len2) \<leftarrow> number_in 0 59 p1 len1;
          (p3, len3) \<leftarrow> expect (CHR '':'') p2 len2;
          (sc, p4, len4) \<leftarrow> number_in 0 60 p3 len3;
          Some (mn, sc, p4, len4) }"

text \<open>\<open>yyyy-mm-ddT\<close>.\<close>

definition parse_date3339 :: "string \<Rightarrow> int \<Rightarrow> (int \<times> int \<times> int \<times> string \<times> int) option" where
  "parse_date3339 p lenStr =
     (let (yr, p1, len1) = srSLMGParseInt32 p lenStr
      in if len1 = 0 \<or> deref p1 \<noteq> CHR ''-'' \<or> yr < 0 \<or> yr \<ge> 2100 then None
      else do {
        (mon, p2, len2) \<leftarrow> number_in 1 12 (tl p1) (len1 - 1);
        (p3, len3) \<leftarrow> expect (CHR ''-'') p2 len2;
        (dy, p4, len4) \<leftarrow> number_in 1 31 p3 len3;
        (p5, len5) \<leftarrow> expect (CHR ''T'') p4 len4;
        Some (yr, mon, dy, p5, len5) })"

text \<open>The body of \<open>ParseTIMESTAMP3339\<close> with its stores into the caller's structure.\<close>

definition scan3339 :: "syslogTime \<Rightarrow> string \<Rightarrow> int \<Rightarrow> (syslogTime \<times> string \<times> int) option" where
  "scan3339 pTime p0 lenStr0 =
     do {
        (yr, mon, dy, p1, len1) \<leftarrow> parse_date3339 p0 lenStr0;
        (hr, p2, len2) \<leftarrow> number_in 0 23 p1 len1;
        (mn, sc, p3, len3) \<leftarrow> parse_min_sec p2 len2;
        let (frac, prec, p4, len4) = parse_secfrac p3 len3;
        (om, oh, omin, p5, len5) \<leftarrow> parse_tz3339 p4 len4;
        (p6, len6) \<leftarrow> parse_final_sp p5 len5;
        Some (pTime\<lparr>timeType := 2, year := to_short yr, month := to_intTiny mon,
                day := to_intTiny dy, hour := to_intTiny hr, minute := to_intTiny mn,
                second := to_intTiny sc, secfrac := frac,
                secfracPrecision := to_intTiny prec, OffsetMode := om,
                OffsetHour := to_intTiny oh, OffsetMinute := to_intTiny omin\<rparr>, p6, len6)
      }"

definition ParseTIMESTAMP3339 ::
  "syslogTime \<Rightarrow> string \<Rightarrow> int \<Rightarrow> rsRetVal \<times> syslogTime \<times> string \<times> int" where
  "ParseTIMESTAMP3339 pTime ppszTS pLenStr =
     (case scan3339 pTime ppszTS pLenStr of
        None \<Rightarrow> (RS_RET_INVLD_TIME, pTime, ppszTS, pLenStr)
      | Some (t, p, n) \<Rightarrow> (RS_RET_OK, t, p, n))"

section \<open>RFC 3164 timestamps\<close>

text \<open>A year in front of the month. The position moves over the space behind it, the remaining
  length does not.\<close>

definition parse_front_year :: "string \<Rightarrow> int \<Rightarrow> (int \<times> string \<times> int) option" where
  "parse_front_year p lenStr =
     (if is_digit (deref p)
      then let (yr, p', lenStr') = srSLMGParseInt32 p lenStr
           in if yr < 1970 \<or> yr > 2100 \<or> deref p' \<noteq> CHR '' '' then None
              else Some (yr, tl p', lenStr')
      else Some (0, p, lenStr))"

text \<open>The switch over the letters of the month, either case.\<close>

definition is_ci :: "char \<Rightarrow> char \<Rightarrow> char \<Rightarrow> bool" where
  "is_ci lower upper c \<longleftrightarrow> c = lower \<or> c = upper"

definition parse_month :: "string \<Rightarrow> (int \<times> string) option" where
  "parse_month p0 =
     (let c = deref p0; p = tl p0; q = tl p in
      if is_ci (CHR ''j'') (CHR ''J'') c then
        (if is_ci (CHR ''a'') (CHR ''A'') (deref p) then
           (if is_ci (CHR ''n'') (CHR ''N'') (deref q) then Some (1, tl q) else None)
         else if is_ci (CHR ''u'') (CHR ''U'') (deref p) then
           (if is_ci (CHR ''n'') (CHR ''N'') (deref q) then Some (6, tl q)
            else if is_ci (CHR ''l'') (CHR ''L'') (deref q) then Some (7, tl q) else None)
         else None)
      else if is_ci (CHR ''f'') (CHR ''F'') c then
        (if is_ci (CHR ''e'') (CHR ''E'') (deref p) then
           (if is_ci (CHR ''b'') (CHR ''B'') (deref q) then Some (2, tl q) else None)
         else None)
      else if is_ci (CHR ''m'') (CHR ''M'') c then
        (if is_ci (CHR ''a'') (CHR ''A'') (deref p) then
           (if is_ci (CHR ''r'') (CHR ''R'') (deref q) then Some (3, tl q)
            else if is_ci (CHR ''y'') (CHR ''Y'') (deref q) then Some (5, tl q) else None)
         else None)
      else if is_ci (CHR ''a'') (CHR ''A'') c then
        (if is_ci (CHR ''p'') (CHR ''P'') (deref p) then
           (if is_ci (CHR ''r'') (CHR ''R'') (deref q) then Some (4, tl q) else None)
         else if is_ci (CHR ''u'') (CHR ''U'') (deref p) then
           (if is_ci (CHR ''g'') (CHR ''G'') (deref q) then Some (8, tl q) else None)
         else None)
      else if is_ci (CHR ''s'') (CHR ''S'') c then
        (if is_ci (CHR ''e'') (CHR ''E'') (deref p) then
           (if is_ci (CHR ''p'') (CHR ''P'') (deref q) then Some (9, tl q) else None)
         else None)
      else if is_ci (CHR ''o'') (CHR ''O'') c then
        (if is_ci (CHR ''c'') (CHR ''C'') (deref p) then
           (if is_ci (CHR ''t'') (CHR ''T'') (deref q) then Some (10, tl q) else None)
         else None)
      else if is_ci (CHR ''n'') (CHR ''N'') c then
        (if is_ci (CHR ''o'') (CHR ''O'') (deref p) then
           (if is_ci (CHR ''v'') (CHR ''V'') (deref q) then Some (11, tl q) else None)
         else None)
      else if is_ci (CHR ''d'') (CHR ''D'') c then
        (if is_ci (CHR ''e'') (CHR ''E'') (deref p) then
           (if is_ci (CHR ''c'') (CHR ''C'') (deref q) then Some (12, tl q) else None)
         else None)
      else None)"

text \<open>Behind the month: space, day (with a second space for a day of one digit), space.\<close>

definition parse_day :: "string \<Rightarrow> int \<Rightarrow> (int \<times> string \<times> int) option" where
  "parse_day p lenStr =
     do { (p1, len1) \<leftarrow> expect (CHR '' '') p lenStr;
          let (p2, len2) = (if deref p1 = CHR '' '' then (tl p1, len1 - 1) else (p1, len1));
          (dy, p3, len3) \<leftarrow> number_in 1 31 p2 len2;
          (p4, len4) \<leftarrow> expect (CHR '' '') p3 len3;
          Some (dy, p4, len4) }"

text \<open>The time, with a year in place of the hour if none was seen yet: year, hour, minute,
  second.\<close>

definition parse_time :: "int \<Rightarrow> string \<Rightarrow> int \<Rightarrow> (int \<times> int \<times> int \<times> int \<times> string \<times> int) option"
where
  "parse_time yr p lenStr =
     do { let (v, p1, len1) = srSLMGParseInt32 p lenStr;
          (yr', hr, p2, len2) \<leftarrow>
            (if yr = 0 \<and> v > 1970 \<and> v < 2100
             then do { (p', len') \<leftarrow> expect (CHR '' '') p1 len1;
                       let (hr, p'', len'') = srSLMGParseInt32 p' len';
                       Some (v, hr, p'', len'') }
             else Some (yr, v, p1, len1));
          (if hr < 0 \<or> hr > 23 then None
           else do { (mn, sc, p3, len3) \<leftarrow> parse_min_sec p2 len2;
                     Some (yr', hr, mn, sc, p3, len3) }) }"

text \<open>The loop copying the zone name into \<open>tzstring\<close>; the first argument is the number of
  bytes that still fit.\<close>

fun tzstring_loop :: "nat \<Rightarrow> string \<Rightarrow> int \<Rightarrow> string \<times> string \<times> int" where
  "tzstring_loop 0 p lenStr = ([], p, lenStr)"
| "tzstring_loop (Suc room) p lenStr =
     (if 0 < lenStr \<and> deref p \<noteq> CHR '':'' \<and> deref p \<noteq> CHR '' ''
      then let (tz, p', lenStr') = tzstring_loop room (tl p) (lenStr - 1)
           in (deref p # tz, p', lenStr')
      else ([], p, lenStr))"

text \<open>The optional zone name: the zone's offset if it is known.\<close>

definition parse_tzstring ::
  "tzinfo list \<Rightarrow> bool \<Rightarrow> string \<Rightarrow> int \<Rightarrow> tzinfo option \<times> string \<times> int" where
  "parse_tzstring tzs bParseTZ p lenStr =
     (if bParseTZ \<and> lenStr > 2 \<and> deref p = CHR '' ''
      then let (tz, p', lenStr') = tzstring_loop 15 (tl p) (lenStr - 1)
           in (if 0 < length tz then glblFindTimezone tzs (c_str tz) else None, p', lenStr')
      else (None, p, lenStr))"

text \<open>The four digits behind the time.\<close>

fun year_digits :: "nat \<Rightarrow> int \<Rightarrow> string \<Rightarrow> int" where
  "year_digits 0 y p = y"
| "year_digits (Suc n) y p =
     (if is_digit (deref p) then year_digits n (10 * y + byte_val (deref p) - 48) (tl p) else y)"

definition parse_year_after ::
  "bool \<Rightarrow> int \<Rightarrow> string \<Rightarrow> int \<Rightarrow> int \<times> string \<times> int" where
  "parse_year_after bDetectYearAfterTime yr p lenStr =
     (if bDetectYearAfterTime \<and> yr = 0 \<and> lenStr > 5 \<and> deref p = CHR '' ''
      then let y = year_digits 4 0 (tl p);
               y' = (if lenStr > 6 \<and> byte_at p 5 \<noteq> CHR '' '' then 0 else y)
           in if 2000 \<le> y' \<and> y' < 2100 then (y', drop 5 p, lenStr - 5) else (yr, p, lenStr)
      else (yr, p, lenStr))"

text \<open>The extra colon some devices send.\<close>

definition skip_colon :: "string \<Rightarrow> int \<Rightarrow> string \<times> int" where
  "skip_colon p lenStr =
     (if 0 < lenStr \<and> deref p = CHR '':'' then (tl p, lenStr - 1) else (p, lenStr))"

text \<open>The stores into the caller's structure, made once everything was accepted.\<close>

definition store3164 ::
  "syslogTime \<Rightarrow> int \<Rightarrow> int \<Rightarrow> int \<Rightarrow> int \<Rightarrow> int \<Rightarrow> int \<Rightarrow> int \<Rightarrow> int \<Rightarrow> tzinfo option \<Rightarrow> syslogTime" where
  "store3164 pTime mon yr dy hr mn sc frac prec tz =
     (let t1 = pTime\<lparr>timeType := 1, month := to_intTiny mon\<rparr>;
          t2 = (if yr > 0 then t1\<lparr>year := to_short yr\<rparr> else t1);
          t3 = t2\<lparr>day := to_intTiny dy, hour := to_intTiny hr, minute := to_intTiny mn,
                 second := to_intTiny sc, secfrac := frac, secfracPrecision := to_intTiny prec\<rparr>
      in case tz of
           None \<Rightarrow> t3
         | Some z \<Rightarrow> if offsMode z \<noteq> NUL
                     then t3\<lparr>OffsetMode := offsMode z, OffsetHour := offsHour z,
                            OffsetMinute := offsMin z\<rparr>
                     else t3)"

definition scan3164 ::
  "tzinfo list \<Rightarrow> bool \<Rightarrow> bool \<Rightarrow> syslogTime \<Rightarrow> string \<Rightarrow> int \<Rightarrow> (syslogTime \<times> string \<times> int) option" where
  "scan3164 tzs bParseTZ bDetectYearAfterTime pTime p0 lenStr0 =
     (if lenStr0 < 3 then None
      else do {
        (yr0, p1, len1) \<leftarrow> parse_front_year p0 lenStr0;
        (mon, p2) \<leftarrow> parse_month p1;
        (dy, p3, len3) \<leftarrow> parse_day p2 (len1 - 3);
        (yr1, hr, mn, sc, p4, len4) \<leftarrow> parse_time yr0 p3 len3;
        let (frac, prec, p5, len5) = parse_secfrac p4 len4;
        let (tz, p6, len6) = parse_tzstring tzs bParseTZ p5 len5;
        let (yr, p7, len7) = parse_year_after bDetectYearAfterTime yr1 p6 len6;
        let (p8, len8) = skip_colon p7 len7;
        (p9, len9) \<leftarrow> parse_final_sp p8 len8;
        Some (store3164 pTime mon yr dy hr mn sc frac prec tz, p9, len9)
      })"

definition ParseTIMESTAMP3164 ::
  "tzinfo list \<Rightarrow> bool \<Rightarrow> bool \<Rightarrow> syslogTime \<Rightarrow> string \<Rightarrow> int
     \<Rightarrow> rsRetVal \<times> syslogTime \<times> string \<times> int" where
  "ParseTIMESTAMP3164 tzs bParseTZ bDetectYearAfterTime pTime ppszTS pLenStr =
     (case scan3164 tzs bParseTZ bDetectYearAfterTime pTime ppszTS pLenStr of
        None \<Rightarrow> (RS_RET_INVLD_TIME, pTime, ppszTS, pLenStr)
      | Some (t, p, n) \<Rightarrow> (RS_RET_OK, t, p, n))"

text \<open>The default time zone of an input, \<open>+hh:mm\<close>.\<close>

definition applyDfltTZ :: "syslogTime \<Rightarrow> string \<Rightarrow> syslogTime" where
  "applyDfltTZ pTime tz =
     pTime\<lparr>OffsetMode := byte_at tz 0,
       OffsetHour := to_intTiny ((byte_val (byte_at tz 1) - 48) * 10 + (byte_val (byte_at tz 2) - 48)),
       OffsetMinute := to_intTiny ((byte_val (byte_at tz 4) - 48) * 10 + (byte_val (byte_at tz 5) - 48))\<rparr>"

section \<open>How far a scanner moves\<close>

definition advances :: "string \<Rightarrow> int \<Rightarrow> string \<Rightarrow> int \<Rightarrow> bool" where
  "advances p len p' len' \<longleftrightarrow>
     suffix p' p \<and> len' - int (length p') = len - int (length p) \<and> (0 \<le> len \<longrightarrow> 0 \<le> len')"

lemma advances_refl [simp]: "advances p len p len"
  by (simp add: advances_def)

lemma advances_trans [trans]:
  "advances p len p' len' \<Longrightarrow> advances p' len' p'' len'' \<Longrightarrow> advances p len p'' len''"
  by (auto simp: advances_def intro: suffix_order.trans)

lemma advances_tl: "p \<noteq> [] \<Longrightarrow> len \<noteq> 0 \<Longrightarrow> advances p len (tl p) (len - 1)"
  by (cases p) (auto simp: advances_def suffix_ConsI)

lemma deref_nonempty: "deref p = c \<Longrightarrow> c \<noteq> NUL \<Longrightarrow> p \<noteq> []"
  by auto

lemma ParseInt32_loop_advances:
  "ParseInt32_loop i p len = (v, p', len') \<Longrightarrow> advances p len p' len'"
proof (induction i p len rule: ParseInt32_loop.induct)
  case (2 i c cs len)
  then show ?case
    using advances_tl [of "c # cs" len] by (auto split: if_splits intro: advances_trans)
qed simp

lemma ParseInt32_loop_bounds:
  "ParseInt32_loop i p len = (v, p', len') \<Longrightarrow> 0 \<le> i \<Longrightarrow> i \<le> INT_MAX \<Longrightarrow> 0 \<le> v \<and> v \<le> INT_MAX"
proof (induction i p len rule: ParseInt32_loop.induct)
  case (2 i c cs len)
  then show ?case
    by (auto simp: is_digit_def INT_MAX_def split: if_splits)
qed simp

lemma srSLMGParseInt32D:
  assumes "srSLMGParseInt32 p len = (v, p', len')"
  shows "0 \<le> v" "v \<le> INT_MAX" "advances p len p' len'"
  using assms ParseInt32_loop_bounds [of 0 p len v p' len'] ParseInt32_loop_advances [of 0 p len v p' len']
  by (auto simp: srSLMGParseInt32_def INT_MAX_def)

lemma number_inD:
  assumes "number_in lo hi p len = Some (v, p', len')"
  shows "lo \<le> v" "v \<le> hi" "advances p len p' len'"
  using assms by (auto simp: number_in_def split: prod.splits if_splits dest: srSLMGParseInt32D(3))

lemma expectD:
  assumes "expect c p len = Some (p', len')" "c \<noteq> NUL"
  shows "advances p len p' len'"
proof -
  from assms have "len \<noteq> 0" "deref p = c" "p' = tl p" "len' = len - 1"
    by (auto simp: expect_def split: if_splits)
  with deref_nonempty [of p c] assms(2) advances_tl [of p len] show ?thesis
    by auto
qed

lemma parse_secfracD:
  assumes "parse_secfrac p len = (v, prec, p', len')"
  shows "0 \<le> v" "v \<le> INT_MAX" "0 \<le> prec" "advances p len p' len'"
proof -
  have "0 \<le> v \<and> v \<le> INT_MAX \<and> 0 \<le> prec \<and> advances p len p' len'"
  proof (cases "0 < len \<and> deref p = CHR ''.''")
    case True
    then have ne: "p \<noteq> []"
      by (auto simp: NUL_def)
    from True assms obtain q: "srSLMGParseInt32 (tl p) (len - 1) = (v, p', len')"
      and prec: "prec = int (length (tl p)) - int (length p')"
      by (auto simp: parse_secfrac_def Let_def split: prod.splits)
    from srSLMGParseInt32D(3) [OF q] have "advances p len p' len'"
      using advances_tl [OF ne, of len] True by (auto intro: advances_trans)
    with srSLMGParseInt32D [OF q] prec show ?thesis
      by (auto simp: advances_def dest: suffix_length_le)
  next
    case False
    with assms show ?thesis
      by (auto simp: parse_secfrac_def INT_MAX_def)
  qed
  then show "0 \<le> v" "v \<le> INT_MAX" "0 \<le> prec" "advances p len p' len'"
    by auto
qed


lemma parse_final_spD:
  assumes "parse_final_sp p len = Some (p', len')"
  shows "advances p len p' len'"
  using assms advances_tl [of p len] deref_nonempty [of p "CHR '' ''"]
  by (auto simp: parse_final_sp_def NUL_def split: if_splits)

lemma parse_tz3339D:
  assumes "parse_tz3339 p len = Some (om, oh, omin, p', len')" 
  shows "om \<in> {CHR ''Z'', CHR ''+'', CHR ''-''}" "0 \<le> oh" "oh \<le> 23" "0 \<le> omin" "omin \<le> 59"
    "advances p len p' len'"
proof -
  have sep: "CHR '':'' \<noteq> NUL"
    by (simp add: NUL_def)
  from assms have "len \<noteq> 0" "p \<noteq> []"
    by (auto simp: parse_tz3339_def NUL_def split: if_splits)
  then have first: "advances p len (tl p) (len - 1)"
    by (intro advances_tl) auto
  have "om \<in> {CHR ''Z'', CHR ''+'', CHR ''-''} \<and> 0 \<le> oh \<and> oh \<le> 23 \<and> 0 \<le> omin \<and> omin \<le> 59
      \<and> advances p len p' len'"
  proof (cases "deref p = CHR ''Z''")
    case True
    with assms first \<open>len \<noteq> 0\<close> show ?thesis
      by (auto simp: parse_tz3339_def)
  next
    case False
    with assms \<open>len \<noteq> 0\<close> obtain p1 len1 p2 len2 where
      "deref p = CHR ''+'' \<or> deref p = CHR ''-''" "om = deref p"
      and 1: "number_in 0 23 (tl p) (len - 1) = Some (oh, p1, len1)"
      and 2: "expect (CHR '':'') p1 len1 = Some (p2, len2)"
      and 3: "number_in 0 59 p2 len2 = Some (omin, p', len')"
      by (auto simp: parse_tz3339_def Option.bind_eq_Some_conv split: if_splits)
    with number_inD [OF 1] expectD [OF 2 sep] number_inD [OF 3] first show ?thesis
      by (auto intro: advances_trans)
  qed
  then show "om \<in> {CHR ''Z'', CHR ''+'', CHR ''-''}" "0 \<le> oh" "oh \<le> 23" "0 \<le> omin" "omin \<le> 59"
    "advances p len p' len'"
    by auto
qed

definition time_fields_ok :: "syslogTime \<Rightarrow> bool" where
  "time_fields_ok t \<longleftrightarrow> month t \<in> {1..12} \<and> day t \<in> {1..31} \<and> hour t \<in> {0..23}
     \<and> minute t \<in> {0..59} \<and> second t \<in> {0..60} \<and> secfrac t \<in> {0..INT_MAX}
     \<and> secfracPrecision t \<in> {-128..127}"

lemma to_signed_range: "0 < w \<Longrightarrow> - (2 ^ (w - 1)) \<le> to_signed w i \<and> to_signed w i < 2 ^ (w - 1)"
proof -
  assume "0 < w"
  then have "(2::int) ^ w = 2 * 2 ^ (w - 1)"
    by (cases w) auto
  then show ?thesis
    using pos_mod_bound [of "2 ^ w" "i + 2 ^ (w - 1)"] by (simp add: to_signed_def)
qed

lemma sep_not_NUL: "CHR ''-'' \<noteq> NUL" "CHR ''T'' \<noteq> NUL" "CHR '':'' \<noteq> NUL" "CHR '' '' \<noteq> NUL"
  by (simp_all add: NUL_def)

lemma parse_min_secD:
  assumes "parse_min_sec p len = Some (mn, sc, p', len')"
  shows "0 \<le> mn" "mn \<le> 59" "0 \<le> sc" "sc \<le> 60" "advances p len p' len'"
proof -
  from assms obtain p1 len1 p2 len2 p3 len3 where
      1: "expect (CHR '':'') p len = Some (p1, len1)"
      and 2: "number_in 0 59 p1 len1 = Some (mn, p2, len2)"
      and 3: "expect (CHR '':'') p2 len2 = Some (p3, len3)"
      and 4: "number_in 0 60 p3 len3 = Some (sc, p', len')"
    by (auto simp: parse_min_sec_def Option.bind_eq_Some_conv)
  show "0 \<le> mn" "mn \<le> 59" "0 \<le> sc" "sc \<le> 60"
    using number_inD [OF 2] number_inD [OF 4] by auto
  note expectD [OF 1 sep_not_NUL(3)] also note number_inD(3) [OF 2]
  also note expectD [OF 3 sep_not_NUL(3)] also note number_inD(3) [OF 4]
  finally show "advances p len p' len'" .
qed

lemma parse_date3339D:
  assumes "parse_date3339 p len = Some (yr, mon, dy, p', len')"
  shows "0 \<le> yr" "yr < 2100" "1 \<le> mon" "mon \<le> 12" "1 \<le> dy" "dy \<le> 31" "advances p len p' len'"
proof -
  obtain y p1 len1 where 0: "srSLMGParseInt32 p len = (y, p1, len1)"
    by (metis prod_cases3)
  with assms have g: "len1 \<noteq> 0" "deref p1 = CHR ''-''" "0 \<le> y" "y < 2100"
    by (auto simp: parse_date3339_def split: if_splits)
  with assms 0 obtain p2 len2 p3 len3 p4 len4 where
      1: "number_in 1 12 (tl p1) (len1 - 1) = Some (mon, p2, len2)"
      and 2: "expect (CHR ''-'') p2 len2 = Some (p3, len3)"
      and 3: "number_in 1 31 p3 len3 = Some (dy, p4, len4)"
      and 4: "expect (CHR ''T'') p4 len4 = Some (p', len')"
      and "y = yr"
    by (auto simp: parse_date3339_def Option.bind_eq_Some_conv)
  with g number_inD [OF 1] number_inD [OF 3]
  show "0 \<le> yr" "yr < 2100" "1 \<le> mon" "mon \<le> 12" "1 \<le> dy" "dy \<le> 31"
    by auto
  have "advances p1 len1 (tl p1) (len1 - 1)"
    using g sep_not_NUL(1) deref_nonempty [of p1 "CHR ''-''"] by (intro advances_tl) auto
  with srSLMGParseInt32D(3) [OF 0] have "advances p len (tl p1) (len1 - 1)"
    by (rule advances_trans)
  also note number_inD(3) [OF 1] also note expectD [OF 2 sep_not_NUL(1)]
  also note number_inD(3) [OF 3] also note expectD [OF 4 sep_not_NUL(2)]
  finally show "advances p len p' len'" .
qed

lemma scan3339D:
  assumes "scan3339 t p len = Some (t', p', len')"
  shows "time_fields_ok t'" "year t' \<in> {0..2099}" "OffsetMode t' \<in> {CHR ''Z'', CHR ''+'', CHR ''-''}"
    "OffsetHour t' \<in> {0..23}" "OffsetMinute t' \<in> {0..59}" "advances p len p' len'"
    "timeType t' = 2" "wday t' = wday t" "inUTC t' = inUTC t"
proof -
  from assms obtain yr mon dy p1 len1 hr p2 len2 mn sc p3 len3
    where 1: "parse_date3339 p len = Some (yr, mon, dy, p1, len1)"
      and 2: "number_in 0 23 p1 len1 = Some (hr, p2, len2)"
      and 3: "parse_min_sec p2 len2 = Some (mn, sc, p3, len3)"
    by (auto simp: scan3339_def Option.bind_eq_Some_conv)
  obtain frac prec p4 len4 where 4: "parse_secfrac p3 len3 = (frac, prec, p4, len4)"
    by (metis prod_cases4)
  from assms obtain om oh omin p5 len5
    where 5: "parse_tz3339 p4 len4 = Some (om, oh, omin, p5, len5)"
      and 6: "parse_final_sp p5 len5 = Some (p', len')"
      and t': "t' = t\<lparr>timeType := 2, year := to_short yr, month := to_intTiny mon,
                day := to_intTiny dy, hour := to_intTiny hr, minute := to_intTiny mn,
                second := to_intTiny sc, secfrac := frac,
                secfracPrecision := to_intTiny prec, OffsetMode := om,
                OffsetHour := to_intTiny oh, OffsetMinute := to_intTiny omin\<rparr>"
    by (auto simp: scan3339_def 1 2 3 4 Option.bind_eq_Some_conv)
  note parse_date3339D(7) [OF 1] also note number_inD(3) [OF 2]
  also note parse_min_secD(5) [OF 3] also note parse_secfracD(4) [OF 4]
  also note parse_tz3339D(6) [OF 5] also note parse_final_spD [OF 6]
  finally show "advances p len p' len'" .
  show "time_fields_ok t'"
    using parse_date3339D [OF 1] number_inD [OF 2] parse_min_secD [OF 3]
      parse_secfracD [OF 4] to_signed_range [of 8 prec]
    by (simp add: time_fields_ok_def t' ranges)
  show "year t' \<in> {0..2099}" "OffsetMode t' \<in> {CHR ''Z'', CHR ''+'', CHR ''-''}"
    "OffsetHour t' \<in> {0..23}" "OffsetMinute t' \<in> {0..59}"
    "timeType t' = 2" "wday t' = wday t" "inUTC t' = inUTC t"
    using parse_date3339D [OF 1] parse_tz3339D [OF 5] by (simp_all add: t' ranges)
qed

lemma is_ci_not_NUL: "is_ci l u (deref p) \<Longrightarrow> l \<noteq> NUL \<Longrightarrow> u \<noteq> NUL \<Longrightarrow> p \<noteq> []"
  by (auto simp: is_ci_def)

lemma advances3:
  assumes "p \<noteq> []" "tl p \<noteq> []" "tl (tl p) \<noteq> []" "3 \<le> len"
  shows "advances p len (tl (tl (tl p))) (len - 3)"
  using advances_tl [OF assms(1), of len] advances_tl [OF assms(2), of "len - 1"]
    advances_tl [OF assms(3), of "len - 2"] assms(4)
  by (auto intro: advances_trans)

lemma parse_monthD:
  assumes "parse_month p = Some (mon, p')"
  shows "1 \<le> mon" "mon \<le> 12" "3 \<le> len \<Longrightarrow> advances p len p' (len - 3)"
proof -
  have "1 \<le> mon \<and> mon \<le> 12 \<and> p' = tl (tl (tl p)) \<and> p \<noteq> [] \<and> tl p \<noteq> [] \<and> tl (tl p) \<noteq> []"
    using assms unfolding parse_month_def Let_def
    by (auto simp: is_ci_def NUL_def split: if_splits)
  then show "1 \<le> mon" "mon \<le> 12" "3 \<le> len \<Longrightarrow> advances p len p' (len - 3)"
    using advances3 by auto
qed

lemma srSLMGParseInt32_nonpos [simp]: "len \<le> 0 \<Longrightarrow> srSLMGParseInt32 p len = (0, p, len)"
  by (cases p) (auto simp: srSLMGParseInt32_def)

lemma number_in_pos: "number_in lo hi p len = Some r \<Longrightarrow> 0 < lo \<Longrightarrow> 0 < len"
  by (rule ccontr) (auto simp: number_in_def)

lemma parse_dayD:
  assumes "parse_day p len = Some (dy, p', len')"
  shows "1 \<le> dy" "dy \<le> 31" "0 < len" "advances p len p' len'"
proof -
  obtain p1 len1 where 1: "expect (CHR '' '') p len = Some (p1, len1)"
    using assms by (auto simp: parse_day_def Option.bind_eq_Some_conv)
  obtain p2 len2 where 2: "(if deref p1 = CHR '' '' then (tl p1, len1 - 1) else (p1, len1)) = (p2, len2)"
    by (metis surj_pair)
  obtain p3 len3 where
      3: "number_in 1 31 p2 len2 = Some (dy, p3, len3)"
      and 4: "expect (CHR '' '') p3 len3 = Some (p', len')"
    using assms by (auto simp: parse_day_def 1 2 Option.bind_eq_Some_conv)
  have pos: "0 < len2"
    using number_in_pos [OF 3] by simp
  have "p1 \<noteq> []" if "deref p1 = CHR '' ''"
    using deref_nonempty [OF that sep_not_NUL(4)] .
  with 2 pos have "advances p1 len1 p2 len2"
    using advances_tl [of p1 len1] by (auto split: if_splits)
  with expectD [OF 1 sep_not_NUL(4)] have "advances p len p2 len2"
    by (rule advances_trans)
  also note number_inD(3) [OF 3]
  also note expectD [OF 4 sep_not_NUL(4)]
  finally show "advances p len p' len'" .
  show "1 \<le> dy" "dy \<le> 31"
    using number_inD [OF 3] by auto
  show "0 < len"
    using pos 1 2 by (auto simp: expect_def split: if_splits)
qed

lemma parse_timeD:
  assumes "parse_time yr p len = Some (yr', hr, mn, sc, p', len')"
  shows "0 \<le> hr" "hr \<le> 23" "0 \<le> mn" "mn \<le> 59" "0 \<le> sc" "sc \<le> 60"
    "yr' = yr \<or> yr = 0 \<and> 1970 < yr' \<and> yr' < 2100" "advances p len p' len'"
proof -
  obtain v p1 len1 where 1: "srSLMGParseInt32 p len = (v, p1, len1)"
    by (metis prod_cases3)
  obtain p2 len2 where 2: "parse_min_sec p2 len2 = Some (mn, sc, p', len')"
    and hr: "0 \<le> hr" "hr \<le> 23" "yr' = yr \<or> yr = 0 \<and> 1970 < yr' \<and> yr' < 2100"
    and 3: "yr' = yr \<and> hr = v \<and> p2 = p1 \<and> len2 = len1 \<or>
      (\<exists>p3 len3. expect (CHR '' '') p1 len1 = Some (p3, len3) \<and> srSLMGParseInt32 p3 len3 = (hr, p2, len2))"
    using assms 1
    by (auto simp: parse_time_def Option.bind_eq_Some_conv split: if_splits prod.splits)
  from 3 have "advances p1 len1 p2 len2"
    using expectD [OF _ sep_not_NUL(4)] srSLMGParseInt32D(3) advances_trans by fastforce
  with srSLMGParseInt32D(3) [OF 1] have "advances p len p2 len2"
    by (rule advances_trans)
  also note parse_min_secD(5) [OF 2]
  finally show "advances p len p' len'" .
  show "0 \<le> hr" "hr \<le> 23" "yr' = yr \<or> yr = 0 \<and> 1970 < yr' \<and> yr' < 2100"
    by fact+
  show "0 \<le> mn" "mn \<le> 59" "0 \<le> sc" "sc \<le> 60"
    using parse_min_secD [OF 2] by auto
qed

lemma tzstring_loopD:
  "tzstring_loop room p len = (tz, p', len') \<Longrightarrow> len \<le> int (length p)
    \<Longrightarrow> advances p len p' len' \<and> length tz \<le> room"
proof (induction room p len arbitrary: tz rule: tzstring_loop.induct)
  case (2 room p len)
  show ?case
  proof (cases "0 < len \<and> deref p \<noteq> CHR '':'' \<and> deref p \<noteq> CHR '' ''")
    case True
    with 2(3) have ne: "p \<noteq> []"
      by auto
    from True 2(2) obtain tz1 where "tzstring_loop room (tl p) (len - 1) = (tz1, p', len')" "tz = deref p # tz1"
      by (auto split: prod.splits)
    with 2(1) [OF True] 2(3) True show ?thesis
      using advances_tl [OF ne, of len] by (auto intro: advances_trans)
  qed (use 2 in auto)
qed simp

lemma advances_bound: "advances p len p' len' \<Longrightarrow> len \<le> int (length p) + k \<Longrightarrow> len' \<le> int (length p') + k"
  by (auto simp: advances_def)

lemma parse_tzstringD:
  assumes "parse_tzstring tzs b p len = (tz, p', len')" "len \<le> int (length p) \<or> \<not> b"
  shows "advances p len p' len'" "tz = Some z \<Longrightarrow> \<exists>key. glblFindTimezone tzs key = Some z"
proof -
  have "p \<noteq> []" if "b" "2 < len"
    using assms that by auto
  then have "advances p len p' len'" if b: "b" "2 < len" "deref p = CHR '' ''"
    using assms b advances_tl [of p len] tzstring_loopD [of 15 "tl p" "len - 1" _ p' len']
    by (auto simp: parse_tzstring_def split: prod.splits intro: advances_trans)
  then show "advances p len p' len'"
    using assms by (cases "b \<and> 2 < len \<and> deref p = CHR '' ''") (auto simp: parse_tzstring_def)
  show "tz = Some z \<Longrightarrow> \<exists>key. glblFindTimezone tzs key = Some z"
    using assms(1) by (auto simp: parse_tzstring_def split: if_splits prod.splits)
qed

lemma year_digits_4:
  assumes "1000 \<le> year_digits 4 0 p"
  shows "4 \<le> length p"
proof (rule ccontr)
  assume "\<not> 4 \<le> length p"
  then have "year_digits 4 0 p < 1000"
    by (cases p rule: list.exhaust; cases "tl p" rule: list.exhaust; cases "tl (tl p)" rule: list.exhaust;
        cases "tl (tl (tl p))" rule: list.exhaust)
      (auto simp: numeral_eq_Suc is_digit_def byte_val_NUL)
  with assms show False
    by simp
qed

lemma parse_year_afterD:
  assumes "parse_year_after b yr p len = (yr', p', len')"
  shows "yr' = yr \<or> yr = 0 \<and> 2000 \<le> yr' \<and> yr' < 2100" "advances p len p' len'"
proof -
  show "yr' = yr \<or> yr = 0 \<and> 2000 \<le> yr' \<and> yr' < 2100"
    using assms by (auto simp: parse_year_after_def Let_def split: if_splits)
  show "advances p len p' len'"
  proof (cases "(yr', p', len') = (yr, p, len)")
    case False
    with assms have "2000 \<le> year_digits 4 0 (tl p)" "p' = drop 5 p" "len' = len - 5" "5 < len"
      "deref p = CHR '' ''"
      by (auto simp: parse_year_after_def Let_def split: if_splits)
    moreover from this have "5 \<le> length p"
      using year_digits_4 [of "tl p"] by (cases p) auto
    ultimately show ?thesis
      by (auto simp: advances_def suffix_drop)
  qed simp
qed

lemma skip_colonD:
  assumes "skip_colon p len = (p', len')"
  shows "advances p len p' len'"
  using assms advances_tl [of p len] deref_nonempty [OF _ sep_not_NUL(3), of p]
  by (auto simp: skip_colon_def split: if_splits)

lemma parse_front_yearD:
  assumes "parse_front_year p len = Some (yr, p', len')"
  shows "yr = 0 \<or> 1970 \<le> yr \<and> yr \<le> 2100"
    "advances p (len + (if is_digit (deref p) then 1 else 0)) p' len'"
proof -
  show "yr = 0 \<or> 1970 \<le> yr \<and> yr \<le> 2100"
    using assms by (auto simp: parse_front_year_def split: if_splits prod.splits)
  show "advances p (len + (if is_digit (deref p) then 1 else 0)) p' len'"
  proof (cases "is_digit (deref p)")
    case True
    with assms obtain q where 1: "srSLMGParseInt32 p len = (yr, q, len')" "deref q = CHR '' ''" "p' = tl q"
      "yr \<noteq> 0"
      by (auto simp: parse_front_year_def split: if_splits prod.splits)
    then have "q \<noteq> []" "0 \<le> len"
      using deref_nonempty [OF _ sep_not_NUL(4), of q] by (auto intro: ccontr)
    with srSLMGParseInt32D(3) [OF 1(1)] 1 True show ?thesis
      by (cases q) (auto simp: advances_def dest: suffix_ConsD)
  qed (use assms in \<open>auto simp: parse_front_year_def\<close>)
qed


lemma scan3164D:
  assumes "scan3164 tzs bTZ bYr t p len = Some (t', p', len')"
    and "\<not> bTZ \<or> \<not> is_digit (deref p) \<and> len \<le> int (length p)"
  shows "time_fields_ok t'" "advances p (len + (if is_digit (deref p) then 1 else 0)) p' len'"
    "timeType t' = 1" "year t' = year t \<or> year t' \<in> {1970..2100}"
    "(OffsetMode t', OffsetHour t', OffsetMinute t') = (OffsetMode t, OffsetHour t, OffsetMinute t)
     \<or> (\<exists>key z. glblFindTimezone tzs key = Some z \<and> offsMode z \<noteq> NUL
          \<and> (OffsetMode t', OffsetHour t', OffsetMinute t') = (offsMode z, offsHour z, offsMin z))"
proof -
  let ?n = "len + (if is_digit (deref p) then 1 else 0)"
  from assms obtain yr0 p1 len1 mon p2 dy p3 len3 yr1 hr mn sc p4 len4
    where 1: "parse_front_year p len = Some (yr0, p1, len1)"
      and 2: "parse_month p1 = Some (mon, p2)"
      and 3: "parse_day p2 (len1 - 3) = Some (dy, p3, len3)"
      and 4: "parse_time yr0 p3 len3 = Some (yr1, hr, mn, sc, p4, len4)" and len: "\<not> len < 3"
    by (auto simp: scan3164_def Option.bind_eq_Some_conv split: if_splits)
  obtain frac prec p5 len5 where 5: "parse_secfrac p4 len4 = (frac, prec, p5, len5)"
    by (metis prod_cases4)
  obtain tz p6 len6 where 6: "parse_tzstring tzs bTZ p5 len5 = (tz, p6, len6)"
    by (metis prod_cases3)
  obtain yr p7 len7 where 7: "parse_year_after bYr yr1 p6 len6 = (yr, p7, len7)"
    by (metis prod_cases3)
  obtain p8 len8 where 8: "skip_colon p7 len7 = (p8, len8)"
    by (metis surj_pair)
  from assms len have 9: "parse_final_sp p8 len8 = Some (p', len')"
    and t': "t' = store3164 t mon yr dy hr mn sc frac prec tz"
    by (auto simp: scan3164_def 1 2 3 4 5 6 7 8 Option.bind_eq_Some_conv)
  have three: "3 \<le> len1"
    using parse_dayD(3) [OF 3] by simp
  note parse_front_yearD(2) [OF 1] also note parse_monthD(3) [OF 2 three]
  also note parse_dayD(4) [OF 3] also note parse_timeD(8) [OF 4] also note parse_secfracD(4) [OF 5]
  finally have to5: "advances p ?n p5 len5" .
  then have b5: "len5 \<le> int (length p5) \<or> \<not> bTZ"
    using assms(2) by (auto simp: advances_def)
  note to5 also note parse_tzstringD(1) [OF 6 b5] also note parse_year_afterD(2) [OF 7]
  also note skip_colonD [OF 8] also note parse_final_spD [OF 9]
  finally show "advances p ?n p' len'" .
  show "time_fields_ok t'" "timeType t' = 1"
    using parse_monthD [OF 2] parse_dayD [OF 3] parse_timeD [OF 4]
      parse_secfracD [OF 5] to_signed_range [of 8 prec]
    by (simp_all add: time_fields_ok_def t' store3164_def ranges Let_def split: option.split)
  show "year t' = year t \<or> year t' \<in> {1970..2100}"
    using parse_front_yearD(1) [OF 1] parse_timeD(7) [OF 4] parse_year_afterD(1) [OF 7]
    by (auto simp: t' store3164_def ranges Let_def split: option.split)
  show "(OffsetMode t', OffsetHour t', OffsetMinute t') = (OffsetMode t, OffsetHour t, OffsetMinute t)
     \<or> (\<exists>key z. glblFindTimezone tzs key = Some z \<and> offsMode z \<noteq> NUL
          \<and> (OffsetMode t', OffsetHour t', OffsetMinute t') = (offsMode z, offsHour z, offsMin z))"
    using parse_tzstringD(2) [OF 6 b5] by (auto simp: t' store3164_def Let_def split: option.split)
qed

section \<open>Properties\<close>

definition time0 :: syslogTime where
  "time0 = \<lparr>timeType = 0, month = 0, day = 0, wday = 0, hour = 0, minute = 0, second = 0,
     secfracPrecision = 0, OffsetMinute = 0, OffsetHour = 0, OffsetMode = CHR ''+'', year = 0,
     secfrac = 0, inUTC = False\<rparr>"

text \<open>(C24) \<open>ParseTIMESTAMP3339\<close> either refuses and leaves the caller's structure, pointer
  and length as they were, or succeeds and has then stored a month, day, hour, minute, second, year
  and zone offset that are in range, and moved the pointer forward inside the buffer by exactly as
  many bytes as it took off the remaining length.\<close>

theorem ParseTIMESTAMP3339_contract:
  "case ParseTIMESTAMP3339 t p len of (r, t', p', len') \<Rightarrow>
     r = RS_RET_INVLD_TIME \<and> t' = t \<and> p' = p \<and> len' = len
   \<or> r = RS_RET_OK \<and> advances p len p' len' \<and> timeType t' = 2 \<and> time_fields_ok t'
     \<and> year t' \<in> {0..2099} \<and> OffsetMode t' \<in> {CHR ''Z'', CHR ''+'', CHR ''-''}
     \<and> OffsetHour t' \<in> {0..23} \<and> OffsetMinute t' \<in> {0..59}"
proof (cases "scan3339 t p len")
  case (Some r)
  then obtain t' p' len' where "scan3339 t p len = Some (t', p', len')"
    by (cases r) auto
  with scan3339D [OF this] show ?thesis
    by (simp add: ParseTIMESTAMP3339_def)
qed (simp add: ParseTIMESTAMP3339_def)


lemma front_year_run:
  "ParseTIMESTAMP3164 [] False False time0 ''2014 Jan  1 10:00:00 x'' 22 =
     (RS_RET_OK, time0\<lparr>timeType := 1, month := 1, day := 1, hour := 10, year := 2014\<rparr>, ''x'', 2)"
  by code_simp


end
