(* ===== verification/Rs_Msg.thy ===== *)
theory Rs_Msg
  imports Datetime "HOL-Library.Word"
begin

text \<open>
  The message object (\<open>runtime/msg.c\<close>): its fields as far as parsing and queueing use them, the
  access methods, and the emulation of fields that one of the two syslog formats does not have (TAG
  from APP-NAME and PROCID for RFC 5424, the other way round for legacy messages).

  Allocation succeeds. A text field is the string stored in it, so the cached lengths
  \<open>iLenRawMsg\<close>, \<open>iLenTAG\<close>, \<open>iLenHOSTNAME\<close> and \<open>iLenPROGNAME\<close> are the lengths of the
  strings; \<open>iLenMSG\<close> is kept, since it is computed apart. A pointer that may be NULL is an option.
\<close>

unbundle bit_operations_syntax

section \<open>Data\<close>

datatype flowControl_t = eFLOWCTL_NO_DELAY | eFLOWCTL_LIGHT_DELAY | eFLOWCTL_FULL_DELAY

type_synonym syslog_pri_t = "16 word"

record smsg =
  flowCtlType :: flowControl_t
  bParseSuccess :: bool
  iRefCount :: int
  iSeverity :: "16 word"
  iFacility :: "16 word"
  offAfterPRI :: int
  offMSG :: int
  iProtocolVersion :: int
  msgFlags :: "32 word"
  pszRawMsg :: "string option"
  iLenMSG :: int
  TAG :: string
  pszHOSTNAME :: "string option"
  PROGNAME :: "string option"
  pszStrucData :: "string option"
  pCSAPPNAME :: "string option"
  pCSPROCID :: "string option"
  pCSMSGID :: "string option"
  pRcvFrom :: "string option"
  dfltTZ :: string
  tRcvdAt :: syslogTime
  tTIMESTAMP :: syslogTime

definition LOG_MAXPRI :: "16 word" where "LOG_MAXPRI = 191"
definition LOG_DEBUG :: "16 word" where "LOG_DEBUG = 7"
definition LOG_FAC_INVLD :: "16 word" where "LOG_FAC_INVLD = 24"
definition LOG_INVLD :: "16 word" where "LOG_INVLD = push_bit 3 LOG_FAC_INVLD"
definition LOG_PRI_INVLD :: "16 word" where "LOG_PRI_INVLD = LOG_INVLD OR LOG_DEBUG"

definition CONF_TAG_MAXSIZE :: nat where "CONF_TAG_MAXSIZE = 512"

definition INTERNAL_MSG :: "32 word" where "INTERNAL_MSG = 0x001"
definition IGNDATE :: "32 word" where "IGNDATE = 0x004"
definition NEEDS_PARSING :: "32 word" where "NEEDS_PARSING = 0x010"
definition PARSE_HOSTNAME :: "32 word" where "PARSE_HOSTNAME = 0x020"
definition NEEDS_DNSRESOL :: "32 word" where "NEEDS_DNSRESOL = 0x040"
definition NO_PRI_IN_RAW :: "32 word" where "NO_PRI_IN_RAW = 0x100"

definition has_flag :: "smsg \<Rightarrow> 32 word \<Rightarrow> bool" where
  "has_flag m f \<longleftrightarrow> msgFlags m AND f \<noteq> 0"

text \<open>A structure cleared by \<open>memset\<close>.\<close>

definition zero_time :: syslogTime where
  "zero_time = \<lparr>timeType = 0, month = 0, day = 0, wday = 0, hour = 0, minute = 0, second = 0,
     secfracPrecision = 0, OffsetMinute = 0, OffsetHour = 0, OffsetMode = NUL, year = 0,
     secfrac = 0, inUTC = False\<rparr>"

definition msgBaseConstruct :: smsg where
  "msgBaseConstruct = \<lparr>flowCtlType = eFLOWCTL_NO_DELAY, bParseSuccess = False, iRefCount = 1,
     iSeverity = LOG_DEBUG, iFacility = LOG_INVLD, offAfterPRI = 0, offMSG = -1,
     iProtocolVersion = 0, msgFlags = 0, pszRawMsg = None, iLenMSG = 0, TAG = [],
     pszHOSTNAME = None, PROGNAME = None, pszStrucData = None, pCSAPPNAME = None,
     pCSPROCID = None, pCSMSGID = None, pRcvFrom = None, dfltTZ = [], tRcvdAt = zero_time,
     tTIMESTAMP = zero_time\<rparr>"

section \<open>Raw message and MSG part\<close>

definition raw :: "smsg \<Rightarrow> string" where
  "raw m = (case pszRawMsg m of None \<Rightarrow> [] | Some s \<Rightarrow> s)"

definition iLenRawMsg :: "smsg \<Rightarrow> int" where
  "iLenRawMsg m = int (length (raw m))"

definition getRawMsg :: "smsg \<Rightarrow> string \<times> int" where
  "getRawMsg m = (raw m, iLenRawMsg m)"

definition getRawMsgAfterPRI :: "smsg \<Rightarrow> string \<times> int" where
  "getRawMsgAfterPRI m =
     (case pszRawMsg m of
        None \<Rightarrow> ([], 0)
      | Some s \<Rightarrow>
          let off = (if byte_at s 0 = CHR ''<'' then
                       if byte_at s 2 = CHR ''>'' then 3
                       else if byte_at s 3 = CHR ''>'' then 4
                       else if byte_at s 4 = CHR ''>'' then 5 else 0
                     else 0)
          in (drop off s, int (length s) - int off))"

definition setMSGLen :: "smsg \<Rightarrow> int \<Rightarrow> smsg" where
  "setMSGLen m n = m\<lparr>iLenMSG := n\<rparr>"

definition getMSG :: "smsg \<Rightarrow> string" where
  "getMSG m = (if iLenMSG m = 0 then [] else drop (nat (offMSG m)) (raw m))"

definition MsgSetMSGoffs :: "smsg \<Rightarrow> int \<Rightarrow> smsg" where
  "MsgSetMSGoffs m offs =
     (if offs > iLenRawMsg m then m\<lparr>offMSG := offs, iLenMSG := 0\<rparr>
      else m\<lparr>offMSG := offs, iLenMSG := iLenRawMsg m - offs\<rparr>)"

text \<open>\<open>MsgReplaceMSG\<close>: the new MSG is copied over the buffer (the raw message and its
  terminator) at \<open>offMSG\<close>, and the raw message ends after \<open>lenNew\<close> bytes.\<close>

definition MsgReplaceMSG :: "smsg \<Rightarrow> string \<Rightarrow> smsg" where
  "MsgReplaceMSG m msg =
     (let lenNew = iLenRawMsg m + int (length msg) - iLenMSG m;
          buf = raw m @ [NUL];
          off = nat (offMSG m)
      in m\<lparr>pszRawMsg := Some (take (nat lenNew) (take off buf @ msg @ drop (off + length msg) buf)),
           iLenMSG := int (length msg)\<rparr>)"

definition MsgTruncateToMaxSize :: "int \<Rightarrow> smsg \<Rightarrow> smsg" where
  "MsgTruncateToMaxSize maxMsgSize m =
     (let deltaSize = iLenRawMsg m - maxMsgSize
      in m\<lparr>pszRawMsg := Some (take (nat maxMsgSize) (raw m)),
           iLenMSG := (if iLenMSG m < deltaSize then 0 else iLenMSG m - deltaSize)\<rparr>)"

definition MsgSetRawMsg :: "smsg \<Rightarrow> string \<Rightarrow> smsg" where
  "MsgSetRawMsg m s =
     (let deltaSize = int (length s) - iLenRawMsg m
      in m\<lparr>pszRawMsg := Some s,
           iLenMSG := (if int (length s) > offMSG m then iLenMSG m + deltaSize else 0)\<rparr>)"

section \<open>Priority\<close>

definition pri2fac :: "16 word \<Rightarrow> 16 word" where
  "pri2fac pri = (let fac = drop_bit 3 pri in if fac > 23 then LOG_FAC_INVLD else fac)"

definition pri2sev :: "16 word \<Rightarrow> 16 word" where
  "pri2sev pri = pri AND 7"

definition msgSetPRI :: "smsg \<Rightarrow> syslog_pri_t \<Rightarrow> smsg" where
  "msgSetPRI m pri =
     (let pri' = (if pri > LOG_MAXPRI then LOG_PRI_INVLD else pri)
      in m\<lparr>iFacility := pri2fac pri', iSeverity := pri2sev pri'\<rparr>)"

definition getPRIi :: "smsg \<Rightarrow> syslog_pri_t" where
  "getPRIi m =
     (let pri = push_bit 3 (iFacility m) + iSeverity m
      in if pri > 191 then LOG_PRI_INVLD else pri)"

definition MsgGetSeverity :: "smsg \<Rightarrow> rsRetVal \<times> int" where
  "MsgGetSeverity m = (RS_RET_OK, uint (iSeverity m))"

section \<open>Setters\<close>

definition setProtocolVersion :: "smsg \<Rightarrow> int \<Rightarrow> smsg" where
  "setProtocolVersion m v = m\<lparr>iProtocolVersion := (if v \<noteq> 0 \<and> v \<noteq> 1 then 0 else v)\<rparr>"

definition MsgSetFlowControlType :: "smsg \<Rightarrow> flowControl_t \<Rightarrow> smsg" where
  "MsgSetFlowControlType m f = m\<lparr>flowCtlType := f\<rparr>"

definition MsgSetAfterPRIOffs :: "smsg \<Rightarrow> int \<Rightarrow> smsg" where
  "MsgSetAfterPRIOffs m offs = m\<lparr>offAfterPRI := offs\<rparr>"

definition MsgSetAPPNAME :: "smsg \<Rightarrow> string \<Rightarrow> smsg" where
  "MsgSetAPPNAME m s = m\<lparr>pCSAPPNAME := Some (if c_str s = [] then ''-'' else c_str s)\<rparr>"

definition MsgSetPROCID :: "smsg \<Rightarrow> string \<Rightarrow> smsg" where
  "MsgSetPROCID m s = m\<lparr>pCSPROCID := Some (c_str s)\<rparr>"

definition MsgSetMSGID :: "smsg \<Rightarrow> string \<Rightarrow> smsg" where
  "MsgSetMSGID m s = m\<lparr>pCSMSGID := Some (c_str s)\<rparr>"

definition MsgSetParseSuccess :: "smsg \<Rightarrow> bool \<Rightarrow> smsg" where
  "MsgSetParseSuccess m b = m\<lparr>bParseSuccess := b\<rparr>"

definition MsgSetTAG :: "smsg \<Rightarrow> string \<Rightarrow> smsg" where
  "MsgSetTAG m s = m\<lparr>TAG := s\<rparr>"

definition MsgSetHOSTNAME :: "smsg \<Rightarrow> string \<Rightarrow> smsg" where
  "MsgSetHOSTNAME m s = m\<lparr>pszHOSTNAME := Some s\<rparr>"

definition MsgSetStructuredData :: "smsg \<Rightarrow> string \<Rightarrow> smsg" where
  "MsgSetStructuredData m s = m\<lparr>pszStrucData := Some (c_str s)\<rparr>"

definition MsgSetDfltTZ :: "smsg \<Rightarrow> string \<Rightarrow> smsg" where
  "MsgSetDfltTZ m tz = m\<lparr>dfltTZ := take 7 (c_str tz)\<rparr>"

definition MsgGetStructuredData :: "smsg \<Rightarrow> string" where
  "MsgGetStructuredData m = (case pszStrucData m of None \<Rightarrow> ''-'' | Some s \<Rightarrow> s)"

definition getMSGID :: "smsg \<Rightarrow> string" where
  "getMSGID m = (case pCSMSGID m of None \<Rightarrow> ''-'' | Some s \<Rightarrow> s)"

section \<open>Emulation of fields\<close>

definition acquirePROCIDFromTAG :: "smsg \<Rightarrow> smsg" where
  "acquirePROCIDFromTAG m =
     (if pCSPROCID m \<noteq> None then m
      else if iProtocolVersion m \<noteq> 0 then m
      else
        let at = dropWhile (\<lambda>c. c \<noteq> CHR ''['') (TAG m)
        in if at = [] then m
           else
             let procid = takeWhile (\<lambda>c. c \<noteq> CHR '']'') (tl at)
             in if procid = tl at then m
                else m\<lparr>pCSPROCID := Some procid\<rparr>)"

definition is_print :: "char \<Rightarrow> bool" where
  "is_print c \<longleftrightarrow> 32 \<le> byte_val c \<and> byte_val c \<le> 126"

definition acquireProgramName :: "bool \<Rightarrow> smsg \<Rightarrow> smsg" where
  "acquireProgramName bPermitSlash m =
     m\<lparr>PROGNAME := Some (takeWhile (\<lambda>c. is_print c \<and> c \<noteq> NUL \<and> c \<noteq> CHR '':'' \<and> c \<noteq> CHR ''[''
          \<and> (bPermitSlash \<or> c \<noteq> CHR ''/'')) (TAG m))\<rparr>"

text \<open>\<open>getPROCID\<close> with the acquisition it may do: the message and the string returned.\<close>

definition getPROCID :: "smsg \<Rightarrow> smsg \<times> string" where
  "getPROCID m =
     (let m1 = (if pCSPROCID m = None then acquirePROCIDFromTAG m else m)
      in (m1, case pCSPROCID m1 of None \<Rightarrow> ''-'' | Some s \<Rightarrow> s))"

text \<open>\<open>tryEmulateTAG\<close>. It only emulates for protocol version 1, where \<open>getAPPNAME\<close> returns
  the stored name or the empty string and \<open>getPROCID\<close> acquires nothing. \<open>snprintf\<close> returns the
  length the whole text would have; when that is more than the buffer holds, \<open>MsgSetTAG\<close> reads
  behind the buffer, which is the result \<^const>\<open>None\<close> here.\<close>

definition tryEmulateTAG :: "smsg \<Rightarrow> smsg option" where
  "tryEmulateTAG m =
     (if TAG m \<noteq> [] then Some m
      else if iProtocolVersion m = 1 then
        let app = (case pCSAPPNAME m of None \<Rightarrow> [] | Some s \<Rightarrow> s);
            procid = (case pCSPROCID m of None \<Rightarrow> ''-'' | Some s \<Rightarrow> s)
        in if procid = ''-'' then Some ((MsgSetTAG m app)\<lparr>PROGNAME := None\<rparr>)
           else
             let text = app @ ''['' @ procid @ '']'';
                 bufTAG = take (CONF_TAG_MAXSIZE - 1) text @ [NUL]
             in if length text > CONF_TAG_MAXSIZE then None
                else Some ((MsgSetTAG m (take (length text) bufTAG))\<lparr>PROGNAME := None\<rparr>)
      else Some m)"

definition getTAG :: "smsg \<Rightarrow> (smsg \<times> string) option" where
  "getTAG m =
     (case (if TAG m = [] then tryEmulateTAG m else Some m) of
        None \<Rightarrow> None
      | Some m1 \<Rightarrow> Some (m1, TAG m1))"

definition getProgramName :: "bool \<Rightarrow> smsg \<Rightarrow> (smsg \<times> string) option" where
  "getProgramName bPermitSlash m =
     (case PROGNAME m of
        Some p \<Rightarrow> Some (m, p)
      | None \<Rightarrow>
          (case (if TAG m = [] then getTAG m else Some (m, TAG m)) of
             None \<Rightarrow> None
           | Some (m1, t) \<Rightarrow>
               let m2 = acquireProgramName bPermitSlash m1
               in Some (m2, the (PROGNAME m2))))"

definition prepareAPPNAME :: "bool \<Rightarrow> smsg \<Rightarrow> smsg option" where
  "prepareAPPNAME bPermitSlash m =
     (if pCSAPPNAME m = None \<and> iProtocolVersion m = 0 then
        case getProgramName bPermitSlash m of
          None \<Rightarrow> None
        | Some (m1, p) \<Rightarrow> Some (MsgSetAPPNAME m1 p)
      else Some m)"

definition getAPPNAME :: "bool \<Rightarrow> smsg \<Rightarrow> (smsg \<times> string) option" where
  "getAPPNAME bPermitSlash m =
     (case prepareAPPNAME bPermitSlash m of
        None \<Rightarrow> None
      | Some m1 \<Rightarrow> Some (m1, case pCSAPPNAME m1 of None \<Rightarrow> [] | Some s \<Rightarrow> s))"

section \<open>Priority\<close>

lemma LOG_PRI_INVLD_eq: "LOG_PRI_INVLD = 199"
  by code_simp

lemma word_split_3: "push_bit 3 (drop_bit 3 w) + (w AND 7) = w" for w :: "16 word"
proof -
  have "w AND 7 = take_bit 3 w"
    by (simp add: take_bit_eq_mask mask_eq_exp_minus_1)
  then show ?thesis
    by (simp add: bits_ident)
qed

lemma drop_bit_3_le: "w \<le> 191 \<Longrightarrow> drop_bit 3 w \<le> 23" for w :: "16 word"
  by (simp add: word_le_def drop_bit_eq_div uint_div_distrib)

lemma pri_parts:
  assumes "w \<le> (191 :: 16 word)"
  shows "pri2fac w = drop_bit 3 w" "pri2fac w \<le> 23"
  using drop_bit_3_le [OF assms] by (auto simp: pri2fac_def Let_def not_less)

lemma pri2sev_le: "pri2sev w \<le> 7"
  unfolding pri2sev_def by (rule word_and_le1)

section \<open>The MSG part\<close>

text \<open>The MSG part is the end of the raw message.\<close>

definition msg_part_ok :: "smsg \<Rightarrow> bool" where
  "msg_part_ok m \<longleftrightarrow> 0 \<le> offMSG m \<and> offMSG m \<le> iLenRawMsg m \<and> iLenMSG m = iLenRawMsg m - offMSG m"

lemma raw_update [simp]:
  "raw (m\<lparr>pszRawMsg := Some s\<rparr>) = s" "raw (m\<lparr>pszRawMsg := Some s, iLenMSG := n\<rparr>) = s"
  by (simp_all add: raw_def)

lemma MsgReplaceMSG_raw:
  assumes "msg_part_ok m"
  shows "raw (MsgReplaceMSG m msg) = take (nat (offMSG m)) (raw m) @ msg"
proof -
  have n: "nat (offMSG m) \<le> length (raw m)"
    "nat (iLenRawMsg m + int (length msg) - iLenMSG m) = nat (offMSG m) + length msg"
    using assms by (auto simp: msg_part_ok_def iLenRawMsg_def)
  have "raw (MsgReplaceMSG m msg) =
    take (nat (offMSG m) + length msg) (take (nat (offMSG m)) (raw m @ [NUL]) @ msg @ drop (nat (offMSG m) + length msg) (raw m @ [NUL]))"
    unfolding MsgReplaceMSG_def Let_def n(2) by (simp add: raw_def)
  then show ?thesis
    using n(1) by simp
qed

lemma MsgReplaceMSG_ok:
  assumes "msg_part_ok m"
  shows "msg_part_ok (MsgReplaceMSG m msg)" "getMSG (MsgReplaceMSG m msg) = msg"
proof -
  have n: "nat (offMSG m) \<le> length (raw m)" "0 \<le> offMSG m"
    using assms by (auto simp: msg_part_ok_def iLenRawMsg_def)
  have f: "offMSG (MsgReplaceMSG m msg) = offMSG m" "iLenMSG (MsgReplaceMSG m msg) = int (length msg)"
    by (simp_all add: MsgReplaceMSG_def Let_def)
  show "msg_part_ok (MsgReplaceMSG m msg)" "getMSG (MsgReplaceMSG m msg) = msg"
    using n by (auto simp: msg_part_ok_def getMSG_def iLenRawMsg_def f MsgReplaceMSG_raw [OF assms])
qed

lemma MsgSetRawMsg_ok:
  assumes "msg_part_ok m" "offMSG m \<le> int (length s)"
  shows "msg_part_ok (MsgSetRawMsg m s)"
  using assms by (auto simp: msg_part_ok_def MsgSetRawMsg_def Let_def iLenRawMsg_def)

lemma MsgTruncateToMaxSize_ok:
  assumes "msg_part_ok m" "offMSG m \<le> maxsz" "maxsz \<le> iLenRawMsg m"
  shows "msg_part_ok (MsgTruncateToMaxSize maxsz m)"
  using assms by (auto simp: msg_part_ok_def MsgTruncateToMaxSize_def Let_def iLenRawMsg_def)

lemma MsgSetMSGoffs_ok: "0 \<le> offs \<Longrightarrow> offs \<le> iLenRawMsg m \<Longrightarrow> msg_part_ok (MsgSetMSGoffs m offs)"
  by (auto simp: MsgSetMSGoffs_def msg_part_ok_def iLenRawMsg_def raw_def)

section \<open>Emulated fields\<close>

text \<open>A name that a TAG can carry.\<close>

definition tag_name :: "string \<Rightarrow> bool" where
  "tag_name s \<longleftrightarrow> s \<noteq> [] \<and> list_all (\<lambda>c. is_print c \<and> c \<notin> {CHR '':'', CHR ''['', CHR ''/''}) s"

lemma tag_name_no: "tag_name s \<Longrightarrow> c \<in> set s \<Longrightarrow> c \<noteq> CHR ''[''"
  by (auto simp: tag_name_def list_all_iff)

lemma print_not_NUL: "is_print c \<Longrightarrow> c \<noteq> NUL"
  by (auto simp: is_print_def byte_val_NUL)

lemma takeWhile_tag_name:
  assumes "tag_name s"
  shows "takeWhile (\<lambda>c. is_print c \<and> c \<noteq> NUL \<and> c \<noteq> CHR '':'' \<and> c \<noteq> CHR ''[''
    \<and> (b \<or> c \<noteq> CHR ''/'')) (s @ CHR ''['' # t) = s"
proof -
  have "\<forall>c \<in> set s. is_print c \<and> c \<noteq> NUL \<and> c \<noteq> CHR '':'' \<and> c \<noteq> CHR ''['' \<and> (b \<or> c \<noteq> CHR ''/'')"
    using assms print_not_NUL by (auto simp: tag_name_def list_all_iff)
  then show ?thesis
    by (simp add: takeWhile_append2)
qed

lemma dropWhile_tag_name:
  "tag_name s \<Longrightarrow> dropWhile (\<lambda>c. c \<noteq> CHR ''['') (s @ CHR ''['' # t) = CHR ''['' # t"
  using tag_name_no by (simp add: dropWhile_append3)

lemma c_str_tag_name: "tag_name s \<Longrightarrow> c_str s = s"
  using print_not_NUL by (auto simp: c_str_def tag_name_def list_all_iff takeWhile_eq_all_conv)

lemma tag_legacy:
  assumes "TAG m = app @ ''['' @ procid @ '']'' @ rest" "tag_name app" "CHR '']'' \<notin> set procid"
    and "iProtocolVersion m = 0" "pCSPROCID m = None" "pCSAPPNAME m = None" "PROGNAME m = None"
  shows "snd (getPROCID m) = procid" "\<exists>m'. getAPPNAME b m = Some (m', app)"
    "\<exists>m'. getProgramName b m = Some (m', app)"
proof -
  have tw: "takeWhile (\<lambda>c. c \<noteq> CHR '']'') (procid @ CHR '']'' # rest) = procid"
    using assms(3) by (subst takeWhile_append2) auto
  show "snd (getPROCID m) = procid"
    using assms dropWhile_tag_name [OF assms(2), of "procid @ CHR '']'' # rest"] tw
    by (simp add: getPROCID_def acquirePROCIDFromTAG_def Let_def)
  have "TAG m \<noteq> []" "app \<noteq> []"
    using assms(1,2) by (auto simp: tag_name_def)
  then have pn: "getProgramName b m = Some (m\<lparr>PROGNAME := Some app\<rparr>, app)"
    using assms takeWhile_tag_name [OF assms(2), of b "procid @ CHR '']'' # rest"]
    by (simp add: getProgramName_def acquireProgramName_def Let_def)
  then show "\<exists>m'. getProgramName b m = Some (m', app)"
    by simp
  show "\<exists>m'. getAPPNAME b m = Some (m', app)"
    using pn assms \<open>app \<noteq> []\<close>
    by (simp add: getAPPNAME_def prepareAPPNAME_def MsgSetAPPNAME_def c_str_tag_name)
qed


section \<open>Properties\<close>

lemma getPRIi_msgSetPRI:
  "getPRIi (msgSetPRI m pri) = (if pri \<le> LOG_MAXPRI then pri else LOG_PRI_INVLD)
   \<and> iFacility (msgSetPRI m pri) \<le> 24 \<and> iSeverity (msgSetPRI m pri) \<le> 7"
proof (cases "pri \<le> 191")
  case True
  have "pri2fac pri \<le> 24"
    using pri_parts(2) [OF True] by (rule order_trans) simp
  moreover have "\<not> 191 < pri"
    using True by (rule leD)
  ultimately show ?thesis
    using True pri_parts [OF True] word_split_3 [of pri] pri2sev_le [of pri]
    by (simp add: msgSetPRI_def getPRIi_def LOG_MAXPRI_def pri2sev_def Let_def)
next
  case False
  have "pri2fac 199 = 24" "pri2sev 199 = 7"
    by code_simp+
  with False show ?thesis
    by (auto simp: msgSetPRI_def getPRIi_def LOG_MAXPRI_def LOG_PRI_INVLD_eq)
qed

text \<open>Setting a priority and reading it back gives the priority if it is at most 191 and the
  invalid priority 199 for every other 16 bit value; the facility and severity stored are always
  indices of the name tables (25 facilities with the invalid one, 8 severities).\<close>

theorem msgSetPRI_getPRIi:
  "getPRIi (msgSetPRI m pri) = (if pri \<le> LOG_MAXPRI then pri else LOG_PRI_INVLD)
   \<and> iFacility (msgSetPRI m pri) \<le> 24 \<and> iSeverity (msgSetPRI m pri) \<le> 7"
  by (rule getPRIi_msgSetPRI)

text \<open>(C35) Replacing the MSG part (\<open>MsgReplaceMSG\<close>) of a message whose MSG part is the end of its
  raw message changes exactly that part: the raw message keeps everything in front of
  \<open>offMSG\<close> and ends with the new text, \<open>getMSG\<close> returns the new text, and the MSG part is
  the end of the raw message again.\<close>

theorem MsgReplaceMSG_correct:
  assumes "msg_part_ok m"
  shows "raw (MsgReplaceMSG m msg) = take (nat (offMSG m)) (raw m) @ msg
    \<and> getMSG (MsgReplaceMSG m msg) = msg \<and> msg_part_ok (MsgReplaceMSG m msg)"
  using MsgReplaceMSG_raw [OF assms] MsgReplaceMSG_ok [OF assms] by auto

definition msg_example :: smsg where
  "msg_example = msgBaseConstruct\<lparr>pszRawMsg := Some ''<13>host tag: hi'', offMSG := 13, iLenMSG := 3\<rparr>"

lemma msg_example_ok: "msg_part_ok msg_example"
  by (simp add: msg_part_ok_def msg_example_def iLenRawMsg_def raw_def)

theorem MsgReplaceMSG_correct_witness: "raw (MsgReplaceMSG msg_example ''bye'') = ''<13>host tag:bye''"
  using MsgReplaceMSG_correct [OF msg_example_ok, of "''bye''"] by (simp add: msg_example_def raw_def)

text \<open>(C34) The TAG emulated for an RFC 5424 message from its APP-NAME and PROCID
  (\<open>APP-NAME[PROCID]\<close>) is one from which the legacy rules recover both: in a legacy message with
  that TAG, \<open>getPROCID\<close> returns the PROCID, and \<open>getAPPNAME\<close> and \<open>getProgramName\<close> return
  the APP-NAME.\<close>

theorem emulated_TAG_roundtrip:
  assumes "iProtocolVersion m = 1" "TAG m = []" "pCSAPPNAME m = Some app" "pCSPROCID m = Some procid"
    and "procid \<noteq> ''-''" "tag_name app" "CHR '']'' \<notin> set procid" "length app + length procid + 2 < CONF_TAG_MAXSIZE"
    and "getTAG m = Some (m', t)" "TAG l = t" "iProtocolVersion l = 0" "pCSPROCID l = None"
    and "pCSAPPNAME l = None" "PROGNAME l = None"
  shows "t = app @ ''['' @ procid @ '']'' \<and> snd (getPROCID l) = procid
    \<and> (\<exists>l'. getAPPNAME b l = Some (l', app)) \<and> (\<exists>l'. getProgramName b l = Some (l', app))"
proof -
  have t: "t = app @ ''['' @ procid @ '']''"
    using assms(1-8) assms(9) by (auto simp: getTAG_def tryEmulateTAG_def Let_def MsgSetTAG_def)
  have tag: "TAG l = app @ ''['' @ procid @ '']'' @ []"
    using t assms(10) by simp
  show ?thesis
    using t tag_legacy [OF tag assms(6,7,11-14)] by auto
qed

definition msg_5424 :: smsg where
  "msg_5424 = msgBaseConstruct\<lparr>iProtocolVersion := 1, pCSAPPNAME := Some ''su'', pCSPROCID := Some ''77''\<rparr>"

lemma msg_5424_tag: "getTAG msg_5424 = Some (msg_5424\<lparr>TAG := ''su[77]''\<rparr>, ''su[77]'')"
  by code_simp

theorem emulated_TAG_roundtrip_witness:
  "snd (getPROCID (msgBaseConstruct\<lparr>TAG := ''su[77]''\<rparr>)) = ''77''"
proof -
  have *: "tag_name ''su''" "CHR '']'' \<notin> set ''77''" "''77'' \<noteq> ''-''" "length ''su'' + length ''77'' + 2 < CONF_TAG_MAXSIZE"
    by code_simp+
  show ?thesis
    using emulated_TAG_roundtrip [OF _ _ _ _ *(3,1,2,4) msg_5424_tag, of "msgBaseConstruct\<lparr>TAG := ''su[77]''\<rparr>" False]
    by (simp add: msg_5424_def msgBaseConstruct_def)
qed

text \<open>Emulating the TAG reads behind the 512 byte buffer (there is no result in the model)
  exactly for an RFC 5424 message without TAG whose PROCID is set and whose APP-NAME and PROCID have
  more than 510 bytes together; nothing limits the length of these fields.\<close>

theorem getTAG_overread:
  "getTAG m = None \<longleftrightarrow>
     TAG m = [] \<and> iProtocolVersion m = 1
     \<and> (\<exists>procid. pCSPROCID m = Some procid \<and> procid \<noteq> ''-''
          \<and> 510 < length (case pCSAPPNAME m of None \<Rightarrow> [] | Some s \<Rightarrow> s) + length procid)"
  by (auto simp: getTAG_def tryEmulateTAG_def Let_def CONF_TAG_MAXSIZE_def split: option.splits if_splits)

end
