(* ===== verification/Queue_Store.thy ===== *)
theory Queue_Store
  imports Rs_Msg
begin

text \<open>
  The in-memory storage drivers of the queue (\<open>runtime/queue.c\<close>, "type-specific handlers"): the
  fixed array used as a ring buffer and the linked list. A driver has three operations: add a
  message, dequeue the next message (which stays in the store), and delete the oldest dequeued
  message. The queue calls them by pointers in its object; here they are the fields of a record.

  The locale \<open>queue_store\<close> is what the queue relies on: a store represents the messages dequeued
  but not deleted and the messages pending, both in order. Both drivers are interpretations of it;
  the linked list is modelled with its nodes in a heap, so that its interpretation includes that
  every node is freed exactly once.
\<close>

section \<open>The interface\<close>

record 's qops =
  qAdd :: "smsg \<Rightarrow> 's \<Rightarrow> 's"
  qDeq :: "'s \<Rightarrow> smsg option \<times> 's"
  qDel :: "'s \<Rightarrow> 's"

locale queue_store =
  fixes ops :: "'s qops"
    and rel :: "'s \<Rightarrow> smsg list \<Rightarrow> smsg list \<Rightarrow> bool"
    and room :: "nat \<Rightarrow> bool"
  assumes rel_add: "rel s ds ps \<Longrightarrow> room (length ds + length ps) \<Longrightarrow> rel (qAdd ops m s) ds (ps @ [m])"
    and rel_deq: "rel s ds (m # ps) \<Longrightarrow> \<exists>s'. qDeq ops s = (Some m, s') \<and> rel s' (ds @ [m]) ps"
    and rel_del: "rel s (d # ds) ps \<Longrightarrow> rel (qDel ops s) ds ps"

text \<open>Sequences of calls to a driver, and what they return on a pair of lists: the messages dequeued
  but not deleted, and the pending ones. A sequence is legal if it never adds without room, dequeues
  with nothing pending or deletes with nothing dequeued; the queue makes only such calls.\<close>

datatype store_op = Add smsg | Deq | Del

fun store_run :: "'s qops \<Rightarrow> store_op list \<Rightarrow> 's \<Rightarrow> smsg option list \<times> 's" where
  "store_run ops [] s = ([], s)"
| "store_run ops (Add m # os) s = store_run ops os (qAdd ops m s)"
| "store_run ops (Deq # os) s =
     (let (m, s1) = qDeq ops s; (out, s2) = store_run ops os s1 in (m # out, s2))"
| "store_run ops (Del # os) s = store_run ops os (qDel ops s)"

fun fifo_run :: "(nat \<Rightarrow> bool) \<Rightarrow> store_op list \<Rightarrow> smsg list \<Rightarrow> smsg list
    \<Rightarrow> (smsg list \<times> smsg list \<times> smsg list) option" where
  "fifo_run room [] ds ps = Some ([], ds, ps)"
| "fifo_run room (Add m # os) ds ps =
     (if room (length ds + length ps) then fifo_run room os ds (ps @ [m]) else None)"
| "fifo_run room (Deq # os) ds [] = None"
| "fifo_run room (Deq # os) ds (p # ps) =
     map_option (\<lambda>(out, r). (p # out, r)) (fifo_run room os (ds @ [p]) ps)"
| "fifo_run room (Del # os) [] ps = None"
| "fifo_run room (Del # os) (d # ds) ps = fifo_run room os ds ps"

context queue_store
begin

lemma run_refines:
  "rel s ds ps \<Longrightarrow> fifo_run room os ds ps = Some (out, ds', ps')
    \<Longrightarrow> fst (store_run ops os s) = map Some out \<and> rel (snd (store_run ops os s)) ds' ps'"
proof (induction os arbitrary: s ds ps out)
  case (Cons a os)
  show ?case
  proof (cases a)
    case (Add m)
    with Cons.prems have "room (length ds + length ps)" "fifo_run room os ds (ps @ [m]) = Some (out, ds', ps')"
      by (auto split: if_splits)
    with Cons.IH [OF rel_add] Cons.prems(1) Add show ?thesis
      by simp
  next
    case Deq
    then obtain p ps0 out' where ps: "ps = p # ps0" "out = p # out'"
        "fifo_run room os (ds @ [p]) ps0 = Some (out', ds', ps')"
      using Cons.prems(2) by (cases ps) auto
    obtain s' where "qDeq ops s = (Some p, s')" "rel s' (ds @ [p]) ps0"
      using rel_deq Cons.prems(1) ps(1) by blast
    with Cons.IH ps Deq show ?thesis
      by (fastforce split: prod.splits)
  next
    case Del
    then obtain d ds0 where "ds = d # ds0" "fifo_run room os ds0 ps = Some (out, ds', ps')"
      using Cons.prems(2) by (cases ds) auto
    with Cons.IH [OF rel_del] Cons.prems(1) Del show ?thesis
      by simp
  qed
qed simp

end

section \<open>Fixed array\<close>

text \<open>A slot of the array is undefined until something was stored there.\<close>

record farray =
  pBuf :: "smsg option list"
  deqhead :: nat
  head :: nat
  tail :: nat

definition qConstructFixedArray :: "nat \<Rightarrow> rsRetVal \<times> farray option" where
  "qConstructFixedArray iMaxQueueSize =
     (if iMaxQueueSize = 0 then (RS_RET_QSIZE_ZERO, None)
      else (RS_RET_OK, Some \<lparr>pBuf = replicate iMaxQueueSize None, deqhead = 0, head = 0, tail = 0\<rparr>))"

definition qAddFixedArray :: "nat \<Rightarrow> smsg \<Rightarrow> farray \<Rightarrow> farray" where
  "qAddFixedArray iMaxQueueSize m s =
     (let t = tail s + 1
      in s\<lparr>pBuf := (pBuf s)[tail s := Some m], tail := (if t = iMaxQueueSize then 0 else t)\<rparr>)"

definition qDeqFixedArray :: "nat \<Rightarrow> farray \<Rightarrow> smsg option \<times> farray" where
  "qDeqFixedArray iMaxQueueSize s =
     (let d = deqhead s + 1
      in (pBuf s ! deqhead s, s\<lparr>deqhead := (if d = iMaxQueueSize then 0 else d)\<rparr>))"

definition qDelFixedArray :: "nat \<Rightarrow> farray \<Rightarrow> farray" where
  "qDelFixedArray iMaxQueueSize s =
     (let h = head s + 1 in s\<lparr>head := (if h = iMaxQueueSize then 0 else h)\<rparr>)"

definition farray_ops :: "nat \<Rightarrow> farray qops" where
  "farray_ops n = \<lparr>qAdd = qAddFixedArray n, qDeq = qDeqFixedArray n, qDel = qDelFixedArray n\<rparr>"

text \<open>The ring holds the dequeued messages from \<open>head\<close> on, followed by the pending ones.\<close>

definition farray_rel :: "nat \<Rightarrow> farray \<Rightarrow> smsg list \<Rightarrow> smsg list \<Rightarrow> bool" where
  "farray_rel n s ds ps \<longleftrightarrow>
     length (pBuf s) = n \<and> head s < n \<and> length ds + length ps \<le> n
     \<and> deqhead s = (head s + length ds) mod n \<and> tail s = (head s + length ds + length ps) mod n
     \<and> (\<forall>i < length ds + length ps. pBuf s ! ((head s + i) mod n) = Some ((ds @ ps) ! i))"

lemma ring_next: "i < n \<Longrightarrow> (if i + 1 = n then 0 else i + 1) = (i + 1) mod n" for i n :: nat
  by auto

lemma ring_inj:
  assumes "(h + i) mod n = (h + j) mod n" "i < n" "j < n"
  shows "i = (j :: nat)"
proof -
  have "int n dvd int (h + i) - int (h + j)"
    using assms(1) by (metis mod_eq_dvd_iff zmod_int)
  then have "int n dvd int i - int j"
    by simp
  moreover have "\<bar>int i - int j\<bar> < int n"
    using assms(2,3) by linarith
  ultimately show ?thesis
    using zdvd_imp_le [of "int n" "\<bar>int i - int j\<bar>"] by (cases "int i = int j") auto
qed

lemma farray_add:
  assumes "farray_rel n s ds ps" "length ds + length ps < n"
  shows "farray_rel n (qAddFixedArray n m s) ds (ps @ [m])"
proof -
  let ?k = "length ds + length ps"
  have t: "tail s = (head s + ?k) mod n" "tail s < n" "length (pBuf s) = n"
    using assms by (auto simp: farray_rel_def add.assoc)
  have slot: "(pBuf s)[tail s := Some m] ! ((head s + i) mod n) = Some ((ds @ ps @ [m]) ! i)" if "i \<le> ?k" for i
  proof (cases "i = ?k")
    case True
    then show ?thesis
      using t by (simp add: nth_append)
  next
    case False
    then have "i < ?k"
      using that by simp
    moreover have "(head s + i) mod n \<noteq> tail s"
      using ring_inj [of "head s" i n ?k] False that assms(2) t(1) by auto
    ultimately show ?thesis
      using assms(1) by (auto simp: farray_rel_def nth_append)
  qed
  have "(if tail s + 1 = n then 0 else tail s + 1) = (head s + length ds + length (ps @ [m])) mod n"
    using t by (simp add: mod_Suc add.assoc)
  with assms slot t show ?thesis
    by (auto simp: farray_rel_def qAddFixedArray_def Let_def)
qed

lemma farray_deq:
  assumes "farray_rel n s ds (m # ps)"
  shows "\<exists>s'. qDeqFixedArray n s = (Some m, s') \<and> farray_rel n s' (ds @ [m]) ps"
proof -
  have d: "deqhead s = (head s + length ds) mod n" "deqhead s < n"
    using assms by (auto simp: farray_rel_def)
  have "pBuf s ! deqhead s = Some ((ds @ m # ps) ! length ds)"
    unfolding d(1) using assms unfolding farray_rel_def by (metis add_less_cancel_left add.right_neutral length_greater_0_conv list.distinct(1))
  moreover have "(if deqhead s + 1 = n then 0 else deqhead s + 1) = (head s + length (ds @ [m])) mod n"
    using d by (simp add: mod_Suc add.assoc)
  ultimately have "qDeqFixedArray n s = (Some m, s\<lparr>deqhead := (head s + length (ds @ [m])) mod n\<rparr>)"
    unfolding qDeqFixedArray_def Let_def by (simp only: nth_append_length)
  then show ?thesis
    using assms by (simp add: farray_rel_def)
qed

lemma farray_del:
  assumes "farray_rel n s (d # ds) ps"
  shows "farray_rel n (qDelFixedArray n s) ds ps"
proof -
  have h: "head s < n"
    using assms by (simp add: farray_rel_def)
  have slot: "pBuf s ! (((head s + 1) mod n + i) mod n) = Some ((ds @ ps) ! i)" if "i < length ds + length ps" for i
  proof -
    have "((head s + 1) mod n + i) mod n = (head s + Suc i) mod n"
      by (simp add: mod_simps)
    then show ?thesis
      using assms that by (fastforce simp: farray_rel_def)
  qed
  moreover have "head (qDelFixedArray n s) = (head s + 1) mod n"
    unfolding qDelFixedArray_def Let_def using ring_next [OF h] by simp
  moreover have "pBuf (qDelFixedArray n s) = pBuf s" "deqhead (qDelFixedArray n s) = deqhead s"
      "tail (qDelFixedArray n s) = tail s"
    by (simp_all add: qDelFixedArray_def Let_def)
  moreover have "0 < n"
    using h by simp
  ultimately show ?thesis
    using assms by (simp add: farray_rel_def mod_simps Suc_leD add.assoc)
qed

interpretation fa: queue_store "farray_ops n" "farray_rel n" "\<lambda>k. k < n" for n
  by unfold_locales (auto simp: farray_ops_def intro: farray_add farray_deq farray_del)

section \<open>Linked list\<close>

text \<open>A node is a message and the pointer to the next node. \<open>malloc\<close> returns an address that was
  never used, \<open>free\<close> removes the node; dereferencing an address that is not allocated gives None.\<close>

type_synonym qLinkedList = "smsg \<times> nat option"

record linklist =
  heap :: "nat \<rightharpoonup> qLinkedList"
  brk :: nat
  pDeqRoot :: "nat option"
  pDelRoot :: "nat option"
  pLast :: "nat option"

definition qConstructLinkedList :: linklist where
  "qConstructLinkedList = \<lparr>heap = Map.empty, brk = 0, pDeqRoot = None, pDelRoot = None, pLast = None\<rparr>"

definition set_next :: "(nat \<rightharpoonup> qLinkedList) \<Rightarrow> nat option \<Rightarrow> nat \<Rightarrow> (nat \<rightharpoonup> qLinkedList)" where
  "set_next h p q = (case p of None \<Rightarrow> h | Some a \<Rightarrow>
     (case h a of None \<Rightarrow> h | Some (m, _) \<Rightarrow> h(a \<mapsto> (m, Some q))))"

definition qAddLinkedList :: "smsg \<Rightarrow> linklist \<Rightarrow> linklist" where
  "qAddLinkedList m s =
     (let pEntry = brk s; s0 = s\<lparr>heap := (heap s)(pEntry \<mapsto> (m, None)), brk := pEntry + 1\<rparr>;
          s1 = (if pDelRoot s0 = None
                then s0\<lparr>pDelRoot := Some pEntry, pDeqRoot := Some pEntry, pLast := Some pEntry\<rparr>
                else s0\<lparr>heap := set_next (heap s0) (pLast s0) pEntry, pLast := Some pEntry\<rparr>)
      in if pDeqRoot s1 = None then s1\<lparr>pDeqRoot := Some pEntry\<rparr> else s1)"

definition qDeqLinkedList :: "linklist \<Rightarrow> smsg option \<times> linklist" where
  "qDeqLinkedList s = (case pDeqRoot s of
       None \<Rightarrow> (None, s\<lparr>pDeqRoot := None\<rparr>)
     | Some a \<Rightarrow> (map_option fst (heap s a), s\<lparr>pDeqRoot := Option.bind (heap s a) snd\<rparr>))"

definition qDelLinkedList :: "linklist \<Rightarrow> linklist" where
  "qDelLinkedList s =
     (let s1 = (if pDelRoot s = pLast s then s\<lparr>pDelRoot := None, pDeqRoot := None, pLast := None\<rparr>
                else s\<lparr>pDelRoot := Option.bind (Option.bind (pDelRoot s) (heap s)) snd\<rparr>)
      in s1\<lparr>heap := (case pDelRoot s of None \<Rightarrow> heap s1 | Some a \<Rightarrow> (heap s1)(a := None))\<rparr>)"

definition linklist_ops :: "linklist qops" where
  "linklist_ops = \<lparr>qAdd = qAddLinkedList, qDeq = qDeqLinkedList, qDel = qDelLinkedList\<rparr>"

fun chain :: "(nat \<rightharpoonup> qLinkedList) \<Rightarrow> nat option \<Rightarrow> (nat \<times> smsg) list \<Rightarrow> bool" where
  "chain h p [] \<longleftrightarrow> p = None"
| "chain h p ((a, m) # xs) \<longleftrightarrow> p = Some a \<and> (\<exists>q. h a = Some (m, q) \<and> chain h q xs)"

definition first_addr :: "(nat \<times> smsg) list \<Rightarrow> nat option" where
  "first_addr xs = (case xs of [] \<Rightarrow> None | x # _ \<Rightarrow> Some (fst x))"

definition last_addr :: "(nat \<times> smsg) list \<Rightarrow> nat option" where
  "last_addr xs = (if xs = [] then None else Some (fst (last xs)))"

text \<open>The nodes of the dequeued and the pending messages form one chain, they are distinct, and
  nothing else is allocated.\<close>

definition nodes_of :: "linklist \<Rightarrow> (nat \<times> smsg) list \<Rightarrow> (nat \<times> smsg) list \<Rightarrow> bool" where
  "nodes_of s xs ys \<longleftrightarrow>
     chain (heap s) (pDelRoot s) (xs @ ys) \<and> distinct (map fst (xs @ ys))
     \<and> dom (heap s) = fst ` set (xs @ ys) \<and> (\<forall>a \<in> dom (heap s). a < brk s)
     \<and> pDeqRoot s = first_addr ys \<and> pLast s = last_addr (xs @ ys)"

definition linklist_rel :: "linklist \<Rightarrow> smsg list \<Rightarrow> smsg list \<Rightarrow> bool" where
  "linklist_rel s ds ps \<longleftrightarrow> (\<exists>xs ys. nodes_of s xs ys \<and> ds = map snd xs \<and> ps = map snd ys)"

lemma chain_first: "chain h p xs \<Longrightarrow> p = first_addr xs"
  by (cases xs) (auto simp: first_addr_def)

lemma chain_suffix: "chain h p (xs @ ys) \<Longrightarrow> chain h (first_addr ys) ys"
  by (induction xs arbitrary: p) (auto dest: chain_first)

lemma chain_upd: "a \<notin> fst ` set xs \<Longrightarrow> chain (h(a := v)) p xs = chain h p xs"
  by (induction xs arbitrary: p) auto

lemma chain_last:
  "chain h p xs \<Longrightarrow> xs \<noteq> [] \<Longrightarrow> h (fst (last xs)) = Some (snd (last xs), None)"
  by (induction h p xs rule: chain.induct) auto

lemma chain_snoc:
  assumes "chain h p xs" "xs \<noteq> []" "distinct (map fst xs)" "b \<notin> fst ` set xs"
  shows "chain (h(fst (last xs) \<mapsto> (snd (last xs), Some b), b \<mapsto> (m, None))) p (xs @ [(b, m)])"
  using assms
proof (induction h p xs rule: chain.induct)
  case (2 h p a m' xs)
  show ?case
  proof (cases "xs = []")
    case False
    then have "fst (last xs) \<in> fst ` set xs"
      by simp
    then have "a \<noteq> fst (last xs)"
      using 2(4) by auto
    then show ?thesis
      using 2 False by auto
  qed (use 2 in auto)
qed simp

lemma nodes_add:
  assumes "nodes_of s xs ys"
  shows "nodes_of (qAddLinkedList m s) xs (ys @ [(brk s, m)])"
proof (cases "xs @ ys = []")
  case True
  with assms show ?thesis
    by (auto simp: nodes_of_def qAddLinkedList_def Let_def first_addr_def last_addr_def)
next
  case False
  let ?zs = "xs @ ys" and ?b = "brk s"
  let ?h = "(heap s)(fst (last ?zs) \<mapsto> (snd (last ?zs), Some ?b), ?b \<mapsto> (m, None))"
  have c: "chain (heap s) (pDelRoot s) ?zs" "distinct (map fst ?zs)" "dom (heap s) = fst ` set ?zs"
      "\<forall>a \<in> dom (heap s). a < ?b" "pDeqRoot s = first_addr ys" "pLast s = Some (fst (last ?zs))"
    using assms False by (auto simp: nodes_of_def last_addr_def)
  have fresh: "?b \<notin> fst ` set ?zs"
    using c(3,4) by blast
  have l: "fst (last ?zs) \<in> fst ` set ?zs"
    using False by (metis imageI last_in_set)
  then have ne: "fst (last ?zs) \<noteq> ?b"
    using fresh by metis
  have "set_next ((heap s)(?b \<mapsto> (m, None))) (pLast s) ?b = ?h"
    using chain_last [OF c(1) False] ne c(6) by (simp add: set_next_def fun_upd_twist)
  moreover have "pDelRoot s \<noteq> None"
    using chain_first [OF c(1)] False by (auto simp: first_addr_def split: list.splits)
  ultimately have q: "heap (qAddLinkedList m s) = ?h" "pDelRoot (qAddLinkedList m s) = pDelRoot s"
      "brk (qAddLinkedList m s) = ?b + 1" "pLast (qAddLinkedList m s) = Some ?b"
      "pDeqRoot (qAddLinkedList m s) = first_addr (ys @ [(?b, m)])"
    using c(5) by (auto simp: qAddLinkedList_def Let_def first_addr_def split: list.splits)
  have d: "dom ?h = fst ` set (?zs @ [(?b, m)])"
    using c(3) l by auto
  moreover have "\<forall>a \<in> dom ?h. a < ?b + 1"
    unfolding d using c(3,4) by (auto simp: less_Suc_eq)
  ultimately show ?thesis
    using chain_snoc [OF c(1) False c(2) fresh, of m] c(2) fresh q
    unfolding nodes_of_def by (simp add: last_addr_def image_Un del: fun_upd_apply dom_fun_upd)
qed

lemma nodes_deq:
  assumes "nodes_of s xs ((a, m) # ys)"
  shows "\<exists>s'. qDeqLinkedList s = (Some m, s') \<and> nodes_of s' (xs @ [(a, m)]) ys"
proof -
  have "chain (heap s) (first_addr ((a, m) # ys)) ((a, m) # ys)"
    using assms chain_suffix unfolding nodes_of_def by blast
  then have "heap s a = Some (m, first_addr ys)"
    by (auto dest: chain_first)
  with assms show ?thesis
    by (auto simp: nodes_of_def qDeqLinkedList_def first_addr_def)
qed

lemma nodes_del:
  assumes "nodes_of s ((a, m) # xs) ys"
  shows "nodes_of (qDelLinkedList s) xs ys"
proof -
  obtain q where q: "pDelRoot s = Some a" "heap s a = Some (m, q)" "chain (heap s) q (xs @ ys)"
    using assms by (auto simp: nodes_of_def)
  have a: "a \<notin> fst ` set (xs @ ys)" "dom (heap s) = insert a (fst ` set (xs @ ys))"
    using assms by (auto simp: nodes_of_def)
  have c: "chain ((heap s)(a := None)) q (xs @ ys)"
    using q(3) a(1) by (simp add: chain_upd)
  show ?thesis
  proof (cases "xs @ ys = []")
    case True
    with assms q a show ?thesis
      by (auto simp: nodes_of_def qDelLinkedList_def Let_def last_addr_def first_addr_def)
  next
    case False
    then have l: "fst (last (xs @ ys)) \<in> fst ` set (xs @ ys)"
      by (metis imageI last_in_set)
    have "pLast s = Some (fst (last (xs @ ys)))"
      using assms False by (auto simp: nodes_of_def last_addr_def)
    then have "pDelRoot s \<noteq> pLast s"
      using a(1) l q(1) by auto
    with False assms a c q(1,2) \<open>pLast s = _\<close> show ?thesis
      by (auto simp: nodes_of_def qDelLinkedList_def Let_def last_addr_def)
  qed
qed

interpretation ll: queue_store linklist_ops linklist_rel "\<lambda>k. True"
proof unfold_locales
  fix s ds ps m
  assume "linklist_rel s ds ps"
  then obtain xs ys where "nodes_of s xs ys" "ds = map snd xs" "ps = map snd ys"
    by (auto simp: linklist_rel_def)
  then show "linklist_rel (qAdd linklist_ops m s) ds (ps @ [m])"
    using nodes_add [of s xs ys m] unfolding linklist_rel_def
    by (intro exI [of _ xs] exI [of _ "ys @ [(brk s, m)]"]) (simp add: linklist_ops_def)
next
  fix s ds m ps
  assume "linklist_rel s ds (m # ps)"
  then obtain xs a ys where "nodes_of s xs ((a, m) # ys)" "ds = map snd xs" "ps = map snd ys"
    by (auto simp: linklist_rel_def Cons_eq_map_conv)
  then show "\<exists>s'. qDeq linklist_ops s = (Some m, s') \<and> linklist_rel s' (ds @ [m]) ps"
    using nodes_deq [of s xs a m ys] by (fastforce simp: linklist_rel_def linklist_ops_def)
next
  fix s d ds ps
  assume "linklist_rel s (d # ds) ps"
  then obtain a xs ys where "nodes_of s ((a, d) # xs) ys" "ds = map snd xs" "ps = map snd ys"
    by (auto simp: linklist_rel_def Cons_eq_map_conv)
  then show "linklist_rel (qDel linklist_ops s) ds ps"
    using nodes_del [of s a d xs ys] by (auto simp: linklist_rel_def linklist_ops_def)
qed

section \<open>Both drivers are the same queue\<close>

lemma farray_rel_construct:
  "qConstructFixedArray n = (r, Some s) \<Longrightarrow> farray_rel n s [] []"
  by (auto simp: qConstructFixedArray_def farray_rel_def split: if_splits)

lemma linklist_rel_construct: "linklist_rel qConstructLinkedList [] []"
  by (auto simp: linklist_rel_def nodes_of_def qConstructLinkedList_def first_addr_def last_addr_def)

lemma linklist_rel_card: "linklist_rel s ds ps \<Longrightarrow> card (dom (heap s)) = length ds + length ps"
  unfolding linklist_rel_def nodes_of_def
  by (metis distinct_card length_append length_map list.set_map map_append)

lemma fifo_run_mono:
  "fifo_run room os ds ps = Some r \<Longrightarrow> (\<And>k. room k \<Longrightarrow> room' k) \<Longrightarrow> fifo_run room' os ds ps = Some r"
  by (induction room os ds ps arbitrary: r rule: fifo_run.induct) (auto split: if_splits)

text \<open>(C11) The fixed array and the linked list implement the same first-in first-out queue. For every
  sequence of calls that never exceeds the array's size, both drivers return the messages in the
  order in which they were added, starting from freshly constructed stores; and afterwards the list
  has exactly one allocated node for each message that was added and not yet deleted.\<close>

theorem drivers_are_fifo:
  assumes "qConstructFixedArray n = (RS_RET_OK, Some fa0)"
    and "fifo_run (\<lambda>k. k < n) os [] [] = Some (out, ds, ps)"
  shows "fst (store_run (farray_ops n) os fa0) = map Some out
    \<and> fst (store_run linklist_ops os qConstructLinkedList) = map Some out
    \<and> farray_rel n (snd (store_run (farray_ops n) os fa0)) ds ps
    \<and> card (dom (heap (snd (store_run linklist_ops os qConstructLinkedList)))) = length ds + length ps"
  using fa.run_refines [OF farray_rel_construct [OF assms(1)] assms(2)]
    ll.run_refines [OF linklist_rel_construct fifo_run_mono [OF assms(2)]] linklist_rel_card by blast

theorem drivers_are_fifo_witness:
  "let m1 = msgBaseConstruct; m2 = m1\<lparr>iSeverity := 3\<rparr>; m3 = m1\<lparr>iSeverity := 5\<rparr>;
       os = [Add m1, Add m2, Deq, Deq, Del, Add m3, Deq, Del];
       fa0 = \<lparr>pBuf = [None, None], deqhead = 0, head = 0, tail = 0\<rparr>
   in fst (store_run (farray_ops 2) os fa0) = [Some m1, Some m2, Some m3]
      \<and> fst (store_run linklist_ops os qConstructLinkedList) = [Some m1, Some m2, Some m3]"
proof -
  let ?m1 = msgBaseConstruct
  let ?m2 = "?m1\<lparr>iSeverity := 3\<rparr>"
  let ?m3 = "?m1\<lparr>iSeverity := 5\<rparr>"
  show ?thesis
    using drivers_are_fifo [of 2 "\<lparr>pBuf = [None, None], deqhead = 0, head = 0, tail = 0\<rparr>"
        "[Add ?m1, Add ?m2, Deq, Deq, Del, Add ?m3, Deq, Del]" "[?m1, ?m2, ?m3]" "[?m3]" "[]"]
    by (simp add: qConstructFixedArray_def numeral_2_eq_2 Let_def)
qed

end
