(* ===== verification/Rs_Queue.thy ===== *)
theory Rs_Queue
  imports Queue_Store
begin

text \<open>
  The queue object (\<open>runtime/queue.c\<close>, \<open>runtime/queue.h\<close>, \<open>runtime/batch.h\<close>) for the in-memory
  types: enqueueing with flow control, dequeueing a batch, deleting a processed batch from the store,
  the to-delete list, worker advice, the dequeue time window and the correction of parameters. The
  operations take the storage driver as an argument, as the object holds it.

  A queue is shared by threads, and \<open>pthread_cond_timedwait\<close> releases its mutex. What other threads
  do meanwhile is an argument of the operations that wait: a list with, for each wait in turn, its
  result and the queue as it is when the mutex is held again. None is returned when the list ends
  before the operation does, that is, when the call is still waiting. The input termination state
  (\<open>glbl.GetGlobalInputTermState\<close>) is an argument.

  Disk queues, persistence of the queue (\<open>qqueueChkPersist\<close> does nothing for a memory queue), the
  minimum batch size (\<open>iMinDeqBatchSize\<close>, by default 0: no wait) and the debug output are not
  modelled. Allocation succeeds, so that the drivers return \<open>RS_RET_OK\<close>.
\<close>

section \<open>The queue object\<close>

record qcfg =
  iMaxQueueSize :: int
  iHighWtrMrk :: int
  iLowWtrMrk :: int
  iDiscardMrk :: int
  iDiscardSeverity :: int
  iFullDlyMrk :: int
  iLightDlyMrk :: int
  iNumWorkerThreads :: int
  iMinMsgsPerWrkr :: int
  iDeqBatchSize :: int
  toEnq :: int
  iSmpInterval :: int
  iDeqtWinFromHr :: int
  iDeqtWinToHr :: int
  bEnqOnly :: bool
  bIsDA :: bool
  takeFlowCtlFromMsg :: bool

type_synonym toDeleteLst_t = "(nat \<times> int) list"

record 's qqueue =
  qstore :: 's
  iQueueSize :: int
  nLogDeq :: int
  deqIDAdd :: nat
  deqIDDel :: nat
  toDeleteLst :: toDeleteLst_t
  msgCnt :: int
  ctrEnqueued :: nat
  ctrFull :: nat
  ctrFDscrd :: nat
  ctrNFDscrd :: nat
  ctrMaxqsize :: int

datatype batch_state = BATCH_STATE_RDY | BATCH_STATE_BAD | BATCH_STATE_SUB | BATCH_STATE_COMM | BATCH_STATE_DISC

record batch_t =
  pElem :: "(smsg \<times> batch_state) list"
  nElemDeq :: int
  deqID :: nat

definition nElem :: "batch_t \<Rightarrow> int" where
  "nElem b = int (length (pElem b))"

datatype cond_result = CondSignalled | CondTimedOut | CondError

type_synonym 's waits = "(cond_result \<times> 's qqueue) list"

definition getPhysicalQueueSize :: "'s qqueue \<Rightarrow> int" where
  "getPhysicalQueueSize q = iQueueSize q"

definition getLogicalQueueSize :: "'s qqueue \<Rightarrow> int" where
  "getLogicalQueueSize q = iQueueSize q - nLogDeq q"

text \<open>The advice: whether the disk-assisted worker is to run, and how many regular workers.\<close>

definition qqueueAdviseMaxWorkers :: "qcfg \<Rightarrow> 's qqueue \<Rightarrow> (bool \<times> int) option" where
  "qqueueAdviseMaxWorkers cfg q =
     (if bEnqOnly cfg then None
      else Some (bIsDA cfg \<and> getLogicalQueueSize q \<ge> iHighWtrMrk cfg,
        if getLogicalQueueSize q = 0 then 0
        else if iMinMsgsPerWrkr cfg = 0 then 1
        else getLogicalQueueSize q sdiv iMinMsgsPerWrkr cfg + 1))"

section \<open>Adding and dequeueing one message\<close>

definition qqueueAdd :: "'s qops \<Rightarrow> qcfg \<Rightarrow> smsg \<Rightarrow> 's qqueue \<Rightarrow> 's qqueue" where
  "qqueueAdd ops cfg m q =
     (let q1 = (if iSmpInterval cfg > 0 then q\<lparr>msgCnt := (msgCnt q + 1) smod iSmpInterval cfg\<rparr> else q)
      in if iSmpInterval cfg > 0 \<and> msgCnt q1 \<noteq> 0 then q1
         else q1\<lparr>qstore := qAdd ops m (qstore q1), iQueueSize := iQueueSize q1 + 1\<rparr>)"

definition qqueueDeq :: "'s qops \<Rightarrow> 's qqueue \<Rightarrow> smsg option \<times> 's qqueue" where
  "qqueueDeq ops q = (case qDeq ops (qstore q) of
     (m, s) \<Rightarrow> (m, q\<lparr>qstore := s, nLogDeq := nLogDeq q + 1\<rparr>))"

definition qqueueChkDiscardMsg :: "qcfg \<Rightarrow> int \<Rightarrow> smsg \<Rightarrow> 's qqueue \<Rightarrow> rsRetVal \<times> 's qqueue" where
  "qqueueChkDiscardMsg cfg sz m q =
     (if iDiscardMrk cfg > 0 \<and> sz \<ge> iDiscardMrk cfg
      then (case MsgGetSeverity m of (r, sev) \<Rightarrow>
        if r = RS_RET_OK \<and> sev \<ge> iDiscardSeverity cfg
        then (RS_RET_QUEUE_FULL, q\<lparr>ctrNFDscrd := ctrNFDscrd q + 1\<rparr>)
        else (RS_RET_OK, q))
      else (RS_RET_OK, q))"

text \<open>The loop that waits for a full delayable message, and the single wait for a light delayable one.\<close>

fun full_delay_wait :: "qcfg \<Rightarrow> bool \<Rightarrow> 's qqueue \<Rightarrow> 's waits \<Rightarrow> ('s qqueue \<times> 's waits) option" where
  "full_delay_wait cfg inputTerm q [] =
     (if iQueueSize q \<ge> iFullDlyMrk cfg \<and> \<not> inputTerm then None else Some (q, []))"
| "full_delay_wait cfg inputTerm q ((r, q1) # ws) =
     (if iQueueSize q \<ge> iFullDlyMrk cfg \<and> \<not> inputTerm
      then if r = CondError then Some (q1, ws) else full_delay_wait cfg inputTerm q1 ws
      else Some (q, (r, q1) # ws))"

definition flow_control :: "qcfg \<Rightarrow> bool \<Rightarrow> flowControl_t \<Rightarrow> 's qqueue \<Rightarrow> 's waits \<Rightarrow> ('s qqueue \<times> 's waits) option" where
  "flow_control cfg inputTerm f q ws =
     (if f = eFLOWCTL_FULL_DELAY then full_delay_wait cfg inputTerm q ws
      else if f = eFLOWCTL_LIGHT_DELAY \<and> \<not> inputTerm \<and> iQueueSize q \<ge> iLightDlyMrk cfg
      then (case ws of [] \<Rightarrow> None | (r, q1) # ws' \<Rightarrow> Some (q1, ws'))
      else Some (q, ws))"

definition queue_full :: "qcfg \<Rightarrow> 's qqueue \<Rightarrow> bool" where
  "queue_full cfg q \<longleftrightarrow> iMaxQueueSize cfg > 0 \<and> iQueueSize q \<ge> iMaxQueueSize cfg"

text \<open>The loop that waits for room: it ends with the queue not full, or drops the message.\<close>

definition drop_full :: "'s qqueue \<Rightarrow> 's qqueue" where
  "drop_full q = q\<lparr>ctrFDscrd := ctrFDscrd q + 1\<rparr>"

definition hit_full :: "'s qqueue \<Rightarrow> 's qqueue" where
  "hit_full q = q\<lparr>ctrFull := ctrFull q + 1\<rparr>"

fun not_full_wait :: "qcfg \<Rightarrow> bool \<Rightarrow> 's qqueue \<Rightarrow> 's waits \<Rightarrow> (rsRetVal \<times> 's qqueue \<times> 's waits) option" where
  "not_full_wait cfg inputTerm q [] =
     (if \<not> queue_full cfg q then Some (RS_RET_OK, q, [])
      else if toEnq cfg = 0 \<or> bEnqOnly cfg then Some (RS_RET_QUEUE_FULL, drop_full (hit_full q), [])
      else if inputTerm then Some (RS_RET_FORCE_TERM, hit_full q, [])
      else None)"
| "not_full_wait cfg inputTerm q ((r, q1) # ws) =
     (if \<not> queue_full cfg q then Some (RS_RET_OK, q, (r, q1) # ws)
      else if toEnq cfg = 0 \<or> bEnqOnly cfg then Some (RS_RET_QUEUE_FULL, drop_full (hit_full q), (r, q1) # ws)
      else if inputTerm then Some (RS_RET_FORCE_TERM, hit_full q, (r, q1) # ws)
      else if r = CondSignalled then not_full_wait cfg inputTerm q1 ws
      else Some (RS_RET_QUEUE_FULL, drop_full q1, ws))"

definition doEnqSingleObj :: "'s qops \<Rightarrow> qcfg \<Rightarrow> bool \<Rightarrow> flowControl_t \<Rightarrow> smsg \<Rightarrow> 's qqueue \<Rightarrow> 's waits
    \<Rightarrow> (rsRetVal \<times> 's qqueue \<times> 's waits) option" where
  "doEnqSingleObj ops cfg inputTerm f m q ws =
     (case qqueueChkDiscardMsg cfg (iQueueSize q) m (q\<lparr>ctrEnqueued := ctrEnqueued q + 1\<rparr>) of (r, q1) \<Rightarrow>
      if r \<noteq> RS_RET_OK then Some (r, q1, ws)
      else case flow_control cfg inputTerm (if takeFlowCtlFromMsg cfg then flowCtlType m else f) q1 ws of
        None \<Rightarrow> None
      | Some (q2, ws2) \<Rightarrow> (case not_full_wait cfg inputTerm q2 ws2 of
          None \<Rightarrow> None
        | Some (r, q3, ws3) \<Rightarrow>
            if r \<noteq> RS_RET_OK then Some (r, q3, ws3)
            else let q4 = qqueueAdd ops cfg m q3
                 in Some (RS_RET_OK, q4\<lparr>ctrMaxqsize := max (ctrMaxqsize q4) (iQueueSize q4)\<rparr>, ws3)))"

fun multi_enq :: "'s qops \<Rightarrow> qcfg \<Rightarrow> bool \<Rightarrow> smsg list \<Rightarrow> 's qqueue \<Rightarrow> 's waits
    \<Rightarrow> (rsRetVal \<times> 's qqueue \<times> 's waits) option" where
  "multi_enq ops cfg inputTerm [] q ws = Some (RS_RET_OK, q, ws)"
| "multi_enq ops cfg inputTerm (m # ms) q ws =
     (case doEnqSingleObj ops cfg inputTerm (flowCtlType m) m q ws of
        None \<Rightarrow> None
      | Some (r, q1, ws1) \<Rightarrow>
          if r \<noteq> RS_RET_OK \<and> r \<noteq> RS_RET_QUEUE_FULL then Some (r, q1, ws1)
          else multi_enq ops cfg inputTerm ms q1 ws1)"

definition qqueueMultiEnqObjNonDirect :: "'s qops \<Rightarrow> qcfg \<Rightarrow> bool \<Rightarrow> smsg list \<Rightarrow> 's qqueue \<Rightarrow> 's waits
    \<Rightarrow> (rsRetVal \<times> (bool \<times> int) option \<times> 's qqueue \<times> 's waits) option" where
  "qqueueMultiEnqObjNonDirect ops cfg inputTerm ms q ws =
     map_option (\<lambda>(r, q1, ws1). (r, qqueueAdviseMaxWorkers cfg q1, q1, ws1)) (multi_enq ops cfg inputTerm ms q ws)"

definition qqueueEnqMsg :: "'s qops \<Rightarrow> qcfg \<Rightarrow> bool \<Rightarrow> flowControl_t \<Rightarrow> smsg \<Rightarrow> 's qqueue \<Rightarrow> 's waits
    \<Rightarrow> (rsRetVal \<times> (bool \<times> int) option \<times> 's qqueue \<times> 's waits) option" where
  "qqueueEnqMsg ops cfg inputTerm f m q ws =
     map_option (\<lambda>(r, q1, ws1). (r, qqueueAdviseMaxWorkers cfg q1, q1, ws1)) (doEnqSingleObj ops cfg inputTerm f m q ws)"

section \<open>Deleting a processed batch\<close>

definition getNextDeqID :: "'s qqueue \<Rightarrow> nat \<times> 's qqueue" where
  "getNextDeqID q = (deqIDAdd q, q\<lparr>deqIDAdd := deqIDAdd q + 1\<rparr>)"

definition tdlPeek :: "'s qqueue \<Rightarrow> (nat \<times> int) option" where
  "tdlPeek q = (case toDeleteLst q of [] \<Rightarrow> None | e # _ \<Rightarrow> Some e)"

definition tdlPop :: "'s qqueue \<Rightarrow> 's qqueue" where
  "tdlPop q = q\<lparr>toDeleteLst := tl (toDeleteLst q)\<rparr>"

text \<open>The search stops at the first entry whose ID is not below the new one, and the new entry is
  linked after that entry; if there is none, it becomes the first.\<close>

fun tdl_link :: "nat \<Rightarrow> int \<Rightarrow> toDeleteLst_t \<Rightarrow> toDeleteLst_t option" where
  "tdl_link d n [] = None"
| "tdl_link d n (e # es) =
     (if d > fst e then map_option ((#) e) (tdl_link d n es) else Some (e # (d, n) # es))"

definition tdlAdd :: "nat \<Rightarrow> int \<Rightarrow> 's qqueue \<Rightarrow> 's qqueue" where
  "tdlAdd d n q = q\<lparr>toDeleteLst :=
     (case tdl_link d n (toDeleteLst q) of None \<Rightarrow> (d, n) # toDeleteLst q | Some l \<Rightarrow> l)\<rparr>"

definition DoDeleteBatchFromQStore :: "'s qops \<Rightarrow> int \<Rightarrow> 's qqueue \<Rightarrow> 's qqueue" where
  "DoDeleteBatchFromQStore ops n q =
     q\<lparr>qstore := (qDel ops ^^ nat n) (qstore q), iQueueSize := iQueueSize q - n,
       nLogDeq := nLogDeq q - n, deqIDDel := deqIDDel q + 1\<rparr>"

fun delete_listed :: "'s qops \<Rightarrow> nat \<Rightarrow> toDeleteLst_t \<Rightarrow> 's qqueue \<Rightarrow> 's qqueue" where
  "delete_listed ops d [] q = q"
| "delete_listed ops d ((i, n) # l) q =
     (if d = i then delete_listed ops (d + 1) l (tdlPop (DoDeleteBatchFromQStore ops n q)) else q)"

definition DeleteBatchFromQStore :: "'s qops \<Rightarrow> batch_t \<Rightarrow> 's qqueue \<Rightarrow> 's qqueue" where
  "DeleteBatchFromQStore ops b q =
     (if tdlPeek q = None then DoDeleteBatchFromQStore ops (nElem b) q
      else if deqID b = deqIDDel q
      then DoDeleteBatchFromQStore ops (nElem b) (delete_listed ops (deqIDDel q) (toDeleteLst q) q)
      else tdlAdd (deqID b) (nElem b) q)"

definition unprocessed :: "smsg \<times> batch_state \<Rightarrow> bool" where
  "unprocessed e \<longleftrightarrow> snd e = BATCH_STATE_RDY \<or> snd e = BATCH_STATE_SUB"

fun reenqueue :: "'s qops \<Rightarrow> qcfg \<Rightarrow> bool \<Rightarrow> (smsg \<times> batch_state) list \<Rightarrow> 's qqueue \<Rightarrow> 's waits
    \<Rightarrow> ('s qqueue \<times> 's waits) option" where
  "reenqueue ops cfg inputTerm [] q ws = Some (q, ws)"
| "reenqueue ops cfg inputTerm (e # es) q ws =
     (if unprocessed e
      then (case doEnqSingleObj ops cfg inputTerm eFLOWCTL_NO_DELAY (fst e) q ws of
              None \<Rightarrow> None
            | Some (_, q1, ws1) \<Rightarrow> reenqueue ops cfg inputTerm es q1 ws1)
      else reenqueue ops cfg inputTerm es q ws)"

definition DeleteProcessedBatch :: "'s qops \<Rightarrow> qcfg \<Rightarrow> bool \<Rightarrow> batch_t \<Rightarrow> 's qqueue \<Rightarrow> 's waits
    \<Rightarrow> (batch_t \<times> 's qqueue \<times> 's waits) option" where
  "DeleteProcessedBatch ops cfg inputTerm b q ws =
     map_option (\<lambda>(q1, ws1). (b\<lparr>pElem := [], nElemDeq := 0\<rparr>, DeleteBatchFromQStore ops b q1, ws1))
       (reenqueue ops cfg inputTerm (pElem b) q ws)"

section \<open>Dequeueing a batch\<close>

lemma qqueueDeq_size [simp]:
  "iQueueSize (snd (qqueueDeq ops q)) = iQueueSize q" "nLogDeq (snd (qqueueDeq ops q)) = nLogDeq q + 1"
  by (simp_all add: qqueueDeq_def split: prod.splits)

lemma qqueueChkDiscardMsg_size [simp]:
  "iQueueSize (snd (qqueueChkDiscardMsg cfg n m q)) = iQueueSize q"
  "nLogDeq (snd (qqueueChkDiscardMsg cfg n m q)) = nLogDeq q"
  by (simp_all add: qqueueChkDiscardMsg_def MsgGetSeverity_def)

text \<open>The loop returns the messages for the batch, how many were discarded, and the queue; None when
  the driver had no message although the logical size is above 0.\<close>

function deq_loop :: "'s qops \<Rightarrow> qcfg \<Rightarrow> 's qqueue \<Rightarrow> smsg list \<Rightarrow> int \<Rightarrow> (smsg list \<times> int \<times> 's qqueue) option" where
  "deq_loop ops cfg q acc nDiscarded =
     (if getLogicalQueueSize q > 0 \<and> int (length acc) < iDeqBatchSize cfg
      then (case fst (qqueueDeq ops q) of
          None \<Rightarrow> None
        | Some m \<Rightarrow>
            let q1 = snd (qqueueDeq ops q); c = qqueueChkDiscardMsg cfg (iQueueSize q1) m q1
            in if fst c = RS_RET_QUEUE_FULL then deq_loop ops cfg (snd c) acc (nDiscarded + 1)
               else deq_loop ops cfg (snd c) (acc @ [m]) nDiscarded)
      else Some (acc, nDiscarded, q))"
  by pat_completeness auto
termination
  by (relation "measure (\<lambda>(ops, cfg, q, acc, n). nat (getLogicalQueueSize q))")
    (auto simp: getLogicalQueueSize_def)

text \<open>The last component is the logical queue size after the loop (\<open>*piRemainingQueueSize\<close>).\<close>

definition DequeueConsumableElements :: "'s qops \<Rightarrow> qcfg \<Rightarrow> bool \<Rightarrow> batch_t \<Rightarrow> 's qqueue \<Rightarrow> 's waits
    \<Rightarrow> (batch_t \<times> 's qqueue \<times> 's waits \<times> int) option" where
  "DequeueConsumableElements ops cfg inputTerm b q ws =
     (case DeleteProcessedBatch ops cfg inputTerm b q ws of
        None \<Rightarrow> None
      | Some (b1, q1, ws1) \<Rightarrow> (case deq_loop ops cfg q1 [] 0 of
          None \<Rightarrow> None
        | Some (ms, nDiscarded, q2) \<Rightarrow> (case getNextDeqID q2 of (i, q3) \<Rightarrow>
            Some (b1\<lparr>pElem := map (\<lambda>m. (m, BATCH_STATE_RDY)) ms, nElemDeq := int (length ms) + nDiscarded, deqID := i\<rparr>,
                  q3, ws1, getLogicalQueueSize q2))))"

datatype cond = notFull | belowFullDlyWtrMrk | belowLightDlyWtrMrk

text \<open>The condition variables that are signalled after the dequeue.\<close>

definition wakeups :: "qcfg \<Rightarrow> bool \<Rightarrow> int \<Rightarrow> cond list" where
  "wakeups cfg inputTerm sz =
     (if sz < iFullDlyMrk cfg sdiv 2 \<or> inputTerm then [belowFullDlyWtrMrk] else [])
     @ (if sz < iLightDlyMrk cfg sdiv 2 then [belowLightDlyWtrMrk] else []) @ [notFull]"

definition DequeueConsumable :: "'s qops \<Rightarrow> qcfg \<Rightarrow> bool \<Rightarrow> batch_t \<Rightarrow> 's qqueue \<Rightarrow> 's waits
    \<Rightarrow> (cond list \<times> batch_t \<times> 's qqueue \<times> 's waits) option" where
  "DequeueConsumable ops cfg inputTerm b q ws =
     map_option (\<lambda>(b1, q1, ws1, sz). (wakeups cfg inputTerm sz, b1, q1, ws1))
       (DequeueConsumableElements ops cfg inputTerm b q ws)"

definition DequeueForConsumer :: "'s qops \<Rightarrow> qcfg \<Rightarrow> bool \<Rightarrow> batch_t \<Rightarrow> 's qqueue \<Rightarrow> 's waits
    \<Rightarrow> (rsRetVal \<times> cond list \<times> batch_t \<times> 's qqueue \<times> 's waits) option" where
  "DequeueForConsumer ops cfg inputTerm b q ws =
     map_option (\<lambda>(sig, b1, q1, ws1). (if nElem b1 = 0 then RS_RET_IDLE else RS_RET_OK, sig, b1, q1, ws1))
       (DequeueConsumable ops cfg inputTerm b q ws)"

definition batchProcessed :: "'s qops \<Rightarrow> qcfg \<Rightarrow> bool \<Rightarrow> batch_t \<Rightarrow> 's qqueue \<Rightarrow> 's waits
    \<Rightarrow> (batch_t \<times> 's qqueue \<times> 's waits) option" where
  "batchProcessed ops cfg inputTerm b q ws = DeleteProcessedBatch ops cfg inputTerm b q ws"

section \<open>Draining the queue\<close>

text \<open>The messages that are destructed, and the queue.\<close>

function queueDrain :: "'s qops \<Rightarrow> 's qqueue \<Rightarrow> smsg list \<times> 's qqueue" where
  "queueDrain ops q =
     (let q1 = q\<lparr>iQueueSize := iQueueSize q - 1\<rparr>
      in if iQueueSize q1 > 0
         then (case qDeq ops (qstore q1) of (m, s) \<Rightarrow>
           case queueDrain ops (q1\<lparr>qstore := qDel ops s\<rparr>) of (ms, q2) \<Rightarrow>
             ((case m of None \<Rightarrow> ms | Some m \<Rightarrow> m # ms), q2))
         else ([], q1))"
  by pat_completeness auto
termination
  by (relation "measure (\<lambda>(ops, q). nat (iQueueSize q))") auto

declare deq_loop.simps [simp del] queueDrain.simps [simp del]

section \<open>What the queue holds\<close>

text \<open>The queue's counters agree with the lists its store represents, and the to-delete list is empty.\<close>

definition queue_rel :: "('s \<Rightarrow> smsg list \<Rightarrow> smsg list \<Rightarrow> bool) \<Rightarrow> 's qqueue \<Rightarrow> smsg list \<Rightarrow> smsg list \<Rightarrow> bool" where
  "queue_rel rel q ds ps \<longleftrightarrow> rel (qstore q) ds ps \<and> iQueueSize q = int (length ds + length ps)
     \<and> nLogDeq q = int (length ds) \<and> toDeleteLst q = []"

definition queue_within :: "nat \<Rightarrow> ('s \<Rightarrow> smsg list \<Rightarrow> smsg list \<Rightarrow> bool) \<Rightarrow> 's qqueue \<Rightarrow> bool" where
  "queue_within cap rel q \<longleftrightarrow> (\<exists>ds ps. queue_rel rel q ds ps \<and> length ds + length ps \<le> cap)"

lemma queue_within_counters:
  "queue_within cap rel q \<Longrightarrow> queue_within cap rel (hit_full q)"
  "queue_within cap rel q \<Longrightarrow> queue_within cap rel (drop_full q)"
  by (simp_all add: queue_within_def queue_rel_def hit_full_def drop_full_def)

lemma full_delay_wait_inv:
  "full_delay_wait cfg t q ws = Some (q1, ws1) \<Longrightarrow> P q \<Longrightarrow> \<forall>w \<in> set ws. P (snd w)
    \<Longrightarrow> P q1 \<and> set ws1 \<subseteq> set ws"
  by (induction cfg t q ws rule: full_delay_wait.induct) (auto split: if_splits)

lemma flow_control_inv:
  "flow_control cfg t f q ws = Some (q1, ws1) \<Longrightarrow> P q \<Longrightarrow> \<forall>w \<in> set ws. P (snd w)
    \<Longrightarrow> P q1 \<and> set ws1 \<subseteq> set ws"
  by (auto simp: flow_control_def dest: full_delay_wait_inv [where P = P] split: if_splits list.splits)

lemma not_full_wait_inv:
  assumes "not_full_wait cfg t q ws = Some (r, q1, ws1)" "P q" "\<forall>w \<in> set ws. P (snd w)"
    and "\<And>q. P q \<Longrightarrow> P (hit_full q)" "\<And>q. P q \<Longrightarrow> P (drop_full q)"
  shows "P q1 \<and> set ws1 \<subseteq> set ws \<and> r \<in> {RS_RET_OK, RS_RET_QUEUE_FULL, RS_RET_FORCE_TERM}
    \<and> (r = RS_RET_OK \<longrightarrow> \<not> queue_full cfg q1)"
  using assms by (induction cfg t q ws rule: not_full_wait.induct) (auto split: if_splits)

text \<open>A call returns if one of the waits ends with the queue below the full delay mark and not full.\<close>

definition relieves :: "qcfg \<Rightarrow> 's qqueue \<Rightarrow> bool" where
  "relieves cfg q \<longleftrightarrow> iQueueSize q < iFullDlyMrk cfg \<and> \<not> queue_full cfg q"

lemma full_delay_wait_returns:
  "list_ex (\<lambda>w. relieves cfg (snd w)) ws \<Longrightarrow>
    \<exists>q1 ws1. full_delay_wait cfg t q ws = Some (q1, ws1) \<and> (\<not> queue_full cfg q1 \<or> (list_ex (\<lambda>w. relieves cfg (snd w)) ws1))"
proof (induction ws arbitrary: q)
  case (Cons w ws)
  obtain r q1 where w: "w = (r, q1)"
    by fastforce
  show ?case
  proof (cases "iFullDlyMrk cfg \<le> iQueueSize q \<and> \<not> t \<and> r \<noteq> CondError \<and> relieves cfg q1")
    case True
    then show ?thesis
      by (cases ws) (auto simp: w relieves_def)
  qed (use Cons.IH [of q1] Cons.prems w in \<open>auto simp: relieves_def\<close>)
qed simp

lemma not_full_wait_returns:
  "\<not> queue_full cfg q \<or> (list_ex (\<lambda>w. \<not> queue_full cfg (snd w)) ws) \<Longrightarrow> not_full_wait cfg t q ws \<noteq> None"
proof (induction ws arbitrary: q)
  case (Cons w ws)
  obtain r q1 where "w = (r, q1)"
    by fastforce
  with Cons.IH [of q1] Cons.prems show ?case
    by auto
qed auto

lemma flow_control_returns:
  assumes "list_ex (\<lambda>w. relieves cfg (snd w)) ws"
  shows "\<exists>q1 ws1. flow_control cfg t f q ws = Some (q1, ws1) \<and> (\<not> queue_full cfg q1 \<or> (list_ex (\<lambda>w. relieves cfg (snd w)) ws1))"
  using assms full_delay_wait_returns [OF assms]
  by (cases ws) (auto simp: flow_control_def relieves_def)

text \<open>(C28) A call that enqueues a message does not block for ever if the queue drains: if one of the
  waits ends with the queue below the full delay mark and not full, then the call returns, whatever
  the flow control type of the message and the results of the other waits.\<close>

theorem doEnqSingleObj_returns:
  assumes "list_ex (\<lambda>w. relieves cfg (snd w)) ws"
  shows "doEnqSingleObj ops cfg inputTerm f m q ws \<noteq> None"
proof -
  obtain r1 q1 where chk: "qqueueChkDiscardMsg cfg (iQueueSize q) m (q\<lparr>ctrEnqueued := ctrEnqueued q + 1\<rparr>) = (r1, q1)"
    by fastforce
  obtain q2 ws2 where flow: "flow_control cfg inputTerm (if takeFlowCtlFromMsg cfg then flowCtlType m else f) q1 ws
      = Some (q2, ws2)" and "\<not> queue_full cfg q2 \<or> (list_ex (\<lambda>w. relieves cfg (snd w)) ws2)"
    using flow_control_returns [OF assms] by blast
  then obtain r q3 ws3 where "not_full_wait cfg inputTerm q2 ws2 = Some (r, q3, ws3)"
    using not_full_wait_returns [of cfg q2 ws2 inputTerm] by (fastforce simp: relieves_def list_ex_iff)
  with chk flow show ?thesis
    unfolding doEnqSingleObj_def by (simp only: option.case prod.case Let_def) simp
qed

section \<open>Enqueueing and deleting over any driver\<close>

definition discards :: "qcfg \<Rightarrow> int \<Rightarrow> smsg \<Rightarrow> bool" where
  "discards cfg sz m \<longleftrightarrow> iDiscardMrk cfg > 0 \<and> sz \<ge> iDiscardMrk cfg \<and> uint (iSeverity m) \<ge> iDiscardSeverity cfg"

lemma qqueueChkDiscardMsg_eq: "qqueueChkDiscardMsg cfg sz m q =
   (if discards cfg sz m then (RS_RET_QUEUE_FULL, q\<lparr>ctrNFDscrd := ctrNFDscrd q + 1\<rparr>) else (RS_RET_OK, q))"
  by (simp add: qqueueChkDiscardMsg_def discards_def MsgGetSeverity_def)

lemma queue_rel_counters [simp]:
  "queue_rel rel (q\<lparr>ctrNFDscrd := a\<rparr>) ds ps = queue_rel rel q ds ps"
  "queue_rel rel (q\<lparr>ctrEnqueued := b\<rparr>) ds ps = queue_rel rel q ds ps"
  "queue_rel rel (q\<lparr>ctrMaxqsize := c\<rparr>) ds ps = queue_rel rel q ds ps"
  "queue_rel rel (q\<lparr>deqIDAdd := d\<rparr>) ds ps = queue_rel rel q ds ps"
  by (simp_all add: queue_rel_def)

lemma queue_within_counters' [simp]:
  "queue_within cap rel (q\<lparr>ctrNFDscrd := a\<rparr>) = queue_within cap rel q"
  "queue_within cap rel (q\<lparr>ctrEnqueued := b\<rparr>) = queue_within cap rel q"
  by (simp_all add: queue_within_def)

text \<open>A message that is enqueued with \<open>k\<close> messages in the store is neither discarded, sampled out,
  delayed nor dropped.\<close>

definition accepts :: "qcfg \<Rightarrow> nat \<Rightarrow> bool" where
  "accepts cfg k \<longleftrightarrow> iSmpInterval cfg \<le> 0 \<and> \<not> takeFlowCtlFromMsg cfg
     \<and> int k < iMaxQueueSize cfg \<and> (iDiscardMrk cfg \<le> 0 \<or> int k < iDiscardMrk cfg)"

context queue_store
begin

lemma qqueueAdd_rel:
  assumes "queue_rel rel q ds ps" "room (length ds + length ps)"
  shows "queue_rel rel (qqueueAdd ops cfg m q) ds (ps @ [m]) \<or>
    iSmpInterval cfg > 0 \<and> queue_rel rel (qqueueAdd ops cfg m q) ds ps"
  using assms rel_add [of "qstore q" ds ps m] by (auto simp: qqueueAdd_def queue_rel_def Let_def)

lemma doEnqSingleObj_keeps:
  assumes "doEnqSingleObj ops cfg t f m q ws = Some (r, q1, ws1)"
    and "queue_within cap rel q" "\<forall>w \<in> set ws. queue_within cap rel (snd w)"
    and "iMaxQueueSize cfg = int cap" "0 < cap" "\<And>k. k < cap \<Longrightarrow> room k"
  shows "queue_within cap rel q1 \<and> set ws1 \<subseteq> set ws \<and> r \<in> {RS_RET_OK, RS_RET_QUEUE_FULL, RS_RET_FORCE_TERM}
    \<and> (r = RS_RET_OK \<and> iSmpInterval cfg \<le> 0 \<longrightarrow> (\<exists>ds ps. queue_rel rel q1 ds (ps @ [m])))"
proof (cases "discards cfg (iQueueSize q) m")
  case True
  then show ?thesis
    using assms(1,2) by (auto simp: doEnqSingleObj_def qqueueChkDiscardMsg_eq)
next
  case False
  let ?q0 = "q\<lparr>ctrEnqueued := ctrEnqueued q + 1\<rparr>" and ?f = "if takeFlowCtlFromMsg cfg then flowCtlType m else f"
  obtain q2 ws2 r3 q3 ws3 where f: "flow_control cfg t ?f ?q0 ws = Some (q2, ws2)"
      and n: "not_full_wait cfg t q2 ws2 = Some (r3, q3, ws3)"
      and res: "(r, q1, ws1) = (if r3 \<noteq> RS_RET_OK then (r3, q3, ws3)
        else let q4 = qqueueAdd ops cfg m q3 in (RS_RET_OK, q4\<lparr>ctrMaxqsize := max (ctrMaxqsize q4) (iQueueSize q4)\<rparr>, ws3))"
    using assms(1) False unfolding doEnqSingleObj_def qqueueChkDiscardMsg_eq
    by (auto split: option.splits if_splits simp: Let_def)
  have "queue_within cap rel ?q0"
    using assms(2) by (simp add: queue_within_def)
  note flow = flow_control_inv [OF f this assms(3)]
  have "\<forall>w \<in> set ws2. queue_within cap rel (snd w)"
    using flow assms(3) by blast
  note wait = not_full_wait_inv [OF n conjunct1 [OF flow] this queue_within_counters]
  show ?thesis
  proof (cases "r3 = RS_RET_OK")
    case True
    then obtain ds ps where q3: "queue_rel rel q3 ds ps" "length ds + length ps < cap"
      using wait assms(4,5) unfolding queue_within_def queue_full_def queue_rel_def by auto
    from qqueueAdd_rel [OF q3(1) assms(6) [OF q3(2)], of cfg m]
    have "queue_rel rel q1 ds (ps @ [m]) \<or> iSmpInterval cfg > 0 \<and> queue_rel rel q1 ds ps"
      using res True by (simp add: Let_def)
    moreover have "length ds + length (ps @ [m]) \<le> cap"
      using q3(2) by simp
    ultimately have "queue_within cap rel q1" "iSmpInterval cfg \<le> 0 \<longrightarrow> (\<exists>ds ps. queue_rel rel q1 ds (ps @ [m]))"
      unfolding queue_within_def by (meson add_leD1 less_imp_le q3(2) not_less)+
    with True res flow wait show ?thesis
      by (auto simp: Let_def)
  qed (use res flow wait in auto)
qed

lemma reenqueue_keeps:
  assumes "reenqueue ops cfg t es q ws = Some (q1, ws1)"
    and "queue_within cap rel q" "\<forall>w \<in> set ws. queue_within cap rel (snd w)"
    and "iMaxQueueSize cfg = int cap" "0 < cap" "\<And>k. k < cap \<Longrightarrow> room k"
  shows "queue_within cap rel q1 \<and> set ws1 \<subseteq> set ws"
  using assms
proof (induction es arbitrary: q ws)
  case (Cons e es)
  show ?case
  proof (cases "unprocessed e")
    case True
    then obtain r q2 ws2 where e: "doEnqSingleObj ops cfg t eFLOWCTL_NO_DELAY (fst e) q ws = Some (r, q2, ws2)"
        "reenqueue ops cfg t es q2 ws2 = Some (q1, ws1)"
      using Cons.prems(1) by (auto split: option.splits)
    have "queue_within cap rel q2 \<and> set ws2 \<subseteq> set ws"
      using doEnqSingleObj_keeps [OF e(1) Cons.prems(2,3) assms(4,5,6)] by blast
    then show ?thesis
      using Cons.IH [OF e(2)] Cons.prems(3) assms(4-6) by blast
  qed (use Cons in auto)
qed auto

lemma doEnqSingleObj_accepts:
  assumes "queue_rel rel q ds ps" "accepts cfg (length ds + length ps)" "room (length ds + length ps)"
  shows "\<exists>q1. doEnqSingleObj ops cfg t eFLOWCTL_NO_DELAY m q ws = Some (RS_RET_OK, q1, ws)
    \<and> queue_rel rel q1 ds (ps @ [m])"
proof -
  let ?q0 = "q\<lparr>ctrEnqueued := ctrEnqueued q + 1\<rparr>"
  have q0: "queue_rel rel ?q0 ds ps" "\<not> discards cfg (iQueueSize q) m" "\<not> queue_full cfg ?q0"
    using assms(1,2) by (auto simp: discards_def accepts_def queue_rel_def queue_full_def)
  have "not_full_wait cfg t ?q0 ws = Some (RS_RET_OK, ?q0, ws)"
    using q0(3) by (cases ws) auto
  moreover have "queue_rel rel (qqueueAdd ops cfg m ?q0) ds (ps @ [m])"
    using qqueueAdd_rel [OF q0(1) assms(3), of cfg m] assms(2) by (auto simp: accepts_def)
  ultimately show ?thesis
    using q0(2) assms(2)
    by (simp add: doEnqSingleObj_def qqueueChkDiscardMsg_eq flow_control_def accepts_def Let_def)
qed

lemma reenqueue_accepts:
  assumes "queue_rel rel q ds ps"
    and "\<And>i. i < length (filter unprocessed es) \<Longrightarrow> accepts cfg (length ds + length ps + i) \<and> room (length ds + length ps + i)"
  shows "\<exists>q1. reenqueue ops cfg t es q ws = Some (q1, ws)
    \<and> queue_rel rel q1 ds (ps @ map fst (filter unprocessed es))"
  using assms
proof (induction es arbitrary: q ps)
  case (Cons e es)
  show ?case
  proof (cases "unprocessed e")
    case True
    have "accepts cfg (length ds + length ps)" "room (length ds + length ps)"
      using Cons.prems(2) [of 0] True by auto
    from doEnqSingleObj_accepts [OF Cons.prems(1) this] obtain q1 where
      q1: "doEnqSingleObj ops cfg t eFLOWCTL_NO_DELAY (fst e) q ws = Some (RS_RET_OK, q1, ws)"
        "queue_rel rel q1 ds (ps @ [fst e])"
      by blast
    have "accepts cfg (length ds + length (ps @ [fst e]) + i) \<and> room (length ds + length (ps @ [fst e]) + i)"
      if "i < length (filter unprocessed es)" for i
      using Cons.prems(2) [of "Suc i"] True that by simp
    from Cons.IH [OF q1(2) this] q1(1) True show ?thesis
      by simp
  qed (use Cons in auto)
qed simp

lemma qDel_rel: "rel s ds ps \<Longrightarrow> n \<le> length ds \<Longrightarrow> rel ((qDel ops ^^ n) s) (drop n ds) ps"
proof (induction n)
  case (Suc n)
  then have "rel ((qDel ops ^^ n) s) (ds ! n # drop (Suc n) ds) ps"
    by (simp add: Cons_nth_drop_Suc)
  then show ?case
    by (simp add: rel_del)
qed simp

lemma DoDeleteBatchFromQStore_rel:
  "queue_rel rel q ds ps \<Longrightarrow> n \<le> length ds
    \<Longrightarrow> queue_rel rel (DoDeleteBatchFromQStore ops (int n) q) (drop n ds) ps"
  using qDel_rel [of "qstore q" ds ps n] by (auto simp: queue_rel_def DoDeleteBatchFromQStore_def)

lemma DeleteBatchFromQStore_rel:
  "queue_rel rel q ds ps \<Longrightarrow> length (pElem b) \<le> length ds
    \<Longrightarrow> queue_rel rel (DeleteBatchFromQStore ops b q) (drop (length (pElem b)) ds) ps"
  by (simp add: DeleteBatchFromQStore_def tdlPeek_def DoDeleteBatchFromQStore_rel nElem_def queue_rel_def [of _ q])

lemma DeleteProcessedBatch_accepts:
  assumes "queue_rel rel q ds ps" "length (pElem b) \<le> length ds"
    and "\<And>i. i < length (filter unprocessed (pElem b)) \<Longrightarrow>
      accepts cfg (length ds + length ps + i) \<and> room (length ds + length ps + i)"
  shows "\<exists>q1. DeleteProcessedBatch ops cfg t b q ws = Some (b\<lparr>pElem := [], nElemDeq := 0\<rparr>, q1, ws)
    \<and> queue_rel rel q1 (drop (length (pElem b)) ds) (ps @ map fst (filter unprocessed (pElem b)))"
  using reenqueue_accepts [OF assms(1,3), where t = t and ws = ws] DeleteBatchFromQStore_rel [OF _ assms(2)]
  by (fastforce simp: DeleteProcessedBatch_def)

end

section \<open>Dequeueing over any driver\<close>

text \<open>How many pending messages a dequeue takes: until \<open>k\<close> of them are kept.\<close>

fun consume :: "('a \<Rightarrow> bool) \<Rightarrow> nat \<Rightarrow> 'a list \<Rightarrow> 'a list \<times> 'a list" where
  "consume keep k [] = ([], [])"
| "consume keep 0 (p # ps) = ([], p # ps)"
| "consume keep (Suc k) (p # ps) =
     (let (c, r) = consume keep (if keep p then k else Suc k) ps in (p # c, r))"

lemma consume_append: "consume keep k ps = (c, r) \<Longrightarrow> ps = c @ r"
  by (induction keep k ps arbitrary: c r rule: consume.induct) (auto split: prod.splits)

lemma consume_length: "consume keep k ps = (c, r) \<Longrightarrow> length (filter keep c) \<le> k"
  by (induction keep k ps arbitrary: c r rule: consume.induct) (auto split: prod.splits if_splits)

lemma consume_rest: "consume keep k ps = (c, r) \<Longrightarrow> r = [] \<or> length (filter keep c) = k"
  by (induction keep k ps arbitrary: c r rule: consume.induct) (auto split: prod.splits if_splits)

context queue_store
begin

lemma qqueueDeq_rel:
  assumes "queue_rel rel q ds (m # ps)"
  shows "fst (qqueueDeq ops q) = Some m \<and> queue_rel rel (snd (qqueueDeq ops q)) (ds @ [m]) ps"
  using rel_deq [of "qstore q" ds m ps] assms by (auto simp: queue_rel_def qqueueDeq_def)

lemma deq_loop_rel:
  assumes "queue_rel rel q ds ps"
    and "consume (\<lambda>m. \<not> discards cfg (int (length ds + length ps)) m) (nat (iDeqBatchSize cfg - int (length acc))) ps = (c, r)"
  shows "\<exists>q1. deq_loop ops cfg q acc n
      = Some (acc @ filter (\<lambda>m. \<not> discards cfg (int (length ds + length ps)) m) c,
          n + int (length (filter (discards cfg (int (length ds + length ps))) c)), q1)
    \<and> queue_rel rel q1 (ds @ c) r"
  using assms
proof (induction ps arbitrary: q ds acc n c)
  case Nil
  then show ?case
    by (subst deq_loop.simps) (simp add: getLogicalQueueSize_def queue_rel_def)
next
  case (Cons m ps)
  let ?N = "int (length ds + length (m # ps))"
  have N: "int (length (ds @ [m]) + length ps) = ?N" and sz: "iQueueSize q = ?N" "getLogicalQueueSize q > 0"
    using Cons.prems(1) by (auto simp: queue_rel_def getLogicalQueueSize_def)
  show ?case
  proof (cases "int (length acc) < iDeqBatchSize cfg")
    case False
    with Cons.prems show ?thesis
      by (subst deq_loop.simps) (auto simp: getLogicalQueueSize_def queue_rel_def)
  next
    case True
    define k where "k = nat (iDeqBatchSize cfg - int (length acc) - 1)"
    have k: "nat (iDeqBatchSize cfg - int (length acc)) = Suc k" "nat (iDeqBatchSize cfg - int (length (acc @ [m]))) = k"
      using True by (auto simp: k_def)
    define q1 where "q1 = snd (qqueueDeq ops q)"
    have q1: "fst (qqueueDeq ops q) = Some m" "queue_rel rel q1 (ds @ [m]) ps" "iQueueSize q1 = ?N"
      using qqueueDeq_rel [OF Cons.prems(1)] sz(1) by (auto simp: q1_def)
    obtain c' where c: "c = m # c'"
        "consume (\<lambda>m. \<not> discards cfg ?N m) (if discards cfg ?N m then Suc k else k) ps = (c', r)"
      using Cons.prems(2) unfolding k(1) by (auto split: prod.splits if_splits)
    have step: "deq_loop ops cfg q acc n =
        (if discards cfg ?N m then deq_loop ops cfg (q1\<lparr>ctrNFDscrd := ctrNFDscrd q1 + 1\<rparr>) acc (n + 1)
         else deq_loop ops cfg q1 (acc @ [m]) n)"
      by (subst deq_loop.simps)
        (use True sz q1 in \<open>simp add: q1_def [symmetric] qqueueChkDiscardMsg_eq\<close>)
    show ?thesis
    proof (cases "discards cfg ?N m")
      case True
      then show ?thesis
        using Cons.IH [of "q1\<lparr>ctrNFDscrd := ctrNFDscrd q1 + 1\<rparr>" "ds @ [m]" acc c' "n + 1"] q1(2) c k(1) N
        unfolding step by (simp add: ac_simps)
    next
      case False
      then show ?thesis
        using Cons.IH [of q1 "ds @ [m]" "acc @ [m]" c' n] q1(2) c k(2) N unfolding step by simp
    qed
  qed
qed

lemma DequeueConsumableElements_rel:
  assumes "DeleteProcessedBatch ops cfg t b q ws = Some (b1, q1, ws1)" "queue_rel rel q1 ds ps"
    and "consume (\<lambda>m. \<not> discards cfg (int (length ds + length ps)) m) (nat (iDeqBatchSize cfg)) ps = (c, r)"
  shows "\<exists>b2 q2. DequeueConsumableElements ops cfg t b q ws = Some (b2, q2, ws1, int (length r))
    \<and> queue_rel rel q2 (ds @ c) r
    \<and> pElem b2 = map (\<lambda>m. (m, BATCH_STATE_RDY)) (filter (\<lambda>m. \<not> discards cfg (int (length ds + length ps)) m) c)
    \<and> nElemDeq b2 = int (length c)"
proof -
  obtain q3 where "deq_loop ops cfg q1 [] 0
      = Some (filter (\<lambda>m. \<not> discards cfg (int (length ds + length ps)) m) c,
          int (length (filter (discards cfg (int (length ds + length ps))) c)), q3)"
      and q3: "queue_rel rel q3 (ds @ c) r"
    using deq_loop_rel [OF assms(2), of cfg "[]" c r 0] assms(3) by auto
  moreover have "getLogicalQueueSize q3 = int (length r)"
    using q3 by (simp add: getLogicalQueueSize_def queue_rel_def)
  moreover have "int (length (filter (\<lambda>m. \<not> discards cfg z m) c)) + int (length (filter (discards cfg z) c)) = int (length c)" for z
    using sum_length_filter_compl [of "discards cfg z" c] by simp
  ultimately show ?thesis
    using assms(1) by (auto simp: DequeueConsumableElements_def getNextDeqID_def)
qed

text \<open>The queue's destructor on a queue whose batches are all deleted.\<close>

lemma queueDrain_rel:
  "rel (qstore q) [] ps \<Longrightarrow> iQueueSize q = int (length ps) \<Longrightarrow> ps \<noteq> [] \<Longrightarrow>
    fst (queueDrain ops q) = butlast ps \<and> rel (qstore (snd (queueDrain ops q))) [] [last ps]"
proof (induction ps arbitrary: q)
  case (Cons m ps)
  obtain s where s: "qDeq ops (qstore q) = (Some m, s)" "rel s [m] ps"
    using rel_deq [OF Cons.prems(1)] by auto
  show ?case
  proof (cases "ps = []")
    case True
    with Cons.prems show ?thesis
      by (subst (1 2) queueDrain.simps) simp
  next
    case False
    let ?q = "q\<lparr>iQueueSize := iQueueSize q - 1, qstore := qDel ops s\<rparr>"
    have "queueDrain ops q = (case queueDrain ops ?q of (ms, q2) \<Rightarrow> (m # ms, q2))"
      by (subst queueDrain.simps) (use s Cons.prems False in simp)
    moreover have "rel (qstore ?q) [] ps" "iQueueSize ?q = int (length ps)"
      using rel_del [OF s(2)] Cons.prems(2) by simp_all
    ultimately show ?thesis
      using Cons.IH [of ?q] False by (simp split: prod.splits)
  qed
qed simp

end

context queue_store
begin

lemma multi_enq_keeps:
  assumes "multi_enq ops cfg t ms q ws = Some (r, q1, ws1)"
    and "queue_within cap rel q" "\<forall>w \<in> set ws. queue_within cap rel (snd w)"
    and "iMaxQueueSize cfg = int cap" "0 < cap" "\<And>k. k < cap \<Longrightarrow> room k"
  shows "queue_within cap rel q1 \<and> r \<in> {RS_RET_OK, RS_RET_FORCE_TERM}"
  using assms
proof (induction ms arbitrary: q ws)
  case (Cons m ms)
  obtain r2 q2 ws2 where e: "doEnqSingleObj ops cfg t (flowCtlType m) m q ws = Some (r2, q2, ws2)"
      "(if r2 \<noteq> RS_RET_OK \<and> r2 \<noteq> RS_RET_QUEUE_FULL then Some (r2, q2, ws2)
        else multi_enq ops cfg t ms q2 ws2) = Some (r, q1, ws1)"
    using Cons.prems(1) by (auto split: option.splits)
  have keep: "queue_within cap rel q2" "set ws2 \<subseteq> set ws" "r2 \<in> {RS_RET_OK, RS_RET_QUEUE_FULL, RS_RET_FORCE_TERM}"
    using doEnqSingleObj_keeps [OF e(1) Cons.prems(2,3) assms(4,5,6)] by blast+
  have "\<forall>w \<in> set ws2. queue_within cap rel (snd w)"
    using keep(2) Cons.prems(3) by blast
  with Cons.IH [OF _ keep(1)] e(2) keep assms(4-6) show ?case
    by (auto split: if_splits)
qed auto

end

section \<open>Properties of the queue\<close>

text \<open>(C10) Enqueueing never writes outside the fixed array and keeps the queue consistent: if the queue
  and every state in which a wait returns it hold at most \<open>n\<close> messages with counters that agree with
  the store, then so does the queue after a call that submits several messages, whatever waits,
  discards, drops and termination happen on the way; and the call itself reports success or forced
  termination.\<close>

theorem enqueue_stays_within_array:
  assumes "qqueueMultiEnqObjNonDirect (farray_ops n) cfg inputTerm ms q ws = Some (r, adv, q1, ws1)"
    and "queue_within n (farray_rel n) q" "\<forall>w \<in> set ws. queue_within n (farray_rel n) (snd w)"
    and "iMaxQueueSize cfg = int n" "0 < n"
  shows "queue_within n (farray_rel n) q1 \<and> r \<in> {RS_RET_OK, RS_RET_FORCE_TERM}"
  using assms fa.multi_enq_keeps [of n cfg inputTerm ms q ws r q1 ws1 n]
  by (auto simp: qqueueMultiEnqObjNonDirect_def)

text \<open>(C27) A message accepted by the linked-list queue is the last pending message: when the call that
  enqueues it returns success and sampling is off, the queue's pending messages end with it, and the
  queue holds at most \<open>iMaxQueueSize\<close> messages. Otherwise the result is that the queue is full or that
  termination is forced.\<close>

theorem enqueued_is_last:
  assumes "doEnqSingleObj linklist_ops cfg inputTerm f m q ws = Some (r, q1, ws1)"
    and "queue_within n linklist_rel q" "\<forall>w \<in> set ws. queue_within n linklist_rel (snd w)"
    and "iMaxQueueSize cfg = int n" "0 < n" "iSmpInterval cfg \<le> 0"
  shows "(if r = RS_RET_OK then \<exists>ds ps. queue_rel linklist_rel q1 ds (ps @ [m])
     else r = RS_RET_QUEUE_FULL \<or> r = RS_RET_FORCE_TERM) \<and> queue_within n linklist_rel q1"
  using assms ll.doEnqSingleObj_keeps [OF assms(1-5)] by auto

text \<open>(C7) One round of a worker loses no message and keeps their order. The worker hands back its
  processed batch, whose messages are the oldest dequeued ones; the unprocessed ones among them go
  to the end of the queue, their slots are freed, and the new batch takes the oldest pending
  messages in order, leaving out only those the discard mark tells to discard, until it has
  \<open>iDeqBatchSize\<close> messages or nothing is pending. The count of dequeued messages includes the
  discarded ones.\<close>

theorem worker_round:
  assumes "queue_rel (farray_rel n) q ds ps" "length (pElem b) \<le> length ds"
    and "\<And>i. i < length (filter unprocessed (pElem b)) \<Longrightarrow>
      accepts cfg (length ds + length ps + i) \<and> length ds + length ps + i < n"
    and "ds' = drop (length (pElem b)) ds" "ps' = ps @ map fst (filter unprocessed (pElem b))"
    and "keep = (\<lambda>m. \<not> discards cfg (int (length ds' + length ps')) m)"
  shows "\<exists>b2 q2 c r. DequeueConsumableElements (farray_ops n) cfg inputTerm b q ws = Some (b2, q2, ws, int (length r))
    \<and> queue_rel (farray_rel n) q2 (ds' @ c) r \<and> ps' = c @ r
    \<and> pElem b2 = map (\<lambda>m. (m, BATCH_STATE_RDY)) (filter keep c) \<and> nElemDeq b2 = int (length c)
    \<and> length (pElem b2) \<le> nat (iDeqBatchSize cfg) \<and> (r = [] \<or> length (pElem b2) = nat (iDeqBatchSize cfg))"
proof -
  obtain q1 where q1: "DeleteProcessedBatch (farray_ops n) cfg inputTerm b q ws = Some (b\<lparr>pElem := [], nElemDeq := 0\<rparr>, q1, ws)"
      "queue_rel (farray_rel n) q1 ds' ps'"
    using fa.DeleteProcessedBatch_accepts [OF assms(1,2,3)] assms(4,5) by metis
  obtain c r where c: "consume keep (nat (iDeqBatchSize cfg)) ps' = (c, r)"
    by fastforce
  from fa.DequeueConsumableElements_rel [OF q1 c [unfolded assms(6)]] consume_append [OF c]
    consume_length [OF c] consume_rest [OF c] show ?thesis
    unfolding assms(6) by fastforce
qed

text \<open>Messages discarded during a dequeue keep their slots for ever. A queue with no batch
  outstanding is dequeued, and the batch is fully processed and given back: afterwards the queue
  still counts every discarded message as dequeued but not deleted, because
  \<open>DeleteBatchFromQStore\<close> deletes \<open>nElem\<close> and not \<open>nElemDeq\<close> messages. The physical size exceeds
  the number of pending messages by the number of discarded ones.\<close>

theorem discarded_messages_keep_slots:
  assumes "queue_rel (farray_rel n) q [] ps" "pElem b = []"
    and "DequeueConsumableElements (farray_ops n) cfg inputTerm b q ws = Some (b1, q1, ws1, sz)"
    and "length (pElem b2) = length (pElem b1)" "\<forall>e \<in> set (pElem b2). \<not> unprocessed e"
  shows "\<exists>b3 q2. batchProcessed (farray_ops n) cfg inputTerm b2 q1 ws1 = Some (b3, q2, ws1)
    \<and> nLogDeq q2 = nElemDeq b1 - nElem b1 \<and> iQueueSize q2 = sz + (nElemDeq b1 - nElem b1)"
proof -
  obtain c r where c: "consume (\<lambda>m. \<not> discards cfg (int (length ps)) m) (nat (iDeqBatchSize cfg)) ps = (c, r)"
    by fastforce
  have "DeleteProcessedBatch (farray_ops n) cfg inputTerm b q ws
      = Some (b\<lparr>pElem := [], nElemDeq := 0\<rparr>, DeleteBatchFromQStore (farray_ops n) b q, ws)"
    using assms(2) by (simp add: DeleteProcessedBatch_def)
  moreover have "queue_rel (farray_rel n) (DeleteBatchFromQStore (farray_ops n) b q) [] ps"
    using fa.DeleteBatchFromQStore_rel [OF assms(1), of b] assms(2) by simp
  ultimately have q1: "queue_rel (farray_rel n) q1 c r" "sz = int (length r)" "nElemDeq b1 = int (length c)"
      "length (pElem b1) \<le> length c"
    using fa.DequeueConsumableElements_rel [of n cfg inputTerm b q ws _ _ ws "[]" ps c r] c assms(3)
      length_filter_le by fastforce+
  have "reenqueue (farray_ops n) cfg inputTerm es q1 ws1 = Some (q1, ws1)" if "\<forall>e \<in> set es. \<not> unprocessed e" for es
    using that by (induction es) auto
  then have "batchProcessed (farray_ops n) cfg inputTerm b2 q1 ws1
      = Some (b2\<lparr>pElem := [], nElemDeq := 0\<rparr>, DeleteBatchFromQStore (farray_ops n) b2 q1, ws1)"
    using assms(5) by (simp add: batchProcessed_def DeleteProcessedBatch_def)
  moreover have "queue_rel (farray_rel n) (DeleteBatchFromQStore (farray_ops n) b2 q1) (drop (length (pElem b2)) c) r"
    using fa.DeleteBatchFromQStore_rel [OF q1(1), of b2] q1(4) assms(4) by simp
  ultimately show ?thesis
    using q1(2-4) assms(4) by (auto simp: queue_rel_def nElem_def)
qed

text \<open>Draining the linked-list queue destructs every message but the last one, and leaves that
  message in the store: the loop decrements the size before it tests it. Nothing frees it later,
  as the destructor of the linked-list driver relies on the drain.\<close>

theorem queueDrain_leaves_last:
  assumes "queue_rel linklist_rel q [] ps" "ps \<noteq> []"
  shows "fst (queueDrain linklist_ops q) = butlast ps
    \<and> linklist_rel (qstore (snd (queueDrain linklist_ops q))) [] [last ps]"
  using ll.queueDrain_rel [of q ps] assms by (simp add: queue_rel_def)

section \<open>Examples\<close>

definition queue_with :: "'s \<Rightarrow> int \<Rightarrow> 's qqueue" where
  "queue_with s k = \<lparr>qstore = s, iQueueSize = k, nLogDeq = 0, deqIDAdd = 0, deqIDDel = 0, toDeleteLst = [],
     msgCnt = 0, ctrEnqueued = 0, ctrFull = 0, ctrFDscrd = 0, ctrNFDscrd = 0, ctrMaxqsize = 0\<rparr>"

definition cfg_example :: qcfg where
  "cfg_example = \<lparr>iMaxQueueSize = 3, iHighWtrMrk = 3, iLowWtrMrk = 1, iDiscardMrk = 2, iDiscardSeverity = 6,
     iFullDlyMrk = 2, iLightDlyMrk = 2, iNumWorkerThreads = 1, iMinMsgsPerWrkr = 3, iDeqBatchSize = 2, toEnq = 2000,
     iSmpInterval = 0, iDeqtWinFromHr = 0, iDeqtWinToHr = 25, bEnqOnly = False, bIsDA = False, takeFlowCtlFromMsg = False\<rparr>"

definition msg_err :: smsg where
  "msg_err = msgBaseConstruct\<lparr>iSeverity := 3\<rparr>"

definition msg_debug :: smsg where
  "msg_debug = msgBaseConstruct\<lparr>iSeverity := 7\<rparr>"

definition farray_example :: "farray qqueue" where
  "farray_example = queue_with \<lparr>pBuf = [Some msg_err, Some msg_debug, None], deqhead = 0, head = 0, tail = 2\<rparr> 2"

definition linklist_example :: "linklist qqueue" where
  "linklist_example = queue_with (qAddLinkedList msg_debug (qAddLinkedList msg_err qConstructLinkedList)) 2"

definition batch_empty :: batch_t where
  "batch_empty = \<lparr>pElem = [], nElemDeq = 0, deqID = 0\<rparr>"

lemma farray_example_rel: "queue_rel (farray_rel 3) farray_example [] [msg_err, msg_debug]"
  by (auto simp: queue_rel_def farray_rel_def farray_example_def queue_with_def less_Suc_eq)

lemma linklist_example_rel: "queue_rel linklist_rel linklist_example [] [msg_err, msg_debug]"
  using ll.rel_add [OF ll.rel_add [OF linklist_rel_construct], of msg_debug msg_err]
  by (simp add: queue_rel_def linklist_example_def queue_with_def linklist_ops_def)

lemma example_within:
  "queue_within 3 (farray_rel 3) farray_example" "queue_within 3 linklist_rel linklist_example"
  unfolding queue_within_def using farray_example_rel linklist_example_rel by force+

lemmas example_defs = farray_example_def linklist_example_def queue_with_def cfg_example_def batch_empty_def

lemmas enqueue_defs = doEnqSingleObj_def qqueueChkDiscardMsg_eq discards_def flow_control_def queue_full_def qqueueAdd_def

theorem doEnqSingleObj_returns_witness:
  "doEnqSingleObj (farray_ops 3) cfg_example False eFLOWCTL_FULL_DELAY msg_err farray_example
     [(CondTimedOut, farray_example), (CondSignalled, queue_with (qstore farray_example) 1)] \<noteq> None"
  using doEnqSingleObj_returns
    [of cfg_example "[(CondTimedOut, farray_example), (CondSignalled, queue_with (qstore farray_example) 1)]"]
  by (simp add: relieves_def queue_full_def example_defs)

theorem enqueue_stays_within_array_witness:
  "\<exists>r adv q1 ws1. qqueueMultiEnqObjNonDirect (farray_ops 3) cfg_example False [msg_err, msg_debug] farray_example []
      = Some (r, adv, q1, ws1) \<and> queue_within 3 (farray_rel 3) q1"
proof -
  obtain r adv q1 ws1 where
    "qqueueMultiEnqObjNonDirect (farray_ops 3) cfg_example False [msg_err, msg_debug] farray_example [] = Some (r, adv, q1, ws1)"
    by (simp add: qqueueMultiEnqObjNonDirect_def enqueue_defs example_defs msg_err_def msg_debug_def msgBaseConstruct_def)
  with enqueue_stays_within_array [OF this example_within(1)] show ?thesis
    by (simp add: cfg_example_def)
qed

theorem enqueued_is_last_witness:
  "\<exists>q1 ws1. doEnqSingleObj linklist_ops cfg_example False eFLOWCTL_NO_DELAY msg_err linklist_example []
      = Some (RS_RET_OK, q1, ws1) \<and> (\<exists>ds ps. queue_rel linklist_rel q1 ds (ps @ [msg_err]))"
proof -
  obtain q1 ws1 where
    "doEnqSingleObj linklist_ops cfg_example False eFLOWCTL_NO_DELAY msg_err linklist_example [] = Some (RS_RET_OK, q1, ws1)"
    by (simp add: enqueue_defs example_defs msg_err_def msgBaseConstruct_def)
  with enqueued_is_last [OF this example_within(2)] show ?thesis
    by (simp add: cfg_example_def)
qed

theorem worker_round_witness:
  "\<exists>b2 q2. DequeueConsumableElements (farray_ops 3) cfg_example False batch_empty farray_example [] = Some (b2, q2, [], 0)
    \<and> pElem b2 = [(msg_err, BATCH_STATE_RDY)] \<and> nElemDeq b2 = 2"
  using worker_round [OF farray_example_rel, of batch_empty cfg_example "[]" "[msg_err, msg_debug]" _ False "[]", OF _ _ _ _ refl]
  by (force simp: batch_empty_def cfg_example_def discards_def msg_err_def msg_debug_def msgBaseConstruct_def
      Cons_eq_append_conv)

theorem discarded_messages_keep_slots_witness:
  "\<exists>b1 q1 b3 q2. DequeueConsumableElements (farray_ops 3) cfg_example False batch_empty farray_example [] = Some (b1, q1, [], 0)
    \<and> batchProcessed (farray_ops 3) cfg_example False (b1\<lparr>pElem := [(msg_err, BATCH_STATE_COMM)]\<rparr>) q1 [] = Some (b3, q2, [])
    \<and> nLogDeq q2 = 1 \<and> iQueueSize q2 = 1"
proof -
  have del: "DeleteProcessedBatch (farray_ops 3) cfg_example False batch_empty farray_example []
      = Some (batch_empty, DeleteBatchFromQStore (farray_ops 3) batch_empty farray_example, [])"
    by (simp add: DeleteProcessedBatch_def batch_empty_def)
  have "queue_rel (farray_rel 3) (DeleteBatchFromQStore (farray_ops 3) batch_empty farray_example) [] [msg_err, msg_debug]"
    using fa.DeleteBatchFromQStore_rel [OF farray_example_rel, of batch_empty] by (simp add: batch_empty_def)
  moreover have "consume (\<lambda>m. \<not> discards cfg_example (int (length [] + length [msg_err, msg_debug])) m)
      (nat (iDeqBatchSize cfg_example)) [msg_err, msg_debug] = ([msg_err, msg_debug], [])"
    by (simp add: cfg_example_def discards_def msg_err_def msg_debug_def msgBaseConstruct_def numeral_2_eq_2)
  ultimately obtain b1 q1 where
    b1: "DequeueConsumableElements (farray_ops 3) cfg_example False batch_empty farray_example [] = Some (b1, q1, [], 0)"
      "pElem b1 = [(msg_err, BATCH_STATE_RDY)]" "nElemDeq b1 = 2"
    using fa.DequeueConsumableElements_rel [OF del]
    by (force simp: cfg_example_def discards_def msg_err_def msg_debug_def msgBaseConstruct_def)
  from discarded_messages_keep_slots [OF farray_example_rel _ b1(1), of "b1\<lparr>pElem := [(msg_err, BATCH_STATE_COMM)]\<rparr>"] b1
  show ?thesis
    by (auto simp: batch_empty_def unprocessed_def nElem_def)
qed

theorem queueDrain_leaves_last_witness:
  "fst (queueDrain linklist_ops linklist_example) = [msg_err]"
  using queueDrain_leaves_last [OF linklist_example_rel] by simp

section \<open>The to-delete list\<close>

text \<open>Adding the youngest batch to the to-delete list breaks the list's order: a new entry whose
  dequeue ID is above all others is put in front, although the list is to be kept sorted by ID.
  (The list stays empty in every run, as an entry is added only when there already is one.)\<close>

theorem tdlAdd_breaks_order:
  assumes "toDeleteLst q \<noteq> []" "\<forall>e \<in> set (toDeleteLst q). fst e < d"
  shows "toDeleteLst (tdlAdd d n q) = (d, n) # toDeleteLst q \<and> \<not> sorted (map fst (toDeleteLst (tdlAdd d n q)))"
proof -
  have "tdl_link d n l = None" if "\<forall>e \<in> set l. fst e < d" for l
    using that by (induction l) auto
  then have *: "toDeleteLst (tdlAdd d n q) = (d, n) # toDeleteLst q"
    using assms(2) by (simp add: tdlAdd_def)
  obtain e l where "toDeleteLst q = e # l"
    using assms(1) by (cases "toDeleteLst q") auto
  then show ?thesis
    unfolding * using assms(2) by auto
qed

theorem tdlAdd_breaks_order_witness:
  "map fst (toDeleteLst (tdlAdd 7 2 (farray_example\<lparr>toDeleteLst := [(5, 1)]\<rparr>))) = [7, 5]"
  using tdlAdd_breaks_order [of "farray_example\<lparr>toDeleteLst := [(5, 1)]\<rparr>" 7 2] by simp

end
