(* ===== verification/Queue_Params.thy ===== *)
theory Queue_Params
  imports Rs_Queue
begin

text \<open>
  Two computations of the queue object (\<open>runtime/queue.c\<close>): the delay of the dequeue time window
  (\<open>RateLimiter\<close>) and the correction of the configured parameters (\<open>qqueueCorrectParams\<close>, without
  the warnings it logs). Both are characterised by closed forms.
\<close>

section \<open>The dequeue time window\<close>

text \<open>The delay computed from the local hour, minute and second; the limiter sleeps if it is above 0.\<close>

definition RateLimiter_iDelay :: "qcfg \<Rightarrow> int \<Rightarrow> int \<Rightarrow> int \<Rightarrow> int" where
  "RateLimiter_iDelay cfg hr mi sec =
     (if iDeqtWinToHr cfg \<noteq> 25
      then if iDeqtWinToHr cfg < iDeqtWinFromHr cfg
        then if hr < iDeqtWinToHr cfg \<or> hr > iDeqtWinFromHr cfg then 0
          else (iDeqtWinFromHr cfg - hr) * 3600 - mi * 60 - sec
        else if hr \<ge> iDeqtWinFromHr cfg \<and> hr < iDeqtWinToHr cfg then 0
          else if hr < iDeqtWinFromHr cfg
            then (iDeqtWinFromHr cfg - hr - 1) * 3600 + (60 - mi) * 60 + (60 - sec)
            else (24 - hr + iDeqtWinFromHr cfg) * 3600 - mi * 60 - sec
      else 0)"

definition RateLimiter :: "qcfg \<Rightarrow> int \<Rightarrow> int \<Rightarrow> int \<Rightarrow> int option" where
  "RateLimiter cfg hr mi sec =
     (let d = RateLimiter_iDelay cfg hr mi sec in if d > 0 then Some d else None)"

text \<open>The window in hours, and the seconds of the day.\<close>

definition in_window :: "qcfg \<Rightarrow> int \<Rightarrow> bool" where
  "in_window cfg hr \<longleftrightarrow> (if iDeqtWinToHr cfg < iDeqtWinFromHr cfg
     then hr < iDeqtWinToHr cfg \<or> iDeqtWinFromHr cfg \<le> hr
     else iDeqtWinFromHr cfg \<le> hr \<and> hr < iDeqtWinToHr cfg)"

definition secs_of_day :: "int \<Rightarrow> int \<Rightarrow> int \<Rightarrow> int" where
  "secs_of_day hr mi sec = hr * 3600 + mi * 60 + sec"

text \<open>The rate limiter sleeps exactly when the current hour is outside the configured window, and
  then until the window's first second of the same or the next day; except that before the start of
  a window that does not span midnight it sleeps 60 seconds longer.\<close>

theorem RateLimiter_sleeps_until_window:
  assumes "hr \<in> {0..23}" "mi \<in> {0..59}" "sec \<in> {0..59}"
    and "iDeqtWinFromHr cfg \<in> {0..23}" "iDeqtWinToHr cfg \<in> {0..24}"
  shows "RateLimiter cfg hr mi sec =
    (if in_window cfg hr then None
     else Some (if hr < iDeqtWinFromHr cfg
       then iDeqtWinFromHr cfg * 3600 - secs_of_day hr mi sec
         + (if iDeqtWinToHr cfg < iDeqtWinFromHr cfg then 0 else 60)
       else 86400 + iDeqtWinFromHr cfg * 3600 - secs_of_day hr mi sec))"
proof -
  define F T where "F = iDeqtWinFromHr cfg" and "T = iDeqtWinToHr cfg"
  note [simp] = F_def [symmetric] T_def [symmetric]
  consider "T < F" "hr < T \<or> F < hr" | "T < F" "hr = F" | "T < F" "T \<le> hr" "hr < F"
    | "F \<le> T" "F \<le> hr" "hr < T" | "F \<le> T" "hr < F" | "F \<le> T" "T \<le> hr"
    by linarith
  then show ?thesis
    using assms by cases
      (auto simp: RateLimiter_def RateLimiter_iDelay_def in_window_def secs_of_day_def Let_def)
qed

theorem RateLimiter_sleeps_until_window_witness:
  "RateLimiter (cfg_example\<lparr>iDeqtWinFromHr := 4, iDeqtWinToHr := 10\<rparr>) 3 30 0 = Some 1860"
  using RateLimiter_sleeps_until_window [of 3 30 0 "cfg_example\<lparr>iDeqtWinFromHr := 4, iDeqtWinToHr := 10\<rparr>"]
  by (simp add: in_window_def secs_of_day_def)

section \<open>Correcting the parameters\<close>

text \<open>None stands for the division by a worker count of 0.\<close>

definition correct_HighWtrMrk :: "qcfg \<Rightarrow> qcfg" where
  "correct_HighWtrMrk c =
     (if iHighWtrMrk c < 2 \<or> iHighWtrMrk c > iMaxQueueSize c
      then let v = (iMaxQueueSize c sdiv 100) * 90
           in c\<lparr>iHighWtrMrk := (if v = 0 then iMaxQueueSize c else v)\<rparr>
      else c)"

definition correct_LowWtrMrk :: "qcfg \<Rightarrow> qcfg" where
  "correct_LowWtrMrk c =
     (if iLowWtrMrk c < 2 \<or> iLowWtrMrk c > iMaxQueueSize c \<or> iLowWtrMrk c > iHighWtrMrk c
      then let v = (iMaxQueueSize c sdiv 100) * 70
           in c\<lparr>iLowWtrMrk := (if v = 0 then 1 else v)\<rparr>
      else c)"

definition correct_MinMsgsPerWrkr :: "qcfg \<Rightarrow> qcfg option" where
  "correct_MinMsgsPerWrkr c =
     (if iMinMsgsPerWrkr c < 1 \<or> iMinMsgsPerWrkr c > iMaxQueueSize c
      then if iNumWorkerThreads c = 0 then None
           else Some (c\<lparr>iMinMsgsPerWrkr := iMaxQueueSize c sdiv iNumWorkerThreads c\<rparr>)
      else Some c)"

definition low_mark :: "qcfg \<Rightarrow> int \<Rightarrow> int" where
  "low_mark c v = (if v = 0 then if iMaxQueueSize c = 1 then 1 else iMaxQueueSize c - 1 else v)"

definition correct_FullDlyMrk :: "qcfg \<Rightarrow> qcfg" where
  "correct_FullDlyMrk c =
     (if iFullDlyMrk c = - 1 \<or> iFullDlyMrk c > iMaxQueueSize c
      then c\<lparr>iFullDlyMrk := low_mark c ((iMaxQueueSize c sdiv 100) * 97)\<rparr>
      else c)"

definition correct_LightDlyMrk :: "qcfg \<Rightarrow> qcfg" where
  "correct_LightDlyMrk c =
     (let c1 = (if iLightDlyMrk c = 0 then c\<lparr>iLightDlyMrk := iMaxQueueSize c\<rparr> else c)
      in if iLightDlyMrk c1 = - 1 \<or> iLightDlyMrk c1 > iMaxQueueSize c1
         then c1\<lparr>iLightDlyMrk := low_mark c1 ((iMaxQueueSize c1 sdiv 100) * 70)\<rparr>
         else c1)"

definition correct_DiscardMrk :: "qcfg \<Rightarrow> qcfg" where
  "correct_DiscardMrk c =
     (if iDiscardMrk c < 1 \<or> iDiscardMrk c > iMaxQueueSize c
      then let v = (iMaxQueueSize c sdiv 100) * 98
           in c\<lparr>iDiscardMrk := (if v = 0 then iMaxQueueSize c else v)\<rparr>
      else c)"

definition correct_DeqBatchSize :: "qcfg \<Rightarrow> qcfg" where
  "correct_DeqBatchSize c =
     (if iMaxQueueSize c > 0 \<and> iDeqBatchSize c > iMaxQueueSize c
      then c\<lparr>iDeqBatchSize := iMaxQueueSize c\<rparr> else c)"

definition qqueueCorrectParams :: "qcfg \<Rightarrow> qcfg option" where
  "qqueueCorrectParams c =
     map_option (\<lambda>c1. correct_DeqBatchSize (correct_DiscardMrk (correct_LightDlyMrk (correct_FullDlyMrk c1))))
       (correct_MinMsgsPerWrkr (correct_LowWtrMrk (correct_HighWtrMrk c)))"

lemmas correct_defs = correct_HighWtrMrk_def correct_LowWtrMrk_def correct_MinMsgsPerWrkr_def low_mark_def
  correct_FullDlyMrk_def correct_LightDlyMrk_def correct_DiscardMrk_def correct_DeqBatchSize_def

definition marks_ok :: "qcfg \<Rightarrow> bool" where
  "marks_ok c \<longleftrightarrow> iHighWtrMrk c \<in> {1..iMaxQueueSize c} \<and> iLowWtrMrk c \<in> {1..iMaxQueueSize c}
     \<and> (iLowWtrMrk c \<le> iHighWtrMrk c \<or> iHighWtrMrk c < (iMaxQueueSize c div 100) * 70)
     \<and> iMinMsgsPerWrkr c \<in> {0..iMaxQueueSize c} \<and> iFullDlyMrk c \<le> iMaxQueueSize c \<and> iFullDlyMrk c \<noteq> - 1
     \<and> iLightDlyMrk c \<le> iMaxQueueSize c \<and> iLightDlyMrk c \<notin> {- 1, 0}
     \<and> iDiscardMrk c \<in> {1..iMaxQueueSize c} \<and> iDeqBatchSize c \<le> iMaxQueueSize c"

text \<open>What each step leaves in its field, and that a second pass over it changes nothing.\<close>

lemma percent_bounds:
  fixes n :: int assumes "0 < n" "0 < p" "p \<le> 100"
  shows "0 \<le> (n div 100) * p" "(n div 100) * p \<le> n" "(n div 100) * p = 0 \<longleftrightarrow> n < 100"
proof -
  have "(n div 100) * p \<le> (n div 100) * 100"
    using assms by (intro mult_left_mono) auto
  also have "\<dots> \<le> n"
    by simp
  finally show "(n div 100) * p \<le> n" .
  show "0 \<le> (n div 100) * p" "(n div 100) * p = 0 \<longleftrightarrow> n < 100"
    using assms by (auto simp: zero_le_mult_iff pos_imp_zdiv_nonneg_iff zdiv_eq_0_iff)
qed

text \<open>Each mark as a function of the configured value and the queue size.\<close>

definition mark_of :: "int \<Rightarrow> int \<Rightarrow> int \<Rightarrow> int \<Rightarrow> int \<Rightarrow> int" where
  "mark_of lo p dflt n v = (if v < lo \<or> v > n then if (n div 100) * p = 0 then dflt else (n div 100) * p else v)"

definition low_of :: "int \<Rightarrow> int \<Rightarrow> int \<Rightarrow> int" where
  "low_of n h v = (if v < 2 \<or> v > n \<or> v > h then if (n div 100) * 70 = 0 then 1 else (n div 100) * 70 else v)"

definition dly_of :: "int \<Rightarrow> int \<Rightarrow> int \<Rightarrow> int" where
  "dly_of p n v = (if v = - 1 \<or> v > n
     then if (n div 100) * p = 0 then if n = 1 then 1 else n - 1 else (n div 100) * p else v)"

definition min_of :: "int \<Rightarrow> int \<Rightarrow> int \<Rightarrow> int" where
  "min_of n w v = (if v < 1 \<or> v > n then n div w else v)"

lemma mark_of:
  assumes "0 < n" "0 < p" "p \<le> 100" "lo \<in> {1, 2}"
  shows "mark_of lo p n n v \<in> {1..n}" "mark_of lo p n n (mark_of lo p n n v) = mark_of lo p n n v"
proof -
  define x where "x = (n div 100) * p"
  have "0 \<le> x" "x \<le> n" "x = 0 \<longleftrightarrow> n < 100"
    using percent_bounds [OF assms(1-3)] by (simp_all add: x_def)
  then show "mark_of lo p n n v \<in> {1..n}" "mark_of lo p n n (mark_of lo p n n v) = mark_of lo p n n v"
    using assms by (auto simp: mark_of_def x_def [symmetric])
qed

lemma low_of:
  assumes "0 < n"
  shows "low_of n h v \<in> {1..n}" "low_of n h (low_of n h v) = low_of n h v"
    "0 < h \<Longrightarrow> low_of n h v \<le> h \<or> h < (n div 100) * 70"
proof -
  define x where "x = (n div 100) * 70"
  have "0 \<le> x" "x \<le> n"
    using percent_bounds [OF assms, of 70] by (simp_all add: x_def)
  then show "low_of n h v \<in> {1..n}" "low_of n h (low_of n h v) = low_of n h v"
      "0 < h \<Longrightarrow> low_of n h v \<le> h \<or> h < (n div 100) * 70"
    using assms by (auto simp: low_of_def x_def [symmetric])
qed

lemma dly_of:
  assumes "0 < n" "0 < p" "p \<le> 100"
  shows "dly_of p n v \<le> n" "dly_of p n v \<noteq> - 1" "v \<noteq> 0 \<Longrightarrow> dly_of p n v \<noteq> 0"
    "dly_of p n (dly_of p n v) = dly_of p n v"
proof -
  define x where "x = (n div 100) * p"
  have "0 \<le> x" "x \<le> n"
    using percent_bounds [OF assms] by (simp_all add: x_def)
  then show "dly_of p n v \<le> n" "dly_of p n v \<noteq> - 1" "v \<noteq> 0 \<Longrightarrow> dly_of p n v \<noteq> 0"
      "dly_of p n (dly_of p n v) = dly_of p n v"
    using assms by (auto simp: dly_of_def x_def [symmetric])
qed

lemma min_of:
  assumes "0 < n" "0 < w"
  shows "min_of n w v \<in> {0..n}" "min_of n w (min_of n w v) = min_of n w v"
proof -
  have "0 \<le> n div w" "n div w \<le> n"
    using assms zdiv_mono2 [of n 1 w] by (auto simp: pos_imp_zdiv_nonneg_iff)
  then show "min_of n w v \<in> {0..n}" "min_of n w (min_of n w v) = min_of n w v"
    by (auto simp: min_of_def)
qed

lemma qqueueCorrectParams_eq:
  assumes "0 < iMaxQueueSize c" "0 < iNumWorkerThreads c"
  defines "n \<equiv> iMaxQueueSize c"
  defines "h \<equiv> mark_of 2 90 n n (iHighWtrMrk c)"
  shows "qqueueCorrectParams c = Some (c\<lparr>iHighWtrMrk := h, iLowWtrMrk := low_of n h (iLowWtrMrk c),
    iMinMsgsPerWrkr := min_of n (iNumWorkerThreads c) (iMinMsgsPerWrkr c),
    iFullDlyMrk := dly_of 97 n (iFullDlyMrk c),
    iLightDlyMrk := dly_of 70 n (if iLightDlyMrk c = 0 then n else iLightDlyMrk c),
    iDiscardMrk := mark_of 1 98 n n (iDiscardMrk c), iDeqBatchSize := min (iDeqBatchSize c) n\<rparr>)"
proof -
  have pos: "0 < n"
    using assms by simp
  have *: "n sdiv 100 = n div 100" "n sdiv iNumWorkerThreads c = n div iNumWorkerThreads c"
    using assms by simp_all
  have 1: "correct_LowWtrMrk (correct_HighWtrMrk c) = c\<lparr>iHighWtrMrk := h, iLowWtrMrk := low_of n h (iLowWtrMrk c)\<rparr>"
    by (simp add: correct_HighWtrMrk_def correct_LowWtrMrk_def h_def mark_of_def low_of_def Let_def n_def [symmetric] *)
  have 2: "correct_MinMsgsPerWrkr d = Some (d\<lparr>iMinMsgsPerWrkr := min_of n (iNumWorkerThreads c) (iMinMsgsPerWrkr d)\<rparr>)"
    if "iMaxQueueSize d = n" "iNumWorkerThreads d = iNumWorkerThreads c" for d
    using assms(2) that * by (simp add: correct_MinMsgsPerWrkr_def min_of_def)
  have 3: "correct_LightDlyMrk (correct_FullDlyMrk d) = d\<lparr>iFullDlyMrk := dly_of 97 n (iFullDlyMrk d),
      iLightDlyMrk := dly_of 70 n (if iLightDlyMrk d = 0 then n else iLightDlyMrk d)\<rparr>" if "iMaxQueueSize d = n" for d
    using that * pos by (simp add: correct_FullDlyMrk_def correct_LightDlyMrk_def dly_of_def low_mark_def Let_def)
  have 4: "correct_DeqBatchSize (correct_DiscardMrk d) = d\<lparr>iDiscardMrk := mark_of 1 98 n n (iDiscardMrk d),
      iDeqBatchSize := min (iDeqBatchSize d) n\<rparr>" if "iMaxQueueSize d = n" for d
    using that * pos by (simp add: correct_DeqBatchSize_def correct_DiscardMrk_def mark_of_def min_def Let_def)
  show ?thesis
    unfolding qqueueCorrectParams_def 1 by (simp add: 2 3 4 n_def [symmetric])
qed

text \<open>(C33) Correcting the parameters of a queue of positive size with at least one worker makes every
  mark plausible and is idempotent: the high and low water marks and the discard mark are between 1
  and the queue size, the delay marks and the batch size do not exceed the queue size, the low mark
  is not above the high mark unless the high mark was set below 70 percent of the size, and a second
  correction changes nothing.\<close>

theorem qqueueCorrectParams_plausible:
  assumes "0 < iMaxQueueSize c" "0 < iNumWorkerThreads c"
  shows "\<exists>c1. qqueueCorrectParams c = Some c1 \<and> marks_ok c1 \<and> qqueueCorrectParams c1 = Some c1
    \<and> iMaxQueueSize c1 = iMaxQueueSize c \<and> iNumWorkerThreads c1 = iNumWorkerThreads c"
proof -
  obtain c1 where c1: "qqueueCorrectParams c = Some c1"
    using qqueueCorrectParams_eq [OF assms] by blast
  note eq = qqueueCorrectParams_eq [OF assms, unfolded c1 option.inject]
  have n: "0 < iMaxQueueSize c1" "0 < iNumWorkerThreads c1" "iMaxQueueSize c1 = iMaxQueueSize c"
      "iNumWorkerThreads c1 = iNumWorkerThreads c"
    using assms by (simp_all add: eq)
  have light: "dly_of 70 n (if v = 0 then n else v) \<noteq> 0" if "0 < n" for n v
    using dly_of(3) [OF that, of 70 "if v = 0 then n else v"] that by auto
  have h: "0 < mark_of 2 90 (iMaxQueueSize c) (iMaxQueueSize c) (iHighWtrMrk c)"
    using mark_of(1) [OF assms(1), of 90 2 "iHighWtrMrk c"] by simp
  note facts = mark_of [OF assms(1), of 90 2] mark_of [OF assms(1), of 98 1] low_of(1,2) [OF assms(1)]
    low_of(3) [OF assms(1) h] dly_of [OF assms(1), of 97] dly_of [OF assms(1), of 70] min_of [OF assms] light [OF assms(1)]
  have "marks_ok c1"
    using facts by (simp add: eq marks_ok_def)
  moreover have "qqueueCorrectParams c1 = Some c1"
    unfolding qqueueCorrectParams_eq [OF n(1,2)] using facts by (simp add: eq)
  ultimately show ?thesis
    using c1 n by blast
qed

theorem qqueueCorrectParams_plausible_witness:
  "qqueueCorrectParams (cfg_example\<lparr>iMaxQueueSize := 1000, iHighWtrMrk := - 1, iLowWtrMrk := - 1\<rparr>) \<noteq> None
    \<and> 0 < iMaxQueueSize (cfg_example\<lparr>iMaxQueueSize := 1000, iHighWtrMrk := - 1, iLowWtrMrk := - 1\<rparr>)"
  using qqueueCorrectParams_plausible [of "cfg_example\<lparr>iMaxQueueSize := 1000, iHighWtrMrk := - 1, iLowWtrMrk := - 1\<rparr>"]
  by (auto simp: cfg_example_def)

end
