(* ===== verification/Tcps_Sess.thy ===== *)
theory Tcps_Sess
  imports Rs_Prelude
begin

text \<open>
  Framing of syslog over TCP (\<open>runtime/tcps_sess.c\<close>): the state machine that turns the bytes
  received on a session into messages, with both framings (octet counting and octet stuffing), and
  with splitting or truncation of messages larger than the limit.

  The session buffer \<open>pMsg\<close> is modelled by the bytes stored in it, so that \<open>iMsg\<close> is its
  length. A step returns the new session, the raw messages it submits to the core (no receive
  callback is set) and by how much it increments \<open>nMsgs\<close>.
\<close>

section \<open>Data\<close>

datatype inputState_t = eAtStrtFram | eInOctetCnt | eInMsg | eInMsgTruncating

datatype TCPFRAMINGMODE = TCP_FRAMING_OCTET_STUFFING | TCP_FRAMING_OCTET_COUNTING

text \<open>The settings of the server and listener that the state machine reads;
  \<open>addtlFrameDelim\<close> is -1 (\<open>TCPSRV_NO_ADDTL_DELIMITER\<close>) if there is none.\<close>

record tcpsrv =
  bDisableLFDelim :: bool
  addtlFrameDelim :: int
  discardTruncatedMsg :: bool
  maxFrameSize :: int
  bSuppOctetFram :: bool
  bSPFramingFix :: bool
  iMaxLine :: int

record tcps_sess =
  pMsg :: string
  inputState :: inputState_t
  iOctetsRemain :: int
  eFraming :: TCPFRAMINGMODE

definition tcps_sessConstruct :: tcps_sess where
  "tcps_sessConstruct = \<lparr>pMsg = [], inputState = eAtStrtFram, iOctetsRemain = 0,
     eFraming = TCP_FRAMING_OCTET_STUFFING\<rparr>"

type_synonym submission = "tcps_sess \<times> string list \<times> nat"

section \<open>Operations\<close>

text \<open>A zero-sized message is discarded; in every case the buffer is reset.\<close>

definition defaultDoSubmitMessage :: "tcps_sess \<Rightarrow> tcps_sess \<times> string list" where
  "defaultDoSubmitMessage s = (s\<lparr>pMsg := []\<rparr>, if pMsg s = [] then [] else [pMsg s])"

definition PrepareClose :: "tcps_sess \<Rightarrow> tcps_sess \<times> string list" where
  "PrepareClose s =
     (if inputState s = eAtStrtFram then (s, [])
      else if eFraming s = TCP_FRAMING_OCTET_COUNTING then (s, [])
      else defaultDoSubmitMessage s)"

text \<open>The record delimiter test; the received \<open>char\<close> is signed when compared with the
  configured number.\<close>

definition is_delim :: "tcpsrv \<Rightarrow> char \<Rightarrow> bool" where
  "is_delim srv c \<longleftrightarrow>
     c = CHR 0x0A \<and> \<not> bDisableLFDelim srv
     \<or> addtlFrameDelim srv \<noteq> -1 \<and> to_intTiny (byte_val c) = addtlFrameDelim srv"

text \<open>The choice of the framing at the start of a frame; \<^const>\<open>None\<close> when the byte is ignored.\<close>

definition start_frame :: "tcpsrv \<Rightarrow> tcps_sess \<Rightarrow> char \<Rightarrow> tcps_sess option" where
  "start_frame srv s c =
     (if inputState s = eAtStrtFram then
        if is_digit c \<and> bSuppOctetFram srv then
          Some (s\<lparr>inputState := eInOctetCnt, iOctetsRemain := 0, eFraming := TCP_FRAMING_OCTET_COUNTING\<rparr>)
        else if c = CHR '' '' \<and> bSPFramingFix srv then None
        else Some (s\<lparr>inputState := eInMsg, eFraming := TCP_FRAMING_OCTET_STUFFING\<rparr>)
      else Some s)"

text \<open>The end of a frame by octet counting.\<close>

definition count_octet :: "tcps_sess \<Rightarrow> submission" where
  "count_octet s =
     (if eFraming s = TCP_FRAMING_OCTET_COUNTING then
        let s1 = s\<lparr>iOctetsRemain := iOctetsRemain s - 1\<rparr>
        in if iOctetsRemain s1 < 1
           then let (s2, out) = defaultDoSubmitMessage s1 in (s2\<lparr>inputState := eAtStrtFram\<rparr>, out, 1)
           else (s1, [], 0)
      else (s, [], 0))"

text \<open>A byte in state \<^const>\<open>eInMsg\<close>.\<close>

definition in_msg :: "tcpsrv \<Rightarrow> tcps_sess \<Rightarrow> char \<Rightarrow> submission" where
  "in_msg srv s c =
     (if is_delim srv c \<and> eFraming s = TCP_FRAMING_OCTET_STUFFING then
        let (s1, out) = defaultDoSubmitMessage s in (s1\<lparr>inputState := eAtStrtFram\<rparr>, out, 1)
      else if int (length (pMsg s)) < iMaxLine srv then count_octet (s\<lparr>pMsg := pMsg s @ [c]\<rparr>)
      else
        let (s1, out) = defaultDoSubmitMessage s
        in if discardTruncatedMsg srv then
             if eFraming s1 = TCP_FRAMING_OCTET_COUNTING then
               let s2 = s1\<lparr>iOctetsRemain := iOctetsRemain s1 - 1\<rparr>
               in if iOctetsRemain s2 = 0 then (s2\<lparr>inputState := eAtStrtFram\<rparr>, out, 1)
                  else (s2\<lparr>inputState := eInMsgTruncating\<rparr>, out, 1)
             else (s1\<lparr>inputState := eInMsgTruncating\<rparr>, out, 1)
           else let (s2, out2, n) = count_octet s1 in (s2, out @ out2, 1 + n))"

text \<open>A byte in state \<^const>\<open>eInMsgTruncating\<close>.\<close>

definition in_truncating :: "tcpsrv \<Rightarrow> tcps_sess \<Rightarrow> char \<Rightarrow> tcps_sess" where
  "in_truncating srv s c =
     (if eFraming s = TCP_FRAMING_OCTET_COUNTING then
        let s1 = s\<lparr>iOctetsRemain := iOctetsRemain s - 1\<rparr>
        in if iOctetsRemain s1 < 1 then s1\<lparr>inputState := eAtStrtFram\<rparr> else s1
      else if is_delim srv c then s\<lparr>inputState := eAtStrtFram\<rparr>
      else s)"

text \<open>A byte in state \<^const>\<open>eInOctetCnt\<close>; the log messages are left out.\<close>

definition in_octet_cnt :: "tcpsrv \<Rightarrow> tcps_sess \<Rightarrow> char \<Rightarrow> tcps_sess" where
  "in_octet_cnt srv s c =
     (if is_digit c then
        let s1 = (if iOctetsRemain s \<le> 200000000
                  then s\<lparr>iOctetsRemain := iOctetsRemain s * 10 + byte_val c - 48\<rparr> else s)
        in if int (length (pMsg s1)) < iMaxLine srv then s1\<lparr>pMsg := pMsg s1 @ [c]\<rparr> else s1
      else
        let s1 = (if iOctetsRemain s < 1 then s\<lparr>eFraming := TCP_FRAMING_OCTET_STUFFING\<rparr> else s);
            s2 = (if iOctetsRemain s1 > maxFrameSize srv
                  then s1\<lparr>eFraming := TCP_FRAMING_OCTET_STUFFING\<rparr> else s1\<lparr>pMsg := []\<rparr>)
        in s2\<lparr>inputState := eInMsg\<rparr>)"

definition processDataRcvd :: "tcpsrv \<Rightarrow> tcps_sess \<Rightarrow> char \<Rightarrow> submission" where
  "processDataRcvd srv s c =
     (case start_frame srv s c of
        None \<Rightarrow> (s, [], 0)
      | Some s1 \<Rightarrow>
          (case inputState s1 of
             eInMsg \<Rightarrow> in_msg srv s1 c
           | eInMsgTruncating \<Rightarrow> (in_truncating srv s1 c, [], 0)
           | _ \<Rightarrow> (in_octet_cnt srv s1 c, [], 0)))"

fun DataRcvd :: "tcpsrv \<Rightarrow> tcps_sess \<Rightarrow> string \<Rightarrow> submission" where
  "DataRcvd srv s [] = (s, [], 0)"
| "DataRcvd srv s (c # cs) =
     (let (s1, out, n) = processDataRcvd srv s c; (s2, out2, n2) = DataRcvd srv s1 cs
      in (s2, out @ out2, n + n2))"

text \<open>The stream arrives in any number of reads.\<close>

fun receive_all :: "tcpsrv \<Rightarrow> tcps_sess \<Rightarrow> string list \<Rightarrow> submission" where
  "receive_all srv s [] = (s, [], 0)"
| "receive_all srv s (d # ds) =
     (let (s1, out, n) = DataRcvd srv s d; (s2, out2, n2) = receive_all srv s1 ds
      in (s2, out @ out2, n + n2))"

section \<open>Reads do not matter\<close>

lemma DataRcvd_append:
  "DataRcvd srv s (a @ b) =
     (let (s1, out, n) = DataRcvd srv s a; (s2, out2, n2) = DataRcvd srv s1 b in (s2, out @ out2, n + n2))"
  by (induction a arbitrary: s) (auto simp: split_beta Let_def)

lemma receive_all_concat: "receive_all srv s ds = DataRcvd srv s (concat ds)"
  by (induction ds arbitrary: s) (auto simp: DataRcvd_append)

lemma DataRcvd_appendI:
  assumes "DataRcvd srv s a = (s1, out, n)" "DataRcvd srv s1 b = (s2, out2, n2)"
  shows "DataRcvd srv s (a @ b) = (s2, out @ out2, n + n2)"
  using assms by (simp add: DataRcvd_append)

section \<open>The invariant of a session\<close>

definition sess_ok :: "tcpsrv \<Rightarrow> tcps_sess \<Rightarrow> bool" where
  "sess_ok srv s \<longleftrightarrow>
     int (length (pMsg s)) \<le> iMaxLine srv \<and> 0 \<le> iOctetsRemain s \<and> iOctetsRemain s \<le> 2000000009
     \<and> (inputState s \<in> {eInMsg, eInMsgTruncating} \<and> eFraming s = TCP_FRAMING_OCTET_COUNTING
          \<longrightarrow> 1 \<le> iOctetsRemain s)
     \<and> (inputState s \<in> {eAtStrtFram, eInMsgTruncating} \<longrightarrow> pMsg s = [])
     \<and> (inputState s = eInOctetCnt \<longrightarrow> eFraming s = TCP_FRAMING_OCTET_COUNTING)"

definition submitted_ok :: "tcpsrv \<Rightarrow> string list \<Rightarrow> bool" where
  "submitted_ok srv out \<longleftrightarrow> (\<forall>m \<in> set out. m \<noteq> [] \<and> int (length m) \<le> iMaxLine srv)"

lemmas sess_defs = defaultDoSubmitMessage_def count_octet_def Let_def

lemma start_frame_ok:
  "sess_ok srv s \<Longrightarrow> start_frame srv s c = Some s' \<Longrightarrow> sess_ok srv s' \<and> inputState s' \<noteq> eAtStrtFram"
  by (auto simp: start_frame_def sess_ok_def split: if_splits)

lemma in_msg_ok:
  assumes "sess_ok srv s" "inputState s = eInMsg" "in_msg srv s c = (s', out, n)"
  shows "sess_ok srv s' \<and> submitted_ok srv out"
  using assms
  by (auto simp: in_msg_def sess_defs sess_ok_def submitted_ok_def split: if_splits)

lemma in_truncating_ok:
  "sess_ok srv s \<Longrightarrow> inputState s = eInMsgTruncating \<Longrightarrow> sess_ok srv (in_truncating srv s c)"
  by (auto simp: in_truncating_def Let_def sess_ok_def)

lemma in_octet_cnt_ok:
  "sess_ok srv s \<Longrightarrow> inputState s = eInOctetCnt \<Longrightarrow> sess_ok srv (in_octet_cnt srv s c)"
  by (auto simp: in_octet_cnt_def Let_def sess_ok_def is_digit_def)

lemma processDataRcvd_ok:
  assumes "sess_ok srv s" "processDataRcvd srv s c = (s', out, n)"
  shows "sess_ok srv s' \<and> submitted_ok srv out"
proof (cases "start_frame srv s c")
  case None
  with assms show ?thesis
    by (simp add: processDataRcvd_def submitted_ok_def)
next
  case (Some s1)
  note s1 = start_frame_ok [OF assms(1) Some]
  show ?thesis
    using assms(2) Some s1 in_msg_ok [of srv s1 c s' out n] in_truncating_ok [of srv s1 c]
      in_octet_cnt_ok [of srv s1 c]
    by (auto simp: processDataRcvd_def submitted_ok_def split: inputState_t.splits)
qed

lemma DataRcvd_ok:
  "sess_ok srv s \<Longrightarrow> DataRcvd srv s cs = (s', out, n) \<Longrightarrow> sess_ok srv s' \<and> submitted_ok srv out"
proof (induction cs arbitrary: s out n)
  case (Cons c cs)
  obtain s1 out1 n1 where 1: "processDataRcvd srv s c = (s1, out1, n1)"
    by (metis prod_cases3)
  obtain out2 n2 where 2: "DataRcvd srv s1 cs = (s', out2, n2)" "out = out1 @ out2"
    using Cons.prems(2) 1 by (auto split: prod.splits)
  show ?case
    using Cons.IH [OF _ 2(1)] processDataRcvd_ok [OF Cons.prems(1) 1] 2(2) by (auto simp: submitted_ok_def)
qed (simp add: submitted_ok_def)

section \<open>Frames\<close>

fun dec_str :: "nat \<Rightarrow> string" where
  "dec_str n = (if n < 10 then [to_char (48 + int n)] else dec_str (n div 10) @ [to_char (48 + int (n mod 10))])"

declare dec_str.simps [simp del]

definition at_start :: "tcps_sess \<Rightarrow> bool" where
  "at_start s \<longleftrightarrow> inputState s = eAtStrtFram \<and> pMsg s = []"

lemma digit_char: "0 \<le> i \<Longrightarrow> i < 10 \<Longrightarrow> is_digit (to_char (48 + i)) \<and> byte_val (to_char (48 + i)) = 48 + i"
  by (simp add: is_digit_def byte_val_to_char)

lemma read_count:
  assumes "at_start s" "bSuppOctetFram srv" "int k \<le> 2000000009" "0 < iMaxLine srv"
  shows "\<exists>p. DataRcvd srv s (dec_str k) =
    (s\<lparr>pMsg := p, inputState := eInOctetCnt, iOctetsRemain := int k, eFraming := TCP_FRAMING_OCTET_COUNTING\<rparr>, [], 0)"
  using assms
proof (induction k rule: dec_str.induct)
  case (1 k)
  show ?case
  proof (cases "k < 10")
    case True
    then show ?thesis
      using 1(2-) digit_char [of "int k"]
      by (intro exI [of _ "[to_char (48 + int k)]"]) (auto simp: dec_str.simps [of k] processDataRcvd_def start_frame_def in_octet_cnt_def at_start_def Let_def)
  next
    case False
    let ?d = "to_char (48 + int (k mod 10))"
    have "int (k div 10) \<le> 2000000009"
      using 1(4) div_le_dividend [of k 10] by linarith
    from 1(1) [OF False 1(2,3) this 1(5)] obtain p where p: "DataRcvd srv s (dec_str (k div 10)) =
      (s\<lparr>pMsg := p, inputState := eInOctetCnt, iOctetsRemain := int (k div 10), eFraming := TCP_FRAMING_OCTET_COUNTING\<rparr>, [], 0)"
      by blast
    have "int (k div 10) \<le> 200000000" "int (k div 10) * 10 + int (k mod 10) = int k"
      using 1(4) by (simp_all add: zdiv_int zmod_int)
    then have "\<exists>p'. DataRcvd srv (s\<lparr>pMsg := p, inputState := eInOctetCnt, iOctetsRemain := int (k div 10), eFraming := TCP_FRAMING_OCTET_COUNTING\<rparr>) [?d] =
      (s\<lparr>pMsg := p', inputState := eInOctetCnt, iOctetsRemain := int k, eFraming := TCP_FRAMING_OCTET_COUNTING\<rparr>, [], 0)"
      using digit_char [of "int (k mod 10)"]
      by (intro exI [of _ "if int (length p) < iMaxLine srv then p @ [?d] else p"])
        (auto simp: processDataRcvd_def start_frame_def in_octet_cnt_def Let_def)
    with DataRcvd_appendI [OF p] False show ?thesis
      by (fastforce simp: dec_str.simps [of k])
  qed
qed


text \<open>A byte inside a frame that is stored, one that ends a counted frame, and the bytes of a frame
  that are thrown away behind the limit.\<close>

lemma in_msg_store:
  assumes "inputState s = eInMsg" "int (length (pMsg s)) < iMaxLine srv"
    and "eFraming s = TCP_FRAMING_OCTET_STUFFING \<and> \<not> is_delim srv c
      \<or> eFraming s = TCP_FRAMING_OCTET_COUNTING \<and> 1 < iOctetsRemain s"
  shows "processDataRcvd srv s c =
    (s\<lparr>pMsg := pMsg s @ [c], iOctetsRemain := (if eFraming s = TCP_FRAMING_OCTET_COUNTING
        then iOctetsRemain s - 1 else iOctetsRemain s)\<rparr>, [], 0)"
  using assms by (auto simp: processDataRcvd_def start_frame_def in_msg_def count_octet_def Let_def)

lemma counted_body:
  assumes "inputState s = eInMsg" "eFraming s = TCP_FRAMING_OCTET_COUNTING"
    and "iOctetsRemain s = int (length m)" "m \<noteq> []"
    and "int (length (pMsg s @ m)) \<le> iMaxLine srv"
  shows "DataRcvd srv s m = (s\<lparr>pMsg := [], iOctetsRemain := 0, inputState := eAtStrtFram\<rparr>, [pMsg s @ m], 1)"
  using assms
proof (induction m arbitrary: s)
  case (Cons c m)
  show ?case
  proof (cases "m = []")
    case True
    with Cons.prems show ?thesis
      by (simp add: processDataRcvd_def start_frame_def in_msg_def sess_defs)
  next
    case False
    with Cons.prems have "processDataRcvd srv s c =
      (s\<lparr>pMsg := pMsg s @ [c], iOctetsRemain := int (length m)\<rparr>, [], 0)"
      by (subst in_msg_store) auto
    with Cons.IH [of "s\<lparr>pMsg := pMsg s @ [c], iOctetsRemain := int (length m)\<rparr>"] Cons.prems False
    show ?thesis
      by simp
  qed
qed simp

lemma counted_discard:
  assumes "inputState s = eInMsgTruncating" "eFraming s = TCP_FRAMING_OCTET_COUNTING"
    and "iOctetsRemain s = int (length m)" "m \<noteq> []"
  shows "DataRcvd srv s m = (s\<lparr>iOctetsRemain := 0, inputState := eAtStrtFram\<rparr>, [], 0)"
  using assms
proof (induction m arbitrary: s)
  case (Cons c m)
  show ?case
  proof (cases "m = []")
    case True
    with Cons.prems show ?thesis
      by (simp add: processDataRcvd_def start_frame_def in_truncating_def Let_def)
  next
    case False
    with Cons.prems Cons.IH [of "s\<lparr>iOctetsRemain := int (length m)\<rparr>"] show ?thesis
      by (simp add: processDataRcvd_def start_frame_def in_truncating_def Let_def)
  qed
qed simp

lemma stuffed_body:
  assumes "inputState s = eInMsg" "eFraming s = TCP_FRAMING_OCTET_STUFFING"
    and "list_all (\<lambda>c. \<not> is_delim srv c) m" "int (length (pMsg s @ m)) \<le> iMaxLine srv"
  shows "DataRcvd srv s m = (s\<lparr>pMsg := pMsg s @ m\<rparr>, [], 0)"
  using assms
proof (induction m arbitrary: s)
  case (Cons c m)
  then have "processDataRcvd srv s c = (s\<lparr>pMsg := pMsg s @ [c]\<rparr>, [], 0)"
    by (subst in_msg_store) auto
  with Cons.IH [of "s\<lparr>pMsg := pMsg s @ [c]\<rparr>"] Cons.prems show ?case
    by simp
qed simp

lemma stuffed_discard:
  assumes "inputState s = eInMsgTruncating" "eFraming s = TCP_FRAMING_OCTET_STUFFING"
    and "list_all (\<lambda>c. \<not> is_delim srv c) m"
  shows "DataRcvd srv s m = (s, [], 0)"
  using assms by (induction m) (simp_all add: processDataRcvd_def start_frame_def in_truncating_def)


datatype frame = Counted string | Stuffed string char

fun encode :: "frame \<Rightarrow> string" where
  "encode (Counted m) = dec_str (length m) @ CHR '' '' # m"
| "encode (Stuffed m d) = m @ [d]"

fun content :: "frame \<Rightarrow> string" where
  "content (Counted m) = m"
| "content (Stuffed m d) = m"

text \<open>A frame a sender may send: not empty, not larger than the limit unless larger messages are to
  be truncated; a counted frame needs support for it, a size the server accepts; a stuffed one has
  no delimiter inside and does not start with a digit (if octet counting is supported) or with a
  space (if spaces in front of frames are ignored).\<close>

fun frame_ok :: "tcpsrv \<Rightarrow> frame \<Rightarrow> bool" where
  "frame_ok srv (Counted m) \<longleftrightarrow> m \<noteq> [] \<and> (int (length m) \<le> iMaxLine srv \<or> discardTruncatedMsg srv)
     \<and> bSuppOctetFram srv \<and> int (length m) \<le> maxFrameSize srv \<and> int (length m) \<le> 2000000009"
| "frame_ok srv (Stuffed m d) \<longleftrightarrow> m \<noteq> [] \<and> (int (length m) \<le> iMaxLine srv \<or> discardTruncatedMsg srv)
     \<and> is_delim srv d \<and> list_all (\<lambda>c. \<not> is_delim srv c) m
     \<and> \<not> (bSuppOctetFram srv \<and> is_digit (hd m)) \<and> \<not> (bSPFramingFix srv \<and> hd m = CHR '' '')"

definition truncate_to :: "tcpsrv \<Rightarrow> string \<Rightarrow> string" where
  "truncate_to srv m = take (nat (iMaxLine srv)) m"

lemma truncate_split:
  assumes "0 < iMaxLine srv" "\<not> int (length m) \<le> iMaxLine srv"
  shows "\<exists>c r. m = truncate_to srv m @ c # r" "int (length (truncate_to srv m)) = iMaxLine srv"
proof -
  have "nat (iMaxLine srv) < length m"
    using assms by linarith
  then show "\<exists>c r. m = truncate_to srv m @ c # r" "int (length (truncate_to srv m)) = iMaxLine srv"
    using id_take_nth_drop [of "nat (iMaxLine srv)" m] assms(1) unfolding truncate_to_def by fastforce+
qed

lemma start_counted:
  assumes "at_start s" "frame_ok srv (Counted m)" "0 < iMaxLine srv"
  shows "DataRcvd srv s (dec_str (length m) @ '' '') =
    (s\<lparr>pMsg := [], inputState := eInMsg, iOctetsRemain := int (length m),
       eFraming := TCP_FRAMING_OCTET_COUNTING\<rparr>, [], 0)"
proof -
  have len: "1 \<le> int (length m)" "int (length m) \<le> 2000000009" "int (length m) \<le> maxFrameSize srv"
    using assms(2) by (cases m; auto)+
  obtain p where p: "DataRcvd srv s (dec_str (length m)) =
    (s\<lparr>pMsg := p, inputState := eInOctetCnt, iOctetsRemain := int (length m), eFraming := TCP_FRAMING_OCTET_COUNTING\<rparr>, [], 0)"
    using read_count [OF assms(1) _ len(2) assms(3)] assms(2) by auto
  have "\<not> is_digit (CHR '' '')"
    by (simp add: is_digit_def byte_val_def)
  then have "DataRcvd srv (s\<lparr>pMsg := p, inputState := eInOctetCnt, iOctetsRemain := int (length m), eFraming := TCP_FRAMING_OCTET_COUNTING\<rparr>) '' '' =
    (s\<lparr>pMsg := [], inputState := eInMsg, iOctetsRemain := int (length m), eFraming := TCP_FRAMING_OCTET_COUNTING\<rparr>, [], 0)"
    using len by (auto simp: processDataRcvd_def start_frame_def in_octet_cnt_def Let_def)
  with DataRcvd_appendI [OF p] show ?thesis
    by fastforce
qed

text \<open>The bytes of a counted frame up to the limit when the frame is longer.\<close>

lemma counted_fill:
  assumes "inputState s = eInMsg" "eFraming s = TCP_FRAMING_OCTET_COUNTING"
    and "int (length m) < iOctetsRemain s" "int (length (pMsg s @ m)) \<le> iMaxLine srv"
  shows "DataRcvd srv s m = (s\<lparr>pMsg := pMsg s @ m, iOctetsRemain := iOctetsRemain s - int (length m)\<rparr>, [], 0)"
  using assms
proof (induction m arbitrary: s)
  case (Cons c m)
  then have "processDataRcvd srv s c = (s\<lparr>pMsg := pMsg s @ [c], iOctetsRemain := iOctetsRemain s - 1\<rparr>, [], 0)"
    by (subst in_msg_store) auto
  with Cons.IH [of "s\<lparr>pMsg := pMsg s @ [c], iOctetsRemain := iOctetsRemain s - 1\<rparr>"] Cons.prems show ?case
    by (simp add: algebra_simps)
qed simp

text \<open>The first byte behind the limit in a session that truncates.\<close>

lemma overflow_byte:
  assumes "inputState s = eInMsg" "int (length (pMsg s)) = iMaxLine srv" "pMsg s \<noteq> []"
    and "discardTruncatedMsg srv" "eFraming s = TCP_FRAMING_OCTET_STUFFING \<Longrightarrow> \<not> is_delim srv c"
    and "eFraming s = TCP_FRAMING_OCTET_COUNTING \<Longrightarrow> 1 \<le> iOctetsRemain s"
  shows "processDataRcvd srv s c =
    (if eFraming s = TCP_FRAMING_OCTET_COUNTING then
       (s\<lparr>pMsg := [], iOctetsRemain := iOctetsRemain s - 1,
          inputState := (if iOctetsRemain s = 1 then eAtStrtFram else eInMsgTruncating)\<rparr>, [pMsg s], 1)
     else (s\<lparr>pMsg := [], inputState := eInMsgTruncating\<rparr>, [pMsg s], 1))"
  using assms
  by (cases "eFraming s")
    (auto simp: processDataRcvd_def start_frame_def in_msg_def defaultDoSubmitMessage_def Let_def)


lemma counted_frame:
  assumes "at_start s" "frame_ok srv (Counted m)" "0 < iMaxLine srv"
  shows "\<exists>s'. DataRcvd srv s (encode (Counted m)) = (s', [truncate_to srv m], 1) \<and> at_start s'"
proof -
  define s1 where "s1 = s\<lparr>pMsg := [], inputState := eInMsg, iOctetsRemain := int (length m),
    eFraming := TCP_FRAMING_OCTET_COUNTING\<rparr>"
  have 1: "DataRcvd srv s (dec_str (length m) @ '' '') = (s1, [], 0)"
    using start_counted [OF assms] by (simp add: s1_def)
  have "\<exists>s'. DataRcvd srv s1 m = (s', [truncate_to srv m], 1) \<and> at_start s'"
  proof (cases "int (length m) \<le> iMaxLine srv")
    case True
    then show ?thesis
      using counted_body [of s1 m srv] assms(2) by (auto simp: s1_def at_start_def truncate_to_def)
  next
    case False
    define a where "a = truncate_to srv m"
    obtain c r where m: "m = a @ c # r"
      using truncate_split [OF assms(3) False] by (auto simp: a_def)
    have len: "int (length a) = iMaxLine srv"
      using truncate_split [OF assms(3) False] by (auto simp: a_def)
    have 2: "DataRcvd srv s1 a = (s1\<lparr>pMsg := a, iOctetsRemain := int (length (c # r))\<rparr>, [], 0)"
      using counted_fill [of s1 a srv] m len by (simp add: s1_def)
    have "a \<noteq> []"
      using len assms(3) by auto
    then have 3: "processDataRcvd srv (s1\<lparr>pMsg := a, iOctetsRemain := int (length (c # r))\<rparr>) c =
      (s1\<lparr>pMsg := [], iOctetsRemain := int (length r),
          inputState := (if r = [] then eAtStrtFram else eInMsgTruncating)\<rparr>, [a], 1)"
      using overflow_byte [of "s1\<lparr>pMsg := a, iOctetsRemain := int (length (c # r))\<rparr>" srv c] len False assms(2)
      by (simp add: s1_def)
    obtain s' where 4: "DataRcvd srv (s1\<lparr>pMsg := [], iOctetsRemain := int (length r),
          inputState := (if r = [] then eAtStrtFram else eInMsgTruncating)\<rparr>) r = (s', [], 0)" "at_start s'"
      using counted_discard [of "s1\<lparr>pMsg := [], iOctetsRemain := int (length r), inputState := eInMsgTruncating\<rparr>" r srv]
      by (cases "r = []") (auto simp: s1_def at_start_def)
    have "DataRcvd srv (s1\<lparr>pMsg := a, iOctetsRemain := int (length (c # r))\<rparr>) (c # r) = (s', [a], 1)"
      using 3 4(1) by simp
    from DataRcvd_appendI [OF 2 this] have "DataRcvd srv s1 m = (s', [a], 1)"
      by (simp add: m)
    with 4(2) show ?thesis
      by (simp add: a_def)
  qed
  then obtain s' where "DataRcvd srv s1 m = (s', [truncate_to srv m], 1)" "at_start s'"
    by blast
  with DataRcvd_appendI [OF 1, of m] show ?thesis
    by simp
qed

lemma stuffed_start:
  assumes "at_start s" "m \<noteq> []" "\<not> (bSuppOctetFram srv \<and> is_digit (hd m))"
    and "\<not> (bSPFramingFix srv \<and> hd m = CHR '' '')"
  shows "DataRcvd srv s (m @ x) =
    DataRcvd srv (s\<lparr>inputState := eInMsg, eFraming := TCP_FRAMING_OCTET_STUFFING\<rparr>) (m @ x)"
  using assms
  by (cases m) (auto simp: processDataRcvd_def start_frame_def at_start_def)

lemma stuffed_end:
  assumes "inputState s \<in> {eInMsg, eInMsgTruncating}" "eFraming s = TCP_FRAMING_OCTET_STUFFING" "is_delim srv d"
  shows "DataRcvd srv s [d] =
    (s\<lparr>pMsg := (if inputState s = eInMsg then [] else pMsg s), inputState := eAtStrtFram\<rparr>,
     if inputState s = eInMsg \<and> pMsg s \<noteq> [] then [pMsg s] else [], if inputState s = eInMsg then 1 else 0)"
  using assms
  by (auto simp: processDataRcvd_def start_frame_def in_msg_def in_truncating_def defaultDoSubmitMessage_def)

lemma stuffed_frame:
  assumes "at_start s" "frame_ok srv (Stuffed m d)" "0 < iMaxLine srv"
  shows "\<exists>s'. DataRcvd srv s (encode (Stuffed m d)) = (s', [truncate_to srv m], 1) \<and> at_start s'"
proof -
  define s1 where "s1 = s\<lparr>inputState := eInMsg, eFraming := TCP_FRAMING_OCTET_STUFFING\<rparr>"
  have s1: "inputState s1 = eInMsg" "eFraming s1 = TCP_FRAMING_OCTET_STUFFING" "pMsg s1 = []"
    using assms(1) by (simp_all add: s1_def at_start_def)
  have F: "m \<noteq> []" "is_delim srv d" "list_all (\<lambda>c. \<not> is_delim srv c) m"
    using assms(2) by auto
  have "\<exists>s'. DataRcvd srv s1 (m @ [d]) = (s', [truncate_to srv m], 1) \<and> at_start s'"
  proof (cases "int (length m) \<le> iMaxLine srv")
    case True
    have "DataRcvd srv s1 m = (s1\<lparr>pMsg := m\<rparr>, [], 0)"
      using stuffed_body [OF s1(1,2) F(3)] True s1(3) by simp
    from DataRcvd_appendI [OF this stuffed_end [of _ srv d]] s1 F True show ?thesis
      by (simp add: at_start_def truncate_to_def)
  next
    case False
    define a where "a = truncate_to srv m"
    obtain c r where m: "m = a @ c # r"
      using truncate_split [OF assms(3) False] by (auto simp: a_def)
    have len: "int (length a) = iMaxLine srv"
      using truncate_split [OF assms(3) False] by (auto simp: a_def)
    then have "a \<noteq> []"
      using assms(3) by auto
    have 2: "DataRcvd srv s1 a = (s1\<lparr>pMsg := a\<rparr>, [], 0)"
      using stuffed_body [OF s1(1,2), of srv a] F(3) m len s1(3) by simp
    let ?t = "s1\<lparr>pMsg := [], inputState := eInMsgTruncating\<rparr>"
    have 3: "processDataRcvd srv (s1\<lparr>pMsg := a\<rparr>) c = (?t, [a], 1)"
      using overflow_byte [of "s1\<lparr>pMsg := a\<rparr>" srv c] len False assms(2) \<open>a \<noteq> []\<close> s1 F(3) m by simp
    have "DataRcvd srv ?t r = (?t, [], 0)"
      using stuffed_discard [of ?t srv r] s1 F(3) m by simp
    from DataRcvd_appendI [OF this stuffed_end [of ?t srv d]] s1 F(2)
    have "DataRcvd srv ?t (r @ [d]) = (?t\<lparr>inputState := eAtStrtFram\<rparr>, [], 0)"
      by simp
    with 3 DataRcvd_appendI [OF 2, of "c # r @ [d]"]
    have "DataRcvd srv s1 (m @ [d]) = (?t\<lparr>inputState := eAtStrtFram\<rparr>, [a], 1)"
      by (simp add: m)
    then show ?thesis
      by (simp add: at_start_def a_def)
  qed
  then show ?thesis
    using stuffed_start [OF assms(1) F(1), of srv "[d]"] assms(2) by (simp add: s1_def)
qed

lemma frames_read:
  assumes "at_start s" "list_all (frame_ok srv) fs" "0 < iMaxLine srv"
  shows "\<exists>s'. DataRcvd srv s (concat (map encode fs)) =
    (s', map (\<lambda>f. truncate_to srv (content f)) fs, length fs) \<and> at_start s'"
  using assms(1,2)
proof (induction fs arbitrary: s)
  case (Cons f fs)
  have ok: "frame_ok srv f"
    using Cons.prems(2) by simp
  have "\<exists>s1. DataRcvd srv s (encode f) = (s1, [truncate_to srv (content f)], 1) \<and> at_start s1"
  proof (cases f)
    case (Counted m)
    then show ?thesis
      using counted_frame [OF Cons.prems(1) _ assms(3)] ok by (simp del: encode.simps frame_ok.simps)
  next
    case (Stuffed m d)
    then show ?thesis
      using stuffed_frame [OF Cons.prems(1) _ assms(3)] ok by (simp del: encode.simps frame_ok.simps)
  qed
  then obtain s1 where 1: "DataRcvd srv s (encode f) = (s1, [truncate_to srv (content f)], 1)" "at_start s1"
    by blast
  from Cons.IH [OF 1(2)] Cons.prems(2) obtain s' where
    "DataRcvd srv s1 (concat (map encode fs)) = (s', map (\<lambda>f. truncate_to srv (content f)) fs, length fs)" "at_start s'"
    by auto
  with DataRcvd_appendI [OF 1(1)] show ?case
    by (simp del: encode.simps)
qed simp

text \<open>What a session that splits over-long messages makes of one: the byte at which the limit is
  noticed is in no part.\<close>

function split_at_limit :: "nat \<Rightarrow> string \<Rightarrow> string list" where
  "split_at_limit n m = (if length m \<le> n then [m] else take n m # split_at_limit n (drop (Suc n) m))"
  by pat_completeness auto

termination split_at_limit
  by (relation "measure (length \<circ> snd)") auto

declare split_at_limit.simps [simp del]

lemma split_body:
  assumes "inputState s = eInMsg" "eFraming s = TCP_FRAMING_OCTET_STUFFING" "pMsg s = []"
    and "\<not> discardTruncatedMsg srv" "0 < iMaxLine srv" "is_delim srv d"
    and "list_all (\<lambda>c. \<not> is_delim srv c) m"
  shows "DataRcvd srv s (m @ [d]) =
    (s\<lparr>inputState := eAtStrtFram\<rparr>, filter (\<lambda>x. x \<noteq> []) (split_at_limit (nat (iMaxLine srv)) m),
     length (split_at_limit (nat (iMaxLine srv)) m))"
  using assms
proof (induction "length m" arbitrary: m rule: less_induct)
  case less
  let ?n = "nat (iMaxLine srv)"
  show ?case
  proof (cases "int (length m) \<le> iMaxLine srv")
    case True
    then have "DataRcvd srv s m = (s\<lparr>pMsg := m\<rparr>, [], 0)"
      using stuffed_body [of s srv m] less.prems by simp
    moreover have "length m \<le> ?n"
      using True by linarith
    ultimately show ?thesis
      using DataRcvd_appendI [OF _ stuffed_end [of "s\<lparr>pMsg := m\<rparr>" srv d]] less.prems
      by (simp add: split_at_limit.simps [of ?n m])
  next
    case False
    define a where "a = truncate_to srv m"
    obtain c r where m: "m = a @ c # r"
      using truncate_split [OF less.prems(5) False] by (auto simp: a_def)
    have len: "int (length a) = iMaxLine srv"
      using truncate_split [OF less.prems(5) False] by (auto simp: a_def)
    then have ne: "a \<noteq> []" and n: "?n = length a"
      using less.prems(5) by auto
    have 1: "DataRcvd srv s a = (s\<lparr>pMsg := a\<rparr>, [], 0)"
      using stuffed_body [of s srv a] less.prems m len by simp
    have "processDataRcvd srv (s\<lparr>pMsg := a\<rparr>) c = (s, [a], 1)"
      using less.prems m ne len
      by (simp add: processDataRcvd_def start_frame_def in_msg_def defaultDoSubmitMessage_def count_octet_def)
    moreover have "DataRcvd srv s (r @ [d]) = (s\<lparr>inputState := eAtStrtFram\<rparr>,
        filter (\<lambda>x. x \<noteq> []) (split_at_limit ?n r), length (split_at_limit ?n r))"
      using less.hyps [of r] less.prems m by simp
    ultimately have "DataRcvd srv (s\<lparr>pMsg := a\<rparr>) (c # r @ [d]) = (s\<lparr>inputState := eAtStrtFram\<rparr>,
        a # filter (\<lambda>x. x \<noteq> []) (split_at_limit ?n r), Suc (length (split_at_limit ?n r)))"
      by simp
    from DataRcvd_appendI [OF 1 this] show ?thesis
      using ne by (simp add: m split_at_limit.simps [of "length a" "a @ c # r"] n)
  qed
qed

section \<open>Properties\<close>

text \<open>(C6) Whatever bytes arrive in whatever reads, a session never stores more than \<open>iMaxLine\<close>
  bytes in its buffer, its octet counter stays between 0 and 2000000009 and so does not overflow,
  a counted frame being read has at least one octet left, the buffer is empty between frames, and
  every message submitted has 1 to \<open>iMaxLine\<close> bytes.\<close>

theorem session_safe:
  assumes "0 \<le> iMaxLine srv" "receive_all srv tcps_sessConstruct ds = (s', out, n)"
  shows "sess_ok srv s' \<and> submitted_ok srv out"
proof -
  have "sess_ok srv tcps_sessConstruct"
    using assms(1) by (simp add: sess_ok_def tcps_sessConstruct_def)
  then show ?thesis
    using assms(2) DataRcvd_ok unfolding receive_all_concat by blast
qed

definition srv_example :: tcpsrv where
  "srv_example = \<lparr>bDisableLFDelim = False, addtlFrameDelim = -1, discardTruncatedMsg = True,
     maxFrameSize = 200000, bSuppOctetFram = True, bSPFramingFix = False, iMaxLine = 4\<rparr>"

lemma srv_example_run:
  "receive_all srv_example tcps_sessConstruct [''3'', '' ab'', ''c<1>x'' @ [CHR 0x0A] @ ''5 hel''] =
     (\<lparr>pMsg = ''hel'', inputState = eInMsg, iOctetsRemain = 2, eFraming = TCP_FRAMING_OCTET_COUNTING\<rparr>,
      [''abc'', ''<1>x''], 2)"
  by code_simp

theorem session_safe_witness:
  "sess_ok srv_example \<lparr>pMsg = ''hel'', inputState = eInMsg, iOctetsRemain = 2,
     eFraming = TCP_FRAMING_OCTET_COUNTING\<rparr> \<and> submitted_ok srv_example [''abc'', ''<1>x'']"
  using session_safe [OF _ srv_example_run] by (simp add: srv_example_def)

text \<open>(C23) Framing is lossless: for any sequence of frames, counted or delimited in any mix, that a
  sender may send, arriving in any division into reads at a session that is at the start of a
  frame, the session submits exactly the contents of the frames in their order (cut to
  \<open>iMaxLine\<close> bytes if the server is set to truncate), counts them, and is at the start of a
  frame again.\<close>

theorem framing_roundtrip:
  assumes "at_start s" "list_all (frame_ok srv) fs" "0 < iMaxLine srv"
    and "concat ds = concat (map encode fs)"
  shows "\<exists>s'. receive_all srv s ds = (s', map (\<lambda>f. truncate_to srv (content f)) fs, length fs) \<and> at_start s'"
  using frames_read [OF assms(1-3)] assms(4) by (simp add: receive_all_concat)

lemma start_example: "at_start tcps_sessConstruct"
  by (simp add: at_start_def tcps_sessConstruct_def)

lemma limit_example: "0 < iMaxLine srv_example"
  by (simp add: srv_example_def)

lemma frames_example:
  "list_all (frame_ok srv_example) [Counted ''hello'', Stuffed ''<1>x'' (CHR 0x0A)]"
  "concat [''5 he'', ''llo<1>'', ''x'' @ [CHR 0x0A]] =
     concat (map encode [Counted ''hello'', Stuffed ''<1>x'' (CHR 0x0A)])"
  by code_simp+

theorem framing_roundtrip_witness:
  "\<exists>s'. receive_all srv_example tcps_sessConstruct [''5 he'', ''llo<1>'', ''x'' @ [CHR 0x0A]] =
     (s', [''hell'', ''<1>x''], 2) \<and> at_start s'"
proof -
  have "map (\<lambda>f. truncate_to srv_example (content f)) [Counted ''hello'', Stuffed ''<1>x'' (CHR 0x0A)] =
      [''hell'', ''<1>x'']" "length [Counted ''hello'', Stuffed ''<1>x'' (CHR 0x0A)] = 2"
    by code_simp+
  then show ?thesis
    using framing_roundtrip [OF start_example frames_example(1) limit_example frames_example(2)] by (simp only:)
qed

text \<open>With \<open>discardTruncatedMsg\<close> off, a delimited message longer than \<open>iMaxLine\<close> is not
  split into consecutive pieces: behind each full buffer one byte of the message is in none of the
  messages submitted.\<close>

theorem split_drops_bytes:
  assumes "at_start s" "\<not> discardTruncatedMsg srv" "0 < iMaxLine srv" "m \<noteq> []"
    and "is_delim srv d" "list_all (\<lambda>c. \<not> is_delim srv c) m"
    and "\<not> (bSuppOctetFram srv \<and> is_digit (hd m))" "\<not> (bSPFramingFix srv \<and> hd m = CHR '' '')"
  shows "\<exists>s'. DataRcvd srv s (m @ [d]) =
    (s', filter (\<lambda>x. x \<noteq> []) (split_at_limit (nat (iMaxLine srv)) m),
     length (split_at_limit (nat (iMaxLine srv)) m)) \<and> at_start s'"
  using stuffed_start [OF assms(1,4,7,8), of "[d]"]
    split_body [of "s\<lparr>inputState := eInMsg, eFraming := TCP_FRAMING_OCTET_STUFFING\<rparr>" srv d m] assms
  by (simp add: at_start_def)

lemma split_example: "filter (\<lambda>x. x \<noteq> []) (split_at_limit 4 ''abcdefgh'') = [''abcd'', ''fgh'']"
  by (simp add: split_at_limit.simps)

theorem split_drops_bytes_witness:
  "\<exists>s' n. DataRcvd (srv_example\<lparr>discardTruncatedMsg := False\<rparr>) tcps_sessConstruct
      (''abcdefgh'' @ [CHR 0x0A]) = (s', [''abcd'', ''fgh''], n) \<and> at_start s'"
proof -
  let ?srv = "srv_example\<lparr>discardTruncatedMsg := False\<rparr>"
  have *: "is_delim ?srv (CHR 0x0A)" "list_all (\<lambda>c. \<not> is_delim ?srv c) ''abcdefgh''"
    "\<not> (bSuppOctetFram ?srv \<and> is_digit (hd ''abcdefgh''))" "\<not> (bSPFramingFix ?srv \<and> hd ''abcdefgh'' = CHR '' '')"
    "\<not> discardTruncatedMsg ?srv" "0 < iMaxLine ?srv" "nat (iMaxLine ?srv) = 4" "''abcdefgh'' \<noteq> []"
    by code_simp+
  show ?thesis
    using split_drops_bytes [OF start_example *(5,6,8,1-4)] unfolding *(7) split_example by blast
qed

end
