(* ===== verification/Rs_Parser.thy ===== *)
theory Rs_Parser
  imports Rs_Msg
begin

text \<open>
  The parser object (\<open>runtime/parser.c\<close>): lists of parsers, decompression and sanitization of the
  raw message, the PRI, and \<open>ParseMsg\<close>, which offers the message to one parser module after the
  other. A parser object holds the entry point of its module as a function. The zlib function
  \<open>uncompress\<close> is an argument: from the compressed bytes and the size of the destination it gives
  the uncompressed bytes, or None for any result but \<open>Z_OK\<close>. None as the result of an operation
  stands for an access outside the message buffer.

  The locale \<open>parser_module\<close> is what \<open>ParseMsg\<close> relies on: a module leaves the raw message alone,
  and changes nothing when it cannot parse the message.
\<close>

section \<open>Parser lists\<close>

record parser_t =
  pName :: string
  bDoSanitazion :: bool
  bDoPRIParsing :: bool
  parse_entry :: "smsg \<Rightarrow> rsRetVal \<times> smsg"

definition AddParserToList :: "parser_t list \<Rightarrow> parser_t \<Rightarrow> parser_t list" where
  "AddParserToList l p = l @ [p]"

fun FindParser :: "parser_t list \<Rightarrow> string \<Rightarrow> rsRetVal \<times> parser_t option" where
  "FindParser [] name = (RS_RET_PARSER_NOT_FOUND, None)"
| "FindParser (p # ps) name = (if strcmp (pName p) name = 0 then (RS_RET_OK, Some p) else FindParser ps name)"

definition AddDfltParser :: "parser_t list \<Rightarrow> parser_t list \<Rightarrow> string \<Rightarrow> rsRetVal \<times> parser_t list" where
  "AddDfltParser root dflt name = (case FindParser root name of
     (r, None) \<Rightarrow> (r, dflt) | (r, Some p) \<Rightarrow> (RS_RET_OK, AddParserToList dflt p))"

section \<open>Sanitization\<close>

record parser_cfg =
  bDropTrailingLF :: bool
  bSpaceLFOnRcv :: bool
  bEscapeCCOnRcv :: bool
  bEscape8BitChars :: bool
  bEscapeTab :: bool
  bParserEscapeCCCStyle :: bool
  cCCEscapeChar :: char
  iMaxLine :: nat
  bSupportCompressionExtension :: bool

definition hexdigit :: string where
  "hexdigit = ''0123456789ABCDEF''"

definition hex_escape :: "char \<Rightarrow> string" where
  "hex_escape c = [hexdigit ! nat (byte_val c div 16), hexdigit ! nat (byte_val c mod 16)]"

definition octal_escape :: "char \<Rightarrow> string" where
  "octal_escape c = [to_char (48 + byte_val c div 64), to_char (48 + byte_val c div 8 mod 8), to_char (48 + byte_val c mod 8)]"

definition c_style_escape :: "char \<Rightarrow> string" where
  "c_style_escape c =
     (if byte_val c = 0 then ''0'' else if byte_val c = 7 then ''a'' else if byte_val c = 8 then ''b''
      else if byte_val c = 27 then ''e'' else if byte_val c = 12 then ''f'' else if byte_val c = 10 then ''n''
      else if byte_val c = 13 then ''r'' else if byte_val c = 9 then ''t'' else if byte_val c = 11 then ''v''
      else ''x'' @ hex_escape c)"

text \<open>What the copy loop writes for one byte.\<close>

definition sanitize_char :: "parser_cfg \<Rightarrow> char \<Rightarrow> string" where
  "sanitize_char cfg c =
     (if byte_val c < 32 \<and> (byte_val c \<noteq> 9 \<or> bEscapeTab cfg)
      then if c = NUL \<or> bEscapeCCOnRcv cfg
        then if bParserEscapeCCCStyle cfg then CHR 0x5C # c_style_escape c
          else cCCEscapeChar cfg # octal_escape c
        else []
      else if byte_val c > 127 \<and> bEscape8BitChars cfg
      then if bParserEscapeCCCStyle cfg then CHR 0x5C # CHR ''x'' # hex_escape c
        else cCCEscapeChar cfg # octal_escape c
      else [c])"

text \<open>The sweep: whether sanitization is needed, the bytes passed (with LF replaced by SP if so
  configured), and the bytes from the one where the sweep stopped.\<close>

fun sweep :: "parser_cfg \<Rightarrow> bool \<Rightarrow> string \<Rightarrow> bool \<times> string \<times> string" where
  "sweep cfg need [] = (need, [], [])"
| "sweep cfg need (c # cs) =
     (if byte_val c < 32
      then if bSpaceLFOnRcv cfg \<and> byte_val c = 10
        then (case sweep cfg need cs of (n, d, r) \<Rightarrow> (n, CHR '' '' # d, r))
        else if c = NUL \<or> bEscapeCCOnRcv cfg
        then if \<not> bSpaceLFOnRcv cfg then (True, [], c # cs)
          else (case sweep cfg True cs of (n, d, r) \<Rightarrow> (n, c # d, r))
        else (case sweep cfg need cs of (n, d, r) \<Rightarrow> (n, c # d, r))
      else if byte_val c > 127 \<and> bEscape8BitChars cfg then (True, [], c # cs)
      else (case sweep cfg need cs of (n, d, r) \<Rightarrow> (n, c # d, r)))"

fun sanitize_copy :: "parser_cfg \<Rightarrow> nat \<Rightarrow> string \<Rightarrow> string \<Rightarrow> string" where
  "sanitize_copy cfg maxDest [] dst = dst"
| "sanitize_copy cfg maxDest (c # cs) dst =
     (if int (length dst) < (int maxDest - 3) mod 2 ^ 64
      then sanitize_copy cfg maxDest cs (dst @ sanitize_char cfg c) else dst)"

text \<open>A NUL and, if configured, an LF at the very end are dropped first.\<close>

definition drop_trailing :: "parser_cfg \<Rightarrow> string \<Rightarrow> string" where
  "drop_trailing cfg s =
     (let s1 = (if last s = NUL then butlast s else s)
      in if bDropTrailingLF cfg \<and> s1 \<noteq> [] \<and> byte_val (last s1) = 10 then butlast s1 else s1)"

definition SanitizeMsg :: "parser_cfg \<Rightarrow> smsg \<Rightarrow> smsg option" where
  "SanitizeMsg cfg m =
     (if raw m = [] then None
      else case sweep cfg False (drop_trailing cfg (raw m)) of (bNeedSanitize, d, r) \<Rightarrow>
        let s = d @ r
        in if \<not> bNeedSanitize then Some (m\<lparr>pszRawMsg := Some s\<rparr>)
           else let maxDest = min (length s * 4) (iMaxLine cfg);
                    iSrc = (if length d > 0 then min (length d - 1) maxDest else 0)
                in Some (MsgSetRawMsg m (sanitize_copy cfg maxDest (drop iSrc s) (take iSrc s))))"

section \<open>Decompression, PRI, parsing\<close>

definition uncompressMessage :: "(string \<Rightarrow> nat \<Rightarrow> string option) \<Rightarrow> parser_cfg \<Rightarrow> smsg \<Rightarrow> rsRetVal \<times> smsg" where
  "uncompressMessage zuncompress cfg m =
     (if raw m \<noteq> [] \<and> deref (raw m) = CHR ''z'' \<and> bSupportCompressionExtension cfg
      then (case zuncompress (tl (raw m)) (iMaxLine cfg) of
          None \<Rightarrow> (RS_RET_OK, m)
        | Some s \<Rightarrow> (RS_RET_OK, MsgSetRawMsg m s))
      else (RS_RET_OK, m))"

definition DEFUPRI :: "16 word" where
  "DEFUPRI = 13"

text \<open>The loop over the digits: the position, the length left and the value. The position is
  advanced before a byte is looked at, so it is kept as the list that starts with that byte.\<close>

function pri_loop :: "string \<Rightarrow> int \<Rightarrow> 16 word \<Rightarrow> string \<times> 16 word" where
  "pri_loop msg lenMsg pri =
     (if lenMsg - 1 > 0
      then if is_digit (deref (tl msg)) \<and> pri \<le> LOG_MAXPRI
        then pri_loop (tl msg) (lenMsg - 1) (10 * pri + word_of_int (byte_val (deref (tl msg)) - 48))
        else (tl msg, pri)
      else (msg, pri))"
  by pat_completeness auto
termination
  by (relation "measure (\<lambda>(msg, lenMsg, pri). nat lenMsg)") auto

definition ParsePRI :: "smsg \<Rightarrow> smsg" where
  "ParsePRI m =
     (if has_flag m NO_PRI_IN_RAW then MsgSetAfterPRIOffs m 0
      else
        let (msg, pri) =
          (if deref (raw m) = CHR ''<''
           then case pri_loop (raw m) (iLenRawMsg m) 0 of (msg, pri) \<Rightarrow>
             (let (msg1, pri1) = (if deref msg = CHR ''>'' then (tl msg, pri) else (msg, LOG_PRI_INVLD))
              in (msg1, if pri1 > LOG_MAXPRI then LOG_PRI_INVLD else pri1))
           else (raw m, DEFUPRI))
        in MsgSetAfterPRIOffs (msgSetPRI m pri)
             (if pri = LOG_PRI_INVLD then 0 else iLenRawMsg m - int (length msg)))"

fun parse_loop :: "parser_cfg \<Rightarrow> bool \<Rightarrow> bool \<Rightarrow> rsRetVal \<Rightarrow> parser_t list \<Rightarrow> smsg \<Rightarrow> (rsRetVal \<times> smsg) option" where
  "parse_loop cfg bIsSanitized bPRIisParsed localRet [] m = Some (localRet, m)"
| "parse_loop cfg bIsSanitized bPRIisParsed localRet (p # ps) m =
     (case (if bDoSanitazion p \<and> \<not> bIsSanitized
            then (case SanitizeMsg cfg m of
                None \<Rightarrow> None
              | Some m1 \<Rightarrow>
                  if bDoPRIParsing p \<and> \<not> bPRIisParsed then Some (True, True, ParsePRI m1)
                  else Some (True, bPRIisParsed, m1))
            else Some (bIsSanitized, bPRIisParsed, m)) of
        None \<Rightarrow> None
      | Some (san, pri, m2) \<Rightarrow> (case parse_entry p m2 of (r, m3) \<Rightarrow>
          if r \<noteq> RS_RET_COULD_NOT_PARSE then Some (r, m3) else parse_loop cfg san pri r ps m3))"

definition ParseMsg :: "(string \<Rightarrow> nat \<Rightarrow> string option) \<Rightarrow> parser_cfg \<Rightarrow> parser_t list \<Rightarrow> smsg \<Rightarrow> (rsRetVal \<times> smsg) option" where
  "ParseMsg zuncompress cfg parsers m =
     (if iLenRawMsg m = 0 then Some (RS_RET_EMPTY_MSG, m)
      else case parse_loop cfg False False RS_RET_ERR parsers (snd (uncompressMessage zuncompress cfg m)) of
          None \<Rightarrow> None
        | Some (r, m1) \<Rightarrow>
            if r \<noteq> RS_RET_OK then Some (r, m1)
            else Some (RS_RET_OK, m1\<lparr>msgFlags := msgFlags m1 AND NOT NEEDS_PARSING\<rparr>))"

locale parser_module =
  fixes entry :: "smsg \<Rightarrow> rsRetVal \<times> smsg"
  assumes raw_kept: "raw (snd (entry m)) = raw m"
    and reject_unchanged: "fst (entry m) = RS_RET_COULD_NOT_PARSE \<Longrightarrow> snd (entry m) = m"

declare pri_loop.simps [simp del]

section \<open>What sanitization does\<close>

lemma sweep_append: "sweep cfg need s = (n, d, r) \<Longrightarrow> \<not> bSpaceLFOnRcv cfg \<Longrightarrow> s = d @ r"
  by (induction cfg need s arbitrary: n d r rule: sweep.induct) (auto split: if_splits prod.splits)

lemma sweep_stop:
  "sweep cfg need s = (n, d, r) \<Longrightarrow> \<not> bSpaceLFOnRcv cfg \<Longrightarrow> \<not> need \<Longrightarrow> n \<longleftrightarrow> r \<noteq> []"
  by (induction cfg need s arbitrary: n d r rule: sweep.induct) (auto split: if_splits prod.splits)

text \<open>A byte that a message may contain after sanitization.\<close>

definition clean :: "parser_cfg \<Rightarrow> char \<Rightarrow> bool" where
  "clean cfg c \<longleftrightarrow> (byte_val c \<ge> 32 \<or> byte_val c = 9 \<and> \<not> bEscapeTab cfg) \<and> (bEscape8BitChars cfg \<longrightarrow> byte_val c \<le> 127)"

lemma sweep_passed:
  "sweep cfg need s = (n, d, r) \<Longrightarrow> \<not> bSpaceLFOnRcv cfg \<Longrightarrow> bEscapeCCOnRcv cfg \<Longrightarrow> c \<in> set d
    \<Longrightarrow> clean cfg c \<and> sanitize_char cfg c = [c]"
  by (induction cfg need s arbitrary: n d r rule: sweep.induct)
    (auto simp: clean_def sanitize_char_def split: if_splits prod.splits)

lemma hexdigit_printable: "i < 16 \<Longrightarrow> 48 \<le> byte_val (hexdigit ! i) \<and> byte_val (hexdigit ! i) \<le> 70"
proof -
  have "\<forall>i<16. 48 \<le> byte_val (hexdigit ! i) \<and> byte_val (hexdigit ! i) \<le> 70"
    by code_simp
  then show "i < 16 \<Longrightarrow> 48 \<le> byte_val (hexdigit ! i) \<and> byte_val (hexdigit ! i) \<le> 70"
    by blast
qed

lemma hex_escape_printable: "x \<in> set (hex_escape c) \<Longrightarrow> 32 \<le> byte_val x \<and> byte_val x \<le> 126"
proof -
  have "nat (byte_val c div 16) < 16" "nat (byte_val c mod 16) < 16"
    using byte_val_bounds [of c] zdiv_less [of 16 "byte_val c" 16] by auto
  then show "x \<in> set (hex_escape c) \<Longrightarrow> 32 \<le> byte_val x \<and> byte_val x \<le> 126"
    using hexdigit_printable unfolding hex_escape_def by fastforce
qed

lemma octal_escape_printable: "x \<in> set (octal_escape c) \<Longrightarrow> 32 \<le> byte_val x \<and> byte_val x \<le> 126"
proof -
  define a b d where "a = byte_val c div 64" "b = byte_val c div 8 mod 8" "d = byte_val c mod 8"
  have "0 \<le> a" "a < 8" "0 \<le> b" "b < 8" "0 \<le> d" "d < 8"
    using byte_val_bounds [of c] zdiv_less [of 64 "byte_val c" 8]
    by (auto simp: a_b_d_def pos_imp_zdiv_nonneg_iff)
  then show "x \<in> set (octal_escape c) \<Longrightarrow> 32 \<le> byte_val x \<and> byte_val x \<le> 126"
    unfolding octal_escape_def a_b_d_def [symmetric] by (auto simp: byte_val_to_char)
qed

lemma c_style_escape_printable: "x \<in> set (c_style_escape c) \<Longrightarrow> 32 \<le> byte_val x \<and> byte_val x \<le> 126"
  using hex_escape_printable by (auto simp: c_style_escape_def byte_val_def split: if_splits)

lemma sanitize_char_clean:
  assumes "bEscapeCCOnRcv cfg" "32 \<le> byte_val (cCCEscapeChar cfg)" "byte_val (cCCEscapeChar cfg) \<le> 126"
    and "x \<in> set (sanitize_char cfg c)"
  shows "clean cfg x"
proof -
  have p: "32 \<le> byte_val y \<Longrightarrow> byte_val y \<le> 126 \<Longrightarrow> clean cfg y" for y
    by (simp add: clean_def)
  have "x = c \<and> clean cfg c \<or> 32 \<le> byte_val x \<and> byte_val x \<le> 126"
    using assms(2-4) hex_escape_printable [of x c] octal_escape_printable [of x c] c_style_escape_printable [of x c] assms(1)
    by (auto simp: sanitize_char_def clean_def byte_val_def [of "CHR 0x5C"] byte_val_def [of "CHR ''x''"] split: if_splits)
  then show ?thesis
    using p by blast
qed

lemma length_sanitize_char: "length (sanitize_char cfg c) \<le> 4"
  by (simp add: sanitize_char_def hex_escape_def octal_escape_def c_style_escape_def)

lemma sanitize_copy_set:
  "x \<in> set (sanitize_copy cfg n s dst) \<Longrightarrow> x \<in> set dst \<or> (\<exists>c \<in> set s. x \<in> set (sanitize_char cfg c))"
  by (induction cfg n s dst rule: sanitize_copy.induct) (auto split: if_splits)

lemma sanitize_copy_bound:
  assumes "4 \<le> n" "n < 2 ^ 63" "length dst \<le> n"
  shows "length (sanitize_copy cfg n s dst) \<le> n"
  using assms
proof (induction cfg n s dst rule: sanitize_copy.induct)
  case (2 cfg n c cs dst)
  have "(int n - 3) mod 2 ^ 64 = int n - 3"
    using 2(2,3) by simp
  then show ?case
    using 2 length_sanitize_char [of cfg c] by auto
qed simp

lemma sanitize_copy_all:
  assumes "length dst + 4 * length s \<le> n" "4 \<le> n" "n < 2 ^ 63"
  shows "sanitize_copy cfg n s dst = dst @ concat (map (sanitize_char cfg) s)"
  using assms
proof (induction cfg n s dst rule: sanitize_copy.induct)
  case (2 cfg n c cs dst)
  have "(int n - 3) mod 2 ^ 64 = int n - 3"
    using 2(3,4) by simp
  moreover have "length (dst @ sanitize_char cfg c) + 4 * length cs \<le> n"
    using 2(2) length_sanitize_char [of cfg c] by auto
  ultimately show ?case
    using 2 by auto
qed simp

lemma raw_MsgSetRawMsg [simp]: "raw (MsgSetRawMsg m s) = s"
  by (simp add: raw_def MsgSetRawMsg_def Let_def)

lemma concat_map_self: "(\<And>c. c \<in> set s \<Longrightarrow> f c = [c]) \<Longrightarrow> concat (map f s) = s"
  by (induction s) auto

lemma SanitizeMsg_raw:
  assumes "raw m \<noteq> []" "\<not> bSpaceLFOnRcv cfg" "bEscapeCCOnRcv cfg" "128 \<le> iMaxLine cfg" "iMaxLine cfg < 2 ^ 31"
  shows "\<exists>m1. SanitizeMsg cfg m = Some m1
    \<and> (\<forall>x \<in> set (raw m1). clean cfg x \<or> (\<exists>c \<in> set (drop_trailing cfg (raw m)). x \<in> set (sanitize_char cfg c)))
    \<and> (4 * length (drop_trailing cfg (raw m)) \<le> iMaxLine cfg
        \<longrightarrow> raw m1 = concat (map (sanitize_char cfg) (drop_trailing cfg (raw m))))
    \<and> (raw m1 = drop_trailing cfg (raw m) \<or> length (raw m1) \<le> iMaxLine cfg)"
proof -
  obtain n d r where sw: "sweep cfg False (drop_trailing cfg (raw m)) = (n, d, r)"
    by (metis prod_cases3)
  let ?s = "drop_trailing cfg (raw m)"
  have s: "?s = d @ r" and n: "n \<longleftrightarrow> r \<noteq> []"
    using sweep_append [OF sw assms(2)] sweep_stop [OF sw assms(2)] by auto
  have pass: "clean cfg c" "sanitize_char cfg c = [c]" if "c \<in> set d" for c
    using sweep_passed [OF sw assms(2,3) that] by auto
  show ?thesis
  proof (cases n)
    case False
    with n s have "?s = d"
      by simp
    then show ?thesis
      using False assms(1) sw pass n by (simp add: SanitizeMsg_def concat_map_self)
  next
    case True
    define M where "M = min (length ?s * 4) (iMaxLine cfg)"
    define i where "i = (if length d > 0 then min (length d - 1) M else 0)"
    define t where "t = sanitize_copy cfg M (drop i ?s) (take i ?s)"
    have *: "SanitizeMsg cfg m = Some (MsgSetRawMsg m t)"
      using True assms(1) sw s by (simp add: SanitizeMsg_def M_def i_def t_def Let_def)
    have "?s \<noteq> []"
      using True n s by simp
    then have M: "4 \<le> M" "M < 2 ^ 63" "i \<le> M" "i \<le> length d"
      using assms(4,5) by (auto simp: M_def i_def Suc_le_eq)
    have tk: "take i ?s = take i d"
      using M(4) s by simp
    have "length t \<le> M"
      unfolding t_def by (rule sanitize_copy_bound) (use M in auto)
    then have "length t \<le> iMaxLine cfg"
      by (simp add: M_def)
    moreover have "clean cfg x \<or> (\<exists>c \<in> set ?s. x \<in> set (sanitize_char cfg c))" if "x \<in> set t" for x
      using sanitize_copy_set [of x cfg M "drop i ?s" "take i ?s"] that pass(1)
      by (auto simp: t_def tk dest: in_set_takeD in_set_dropD)
    moreover have "t = concat (map (sanitize_char cfg) ?s)" if "4 * length ?s \<le> iMaxLine cfg"
    proof -
      have "length (take i ?s) + 4 * length (drop i ?s) \<le> M"
        using that M(4) s by (auto simp: M_def)
      then have "t = take i ?s @ concat (map (sanitize_char cfg) (drop i ?s))"
        unfolding t_def by (rule sanitize_copy_all) (use M in auto)
      also have "take i ?s = concat (map (sanitize_char cfg) (take i ?s))"
        unfolding tk by (rule concat_map_self [symmetric]) (auto dest: in_set_takeD intro: pass)
      finally show ?thesis
        by (metis append_take_drop_id concat_append map_append)
    qed
    ultimately show ?thesis
      using * by simp
  qed
qed


definition parser_cfg_default :: parser_cfg where
  "parser_cfg_default = \<lparr>bDropTrailingLF = True, bSpaceLFOnRcv = False, bEscapeCCOnRcv = True,
     bEscape8BitChars = False, bEscapeTab = True, bParserEscapeCCCStyle = False, cCCEscapeChar = CHR ''#'',
     iMaxLine = 8192, bSupportCompressionExtension = True\<rparr>"

lemmas byte_val_CHR = byte_val_def [of "CHR ''#''"] byte_val_def [of "CHR '' ''"]


text \<open>When LF is replaced by SP the sweep does not stop, so that the fast copy takes everything but the
  last byte.\<close>

lemma sweep_space_LF:
  "bSpaceLFOnRcv cfg \<Longrightarrow> \<not> bEscape8BitChars cfg \<Longrightarrow> sweep cfg need s =
    (need \<or> (\<exists>c \<in> set s. byte_val c < 32 \<and> byte_val c \<noteq> 10 \<and> (c = NUL \<or> bEscapeCCOnRcv cfg)),
     map (\<lambda>c. if byte_val c = 10 then CHR '' '' else c) s, [])"
  by (induction cfg need s rule: sweep.induct) auto

text \<open>With LF replaced by SP and 8-bit characters not escaped, sanitization looks at the last byte
  only: a message that needs it gets every other control character, NUL included, copied as it is.\<close>

theorem SanitizeMsg_SpaceLF_incomplete:
  assumes "bSpaceLFOnRcv cfg" "\<not> bEscape8BitChars cfg" "128 \<le> iMaxLine cfg" "iMaxLine cfg < 2 ^ 31"
    and "raw m \<noteq> []" "drop_trailing cfg (raw m) = s @ [c]" "4 * length (s @ [c]) \<le> iMaxLine cfg"
    and "\<exists>x \<in> set (s @ [c]). byte_val x < 32 \<and> byte_val x \<noteq> 10 \<and> (x = NUL \<or> bEscapeCCOnRcv cfg)"
  shows "\<exists>m1. SanitizeMsg cfg m = Some m1
    \<and> raw m1 = map (\<lambda>x. if byte_val x = 10 then CHR '' '' else x) s
        @ sanitize_char cfg (if byte_val c = 10 then CHR '' '' else c)"
proof -
  let ?f = "\<lambda>x. if byte_val x = 10 then CHR '' '' else x"
  define g where "g = map ?f (s @ [c])"
  have g: "length g = Suc (length s)" "take (length s) g = map ?f s" "drop (length s) g = [?f c]"
    by (simp_all add: g_def)
  have sw: "sweep cfg False (s @ [c]) = (True, g, [])"
    using sweep_space_LF [OF assms(1,2), of False "s @ [c]"] assms(8) by (simp add: g_def)
  have M: "min (length g * 4) (iMaxLine cfg) = 4 * length g" "min (length s) (4 * length g) = length s"
      "4 \<le> 4 * length g" "4 * length g < 2 ^ 63"
    using assms(3,4,7) g(1) by auto
  have "SanitizeMsg cfg m = Some (MsgSetRawMsg m (sanitize_copy cfg (4 * length g) [?f c] (map ?f s)))"
    unfolding SanitizeMsg_def assms(6) sw using assms(5) M(1,2) g
    by (cases "g = []") (simp_all add: Let_def del: sanitize_copy.simps)
  moreover have "sanitize_copy cfg (4 * length g) [?f c] (map ?f s) = map ?f s @ concat (map (sanitize_char cfg) [?f c])"
    by (rule sanitize_copy_all) (use M(3,4) g(1) in auto)
  ultimately show ?thesis
    by simp
qed

theorem SanitizeMsg_SpaceLF_incomplete_witness:
  "\<exists>m1. SanitizeMsg (parser_cfg_default\<lparr>bSpaceLFOnRcv := True\<rparr>)
      (msgBaseConstruct\<lparr>pszRawMsg := Some [CHR ''a'', CHR 0x1B, CHR ''b'']\<rparr>) = Some m1
    \<and> raw m1 = [CHR ''a'', CHR 0x1B, CHR ''b'']"
proof -
  let ?cfg = "parser_cfg_default\<lparr>bSpaceLFOnRcv := True\<rparr>" and ?m = "msgBaseConstruct\<lparr>pszRawMsg := Some [CHR ''a'', CHR 0x1B, CHR ''b'']\<rparr>"
  have "drop_trailing ?cfg (raw ?m) = [CHR ''a'', CHR 0x1B] @ [CHR ''b'']" "byte_val (CHR 0x1B) = 27"
      "sanitize_char ?cfg (CHR ''b'') = ''b''" "byte_val (CHR ''a'') = 97" "byte_val (CHR ''b'') = 98"
    by code_simp+
  then show ?thesis
    using SanitizeMsg_SpaceLF_incomplete [of ?cfg ?m "[CHR ''a'', CHR 0x1B]" "CHR ''b''"]
    by (simp add: parser_cfg_default_def)
qed

section \<open>The PRI\<close>

text \<open>The value of a digit string, saturating above the largest PRI as the loop does.\<close>

fun pri_value :: "string \<Rightarrow> nat \<Rightarrow> nat" where
  "pri_value [] v = v"
| "pri_value (c # cs) v = (if v \<le> 191 then pri_value cs (10 * v + nat (byte_val c - 48)) else v)"

lemma pri_loop_digits:
  assumes "\<forall>c \<in> set ds. is_digit c" "\<not> is_digit (deref rest)" "v < 2000"
  shows "\<exists>p. pri_loop (x # ds @ rest) (1 + int (length ds + length rest)) (of_nat v) = (p, of_nat (pri_value ds v))
    \<and> (pri_value ds v \<le> 191 \<longrightarrow> (rest \<noteq> [] \<longrightarrow> p = rest) \<and> (rest = [] \<longrightarrow> p = [last (x # ds)]))
    \<and> pri_value ds v < 2000"
  using assms
proof (induction ds arbitrary: x v)
  case Nil
  then show ?case
    by (cases "rest = []") (subst pri_loop.simps; auto simp: )+
next
  case (Cons c cs)
  have le: "of_nat v \<le> LOG_MAXPRI \<longleftrightarrow> v \<le> 191"
    using Cons.prems(3) by (simp add: LOG_MAXPRI_def word_le_nat_alt unat_of_nat)
  have c: "is_digit c" "0 \<le> byte_val c - 48" "byte_val c - 48 < 10"
    using Cons.prems(1) by (auto simp: is_digit_def)
  have step: "10 * of_nat v + word_of_int (byte_val c - 48) = (of_nat (10 * v + nat (byte_val c - 48)) :: 16 word)"
    using c(2) by simp
  show ?case
  proof (cases "v \<le> 191")
    case True
    then have "10 * v + nat (byte_val c - 48) < 2000"
      using c by linarith
    from Cons.IH [OF _ Cons.prems(2) this, of c] Cons.prems(1) True c(1) le step show ?thesis
      by (subst pri_loop.simps) (auto simp: algebra_simps)
  next
    case False
    with le Cons.prems(3) show ?thesis
      by (subst pri_loop.simps) auto
  qed
qed

definition digits_value :: "string \<Rightarrow> nat" where
  "digits_value ds = foldl (\<lambda>v c. 10 * v + nat (byte_val c - 48)) 0 ds"

lemma foldl_digits_ge: "v \<le> foldl (\<lambda>v c. 10 * v + nat (byte_val c - 48)) v ds"
proof (induction ds arbitrary: v)
  case (Cons c ds)
  from Cons [of "10 * v + nat (byte_val c - 48)"] show ?case
    by simp
qed simp

lemma pri_value_eq:
  "if foldl (\<lambda>v c. 10 * v + nat (byte_val c - 48)) v ds \<le> 191
   then pri_value ds v = foldl (\<lambda>v c. 10 * v + nat (byte_val c - 48)) v ds else pri_value ds v > 191"
proof (induction ds v rule: pri_value.induct)
  case (2 c cs v)
  then show ?case
    using foldl_digits_ge [of "10 * v + nat (byte_val c - 48)" cs] by (cases "v \<le> 191") auto
qed simp

lemma AfterPRIOffs_fields [simp]:
  "getPRIi (MsgSetAfterPRIOffs m n) = getPRIi m" "offAfterPRI (MsgSetAfterPRIOffs m n) = n"
  by (simp_all add: MsgSetAfterPRIOffs_def getPRIi_def)

lemma deref_dropWhile: "\<not> is_digit (deref (dropWhile is_digit s))"
  by (induction s) auto

lemma ParsePRI_fields:
  assumes "\<not> has_flag m NO_PRI_IN_RAW" "raw m = CHR ''<'' # ds @ rest" "\<forall>c \<in> set ds. is_digit c" "\<not> is_digit (deref rest)"
  shows "ParsePRI m = (if deref rest = CHR ''>'' \<and> digits_value ds \<le> 191
    then MsgSetAfterPRIOffs (msgSetPRI m (of_nat (digits_value ds))) (2 + int (length ds))
    else MsgSetAfterPRIOffs (msgSetPRI m LOG_PRI_INVLD) 0)"
proof -
  define v where "v = pri_value ds 0"
  obtain p where p: "pri_loop (CHR ''<'' # ds @ rest) (1 + int (length ds + length rest)) 0 = (p, of_nat v)"
      "v \<le> 191 \<longrightarrow> (rest \<noteq> [] \<longrightarrow> p = rest) \<and> (rest = [] \<longrightarrow> p = [last (CHR ''<'' # ds)])" "v < 2000"
    using pri_loop_digits [OF assms(3,4), of 0 "CHR ''<''"] by (auto simp: v_def)
  have v: "if digits_value ds \<le> 191 then v = digits_value ds else v > 191"
    using pri_value_eq [of 0 ds] by (simp add: v_def digits_value_def)
  have le: "(of_nat v :: 16 word) > LOG_MAXPRI \<longleftrightarrow> v > 191"
    using p(3) by (simp add: LOG_MAXPRI_def word_less_nat_alt unat_of_nat)
  have inv: "LOG_PRI_INVLD > LOG_MAXPRI"
    by code_simp
  have gt: "deref p = CHR ''>'' \<longleftrightarrow> deref rest = CHR ''>''" if "v \<le> 191"
  proof (cases "rest = []")
    case True
    have "last (CHR ''<'' # ds) \<noteq> CHR ''>''"
      using assms(3) by (cases ds rule: rev_cases) (auto simp: is_digit_def byte_val_def)
    with True that p(2) show ?thesis
      by (auto simp: NUL_def)
  qed (use that p(2) in simp)
  have len: "iLenRawMsg m = 1 + int (length ds + length rest)"
    using assms(2) by (simp add: iLenRawMsg_def)
  show ?thesis
  proof (cases "deref rest = CHR ''>'' \<and> v \<le> 191")
    case True
    then have "p = rest" "rest \<noteq> []" "of_nat v \<noteq> LOG_PRI_INVLD"
      using p(2) le inv by (auto simp: NUL_def)
    then show ?thesis
      using True v p(1) assms(1,2) le len unfolding ParsePRI_def
      by (auto split: if_splits simp: of_nat_diff Suc_le_eq)
  next
    case False
    then show ?thesis
      using v p(1) gt assms(1,2) le len inv unfolding ParsePRI_def by (auto split: if_splits)
  qed
qed

text \<open>(C21) The PRI of a message is parsed completely: a message that starts with \<open><\<close>, digits whose
  value is at most 191, and \<open>>\<close> gets that priority and the offset behind it; a message that starts
  with \<open><\<close> and anything else gets the invalid priority and offset 0; a message without \<open><\<close> gets the
  default priority 13 and offset 0. There may be no digit at all, which counts as 0.\<close>

theorem ParsePRI_correct:
  assumes "\<not> has_flag m NO_PRI_IN_RAW"
  shows "let ds = takeWhile is_digit (tl (raw m)); rest = dropWhile is_digit (tl (raw m))
    in (getPRIi (ParsePRI m), offAfterPRI (ParsePRI m)) =
      (if deref (raw m) \<noteq> CHR ''<'' then (13, 0)
       else if deref rest = CHR ''>'' \<and> digits_value ds \<le> 191 then (of_nat (digits_value ds), int (length ds) + 2)
       else (LOG_PRI_INVLD, 0))"
proof (cases "deref (raw m) = CHR ''<''")
  case False
  have "DEFUPRI \<le> LOG_MAXPRI" "DEFUPRI \<noteq> LOG_PRI_INVLD"
    by code_simp+
  with False assms show ?thesis
    using conjunct1 [OF getPRIi_msgSetPRI, of m DEFUPRI]
    by (simp add: ParsePRI_def DEFUPRI_def iLenRawMsg_def Let_def)
next
  case True
  let ?ds = "takeWhile is_digit (tl (raw m))" and ?rest = "dropWhile is_digit (tl (raw m))"
  have r: "raw m = CHR ''<'' # ?ds @ ?rest"
    using True by (cases "raw m") (auto simp: NUL_def)
  have d: "\<forall>c \<in> set ?ds. is_digit c" "\<not> is_digit (deref ?rest)"
    by (auto dest: set_takeWhileD simp: deref_dropWhile)
  have "(of_nat v :: 16 word) \<le> LOG_MAXPRI" if "v \<le> 191" for v
    using that by (simp add: LOG_MAXPRI_def word_le_nat_alt unat_of_nat)
  moreover have "\<not> LOG_PRI_INVLD \<le> LOG_MAXPRI"
    by code_simp
  ultimately show ?thesis
    using True ParsePRI_fields [OF assms r d] conjunct1 [OF getPRIi_msgSetPRI] by (simp add: Let_def)
qed

theorem ParsePRI_correct_witness:
  "getPRIi (ParsePRI (msgBaseConstruct\<lparr>pszRawMsg := Some ''<34>1 x''\<rparr>)) = 34
    \<and> offAfterPRI (ParsePRI (msgBaseConstruct\<lparr>pszRawMsg := Some ''<34>1 x''\<rparr>)) = 4"
proof -
  have "\<not> has_flag (msgBaseConstruct\<lparr>pszRawMsg := Some ''<34>1 x''\<rparr>) NO_PRI_IN_RAW" "is_digit (CHR ''3'')" "is_digit (CHR ''4'')"
      "\<not> is_digit (CHR ''>'')" "digits_value ''34'' = 34"
    by code_simp+
  with ParsePRI_correct [of "msgBaseConstruct\<lparr>pszRawMsg := Some ''<34>1 x''\<rparr>"] show ?thesis
    by simp
qed

section \<open>Parsing a message\<close>

text \<open>The only undefined run.\<close>

lemma SanitizeMsg_None: "SanitizeMsg cfg m = None \<longleftrightarrow> raw m = []"
  by (auto simp: SanitizeMsg_def Let_def split: prod.splits)

lemma parse_loop_sanitized: "\<exists>r1 m1. parse_loop cfg True pri r ps m = Some (r1, m1)"
  by (induction ps arbitrary: pri r m) (simp_all split: prod.splits)


definition parser_example :: parser_t where
  "parser_example = \<lparr>pName = ''p'', bDoSanitazion = True, bDoPRIParsing = True, parse_entry = (\<lambda>m. (RS_RET_OK, m))\<rparr>"


text \<open>The setters that parser modules use keep the raw message.\<close>

lemma raw_tail:
  assumes "raw m = x @ msg"
  shows "drop (nat (iLenRawMsg m - int (length msg))) (raw m) = msg" "int (length msg) \<le> iLenRawMsg m"
  by (simp_all add: assms iLenRawMsg_def)

lemma raw_setters [simp]:
  "raw (MsgSetMSGoffs m n) = raw m" "raw (MsgSetStructuredData m s) = raw m" "raw (MsgSetMSGID m s) = raw m"
  "raw (MsgSetPROCID m s) = raw m" "raw (MsgSetAPPNAME m s) = raw m" "raw (MsgSetHOSTNAME m s) = raw m"
  "raw (setProtocolVersion m v) = raw m" "raw (m\<lparr>tTIMESTAMP := t\<rparr>) = raw m" "raw (MsgSetTAG m s) = raw m"
  by (simp_all add: raw_def MsgSetMSGoffs_def MsgSetStructuredData_def MsgSetMSGID_def MsgSetPROCID_def
      MsgSetAPPNAME_def MsgSetHOSTNAME_def setProtocolVersion_def MsgSetTAG_def)

end
