(* ===== verification/Datetime_Format.thy ===== *)
theory Datetime_Format
  imports Datetime
begin

text \<open>
  Writing timestamps (the \<open>formatTimestamp...\<close> functions of \<open>runtime/datetime.c\<close>) and
  the round trips through the parsers. A formatter returns the bytes it writes in front of the
  terminating NUL and the number it returns to the caller; the two differ for some of them.
\<close>

section \<open>Digits\<close>

text \<open>\<open>(v / k) % 10 + '0'\<close>, and the runs of it the formatters write for a field.\<close>

definition digit_of :: "int \<Rightarrow> int \<Rightarrow> char" where
  "digit_of v k = to_char ((v sdiv k) smod 10 + 48)"

definition two_digits :: "int \<Rightarrow> string" where
  "two_digits v = [digit_of v 10, digit_of v 1]"

definition four_digits :: "int \<Rightarrow> string" where
  "four_digits v = [digit_of v 1000, digit_of v 100, digit_of v 10, digit_of v 1]"

definition tenPowers :: "int list" where
  "tenPowers = [1, 10, 100, 1000, 10000, 100000]"

text \<open>The loop \<open>while(power > 0)\<close> over the digits of the fraction.\<close>

function secfrac_loop :: "int \<Rightarrow> int \<Rightarrow> string" where
  "secfrac_loop pow frac =
     (if pow > 0
      then let digit = to_short (frac sdiv pow)
           in to_char (digit + 48) # secfrac_loop (pow sdiv 10) (frac - digit * pow)
      else [])"
  by pat_completeness auto

termination secfrac_loop
  by (relation "measure (\<lambda>(pow, frac). nat pow)") auto

declare secfrac_loop.simps [simp del]

lemma secfrac_loop_code [code]:
  "secfrac_loop pow frac =
    (case pow > 0 of
       True \<Rightarrow> let digit = to_short (frac sdiv pow)
           in to_char (digit + 48) # secfrac_loop (pow sdiv 10) (frac - digit * pow)
     | False \<Rightarrow> [])"
  by (simp add: secfrac_loop.simps [of pow frac] split: bool.split)

definition secfrac_digits :: "syslogTime \<Rightarrow> string" where
  "secfrac_digits ts =
     secfrac_loop (tenPowers ! nat ((secfracPrecision ts - 1) smod 6)) (secfrac ts)"

section \<open>Formatters\<close>

definition formatTimestampToMySQL :: "syslogTime \<Rightarrow> string \<times> int" where
  "formatTimestampToMySQL ts =
     (four_digits (year ts) @ two_digits (month ts) @ two_digits (day ts) @ two_digits (hour ts)
      @ two_digits (minute ts) @ two_digits (second ts), 15)"

definition formatTimestampToPgSQL :: "syslogTime \<Rightarrow> string \<times> int" where
  "formatTimestampToPgSQL ts =
     (four_digits (year ts) @ ''-'' @ two_digits (month ts) @ ''-'' @ two_digits (day ts) @ '' ''
      @ two_digits (hour ts) @ '':'' @ two_digits (minute ts) @ '':'' @ two_digits (second ts), 19)"

definition formatTimestampSecFrac :: "syslogTime \<Rightarrow> string \<times> int" where
  "formatTimestampSecFrac ts =
     (let buf = (if secfracPrecision ts > 0 then secfrac_digits ts else ''0'')
      in (buf, int (length buf)))"

text \<open>The zone at the end of an RFC 3339 timestamp.\<close>

definition format_tz3339 :: "syslogTime \<Rightarrow> string" where
  "format_tz3339 ts =
     (if OffsetMode ts = CHR ''Z'' then ''Z''
      else OffsetMode ts # two_digits (OffsetHour ts) @ '':'' @ two_digits (OffsetMinute ts))"

definition formatTimestamp3339 :: "syslogTime \<Rightarrow> string \<times> int" where
  "formatTimestamp3339 ts =
     (let buf = four_digits (year ts) @ ''-'' @ two_digits (month ts) @ ''-'' @ two_digits (day ts)
            @ ''T'' @ two_digits (hour ts) @ '':'' @ two_digits (minute ts) @ '':''
            @ two_digits (second ts)
            @ (if secfracPrecision ts > 0 then CHR ''.'' # secfrac_digits ts else [])
            @ format_tz3339 ts
      in (buf, int (length buf)))"

definition monthNames :: "string list" where
  "monthNames = [''Jan'', ''Feb'', ''Mar'', ''Apr'', ''May'', ''Jun'', ''Jul'', ''Aug'', ''Sep'',
     ''Oct'', ''Nov'', ''Dec'']"

definition formatTimestamp3164 :: "syslogTime \<Rightarrow> bool \<Rightarrow> string \<times> int" where
  "formatTimestamp3164 ts bBuggyDay =
     (let iDay = (day ts sdiv 10) smod 10
      in (monthNames ! nat ((month ts - 1) smod 12) @ '' ''
          @ [if bBuggyDay \<or> iDay > 0 then to_char (iDay + 48) else CHR '' '', digit_of (day ts) 1]
          @ '' '' @ two_digits (hour ts) @ '':'' @ two_digits (minute ts) @ '':''
          @ two_digits (second ts), 16))"

datatype dateTimeFormat_t = DATE_INVALID | DATE_RFC3164 | DATE_RFC3339 | DATE_UNIX

definition getDateTimeFormatFromStr :: "string \<Rightarrow> dateTimeFormat_t" where
  "getDateTimeFormatFromStr s =
     (if strcmp s ''date-rfc3164'' = 0 then DATE_RFC3164
      else if strcmp s ''date-rfc3339'' = 0 then DATE_RFC3339
      else if strcmp s ''date-unix'' = 0 then DATE_UNIX
      else DATE_INVALID)"

section \<open>Scanning what was written\<close>

definition decimal :: "int \<Rightarrow> string \<Rightarrow> int" where
  "decimal i ds = foldl (\<lambda>a c. a * 10 + byte_val c - 48) i ds"

lemma ParseInt32_loop_digits:
  assumes "list_all is_digit ds" "length ds \<le> 9" "0 \<le> i" "i < 10 ^ (9 - length ds)"
    and "\<not> is_digit (deref rest)" "int (length ds) \<le> len"
  shows "ParseInt32_loop i (ds @ rest) len = (decimal i ds, rest, len - int (length ds))"
  using assms
proof (induction ds arbitrary: i len)
  case Nil
  then show ?case
    by (cases rest) (auto simp: decimal_def)
next
  case (Cons d ds)
  have pow: "(10::int) ^ (9 - length ds) = 10 * 10 ^ (9 - length (d # ds))"
    using Cons.prems(2) by (simp add: power_Suc [symmetric] Suc_diff_le del: power_Suc)
  have d: "48 \<le> byte_val d" "byte_val d \<le> 57"
    using Cons.prems(1) by (auto simp: is_digit_def)
  have "(10::int) ^ (9 - length (d # ds)) \<le> 10 ^ 8"
    by (intro power_increasing) auto
  then have i: "i < INT_MAX sdiv 10 - 1"
    using Cons.prems(4) by (simp add: INT_MAX_def)
  have "i * 10 + byte_val d - 48 < 10 ^ (9 - length ds)"
    using Cons.prems(4) d pow by simp
  with Cons.IH [of "i * 10 + byte_val d - 48" "len - 1"] Cons.prems i d show ?case
    by (simp add: decimal_def)
qed

lemma srSLMGParseInt32_digits:
  assumes "list_all is_digit ds" "length ds \<le> 9" "\<not> is_digit (deref rest)" "int (length ds) \<le> len"
  shows "srSLMGParseInt32 (ds @ rest) len = (decimal 0 ds, rest, len - int (length ds))"
  using assms by (simp add: srSLMGParseInt32_def ParseInt32_loop_digits)

lemma digit_of_eq: "0 \<le> v \<Longrightarrow> 0 < k \<Longrightarrow> byte_val (digit_of v k) = v div k mod 10 + 48"
  by (simp add: digit_of_def byte_val_to_char pos_imp_zdiv_nonneg_iff)

lemma is_digit_digit_of: "0 \<le> v \<Longrightarrow> 0 < k \<Longrightarrow> is_digit (digit_of v k)"
  by (simp add: is_digit_def digit_of_eq)

lemma length_two_digits [simp]: "length (two_digits v) = 2"
  and length_four_digits [simp]: "length (four_digits v) = 4"
  by (simp_all add: two_digits_def four_digits_def)

lemma scan_two_digits:
  assumes "0 \<le> v" "v \<le> 99" "\<not> is_digit (deref rest)" "2 \<le> len"
  shows "srSLMGParseInt32 (two_digits v @ rest) len = (v, rest, len - 2)"
proof -
  have "list_all is_digit (two_digits v)" "decimal 0 (two_digits v) = v"
    using assms by (simp_all add: two_digits_def is_digit_digit_of decimal_def digit_of_eq)
  with srSLMGParseInt32_digits [of "two_digits v" rest len] assms show ?thesis
    by simp
qed

lemma scan_four_digits:
  assumes "0 \<le> v" "v \<le> 9999" "\<not> is_digit (deref rest)" "4 \<le> len"
  shows "srSLMGParseInt32 (four_digits v @ rest) len = (v, rest, len - 4)"
proof -
  have q: "v div 100 = v div 10 div 10" "v div 1000 = v div 10 div 10 div 10"
    by (simp_all add: zdiv_zmult2_eq [symmetric])
  have "v div 1000 mod 10 = v div 1000"
    using assms zdiv_less [of 1000 v 10] by (simp add: pos_imp_zdiv_nonneg_iff)
  then have "decimal 0 (four_digits v) = v"
    using div_mult_mod_eq [of v 10] div_mult_mod_eq [of "v div 10" 10]
      div_mult_mod_eq [of "v div 10 div 10" 10] assms(1)
    by (simp add: four_digits_def decimal_def digit_of_eq q)
  moreover have "list_all is_digit (four_digits v)"
    using assms by (simp add: four_digits_def is_digit_digit_of)
  ultimately show ?thesis
    using srSLMGParseInt32_digits [of "four_digits v" rest len] assms by simp
qed

lemma number_in_two_digits:
  assumes "lo \<le> v" "v \<le> hi" "0 \<le> v" "v \<le> 99" "\<not> is_digit (deref rest)" "2 \<le> len"
  shows "number_in lo hi (two_digits v @ rest) len = Some (v, rest, len - 2)"
  using assms by (simp add: number_in_def scan_two_digits)

lemma secfrac_loop_digits:
  assumes "0 \<le> frac" "frac < 10 ^ Suc k" "0 \<le> i"
  shows "list_all is_digit (secfrac_loop (10 ^ k) frac) \<and> length (secfrac_loop (10 ^ k) frac) = Suc k
    \<and> decimal i (secfrac_loop (10 ^ k) frac) = i * 10 ^ Suc k + frac"
  using assms
proof (induction k arbitrary: frac i)
  case 0
  then show ?case
    by (simp add: secfrac_loop.simps [of 1] secfrac_loop.simps [of 0] is_digit_def decimal_def ranges
        bytes)
next
  case (Suc k)
  let ?d = "frac div 10 ^ Suc k"
  have d: "0 \<le> ?d" "?d < 10"
    using Suc.prems by (simp add: pos_imp_zdiv_nonneg_iff)
      (use Suc.prems in \<open>auto intro!: zdiv_less simp: algebra_simps\<close>)
  have m: "frac - ?d * 10 ^ Suc k = frac mod 10 ^ Suc k"
    by (metis minus_div_mult_eq_mod)
  have step: "secfrac_loop (10 ^ Suc k) frac =
      to_char (?d + 48) # secfrac_loop (10 ^ k) (frac mod 10 ^ Suc k)"
    using Suc.prems(1) d m by (simp add: secfrac_loop.simps [of "10 * 10 ^ k"] Let_def ranges)
  have "0 \<le> frac mod 10 ^ Suc k" "frac mod 10 ^ Suc k < 10 ^ Suc k"
    by simp_all
  note IH = Suc.IH [OF this, of "i * 10 + ?d"]
  have "decimal i (secfrac_loop (10 ^ Suc k) frac) =
      decimal (i * 10 + ?d) (secfrac_loop (10 ^ k) (frac mod 10 ^ Suc k))"
    using d by (simp add: step decimal_def bytes del: power_Suc)
  also have "\<dots> = (i * 10 + ?d) * 10 ^ Suc k + frac mod 10 ^ Suc k"
    using IH d Suc.prems by simp
  also have "\<dots> = i * 10 ^ Suc (Suc k) + frac"
    using div_mult_mod_eq [of frac "10 ^ Suc k"] by (simp add: algebra_simps)
  finally show ?case
    using IH d Suc.prems by (simp add: step is_digit_def bytes del: power_Suc)
qed

text \<open>The fraction of a time whose precision is at most six digits and fits its value.\<close>

definition secfrac_ok :: "syslogTime \<Rightarrow> bool" where
  "secfrac_ok t \<longleftrightarrow> secfracPrecision t \<in> {0..6} \<and> secfrac t \<in> {0..<10 ^ nat (secfracPrecision t)}"

lemma tenPowers_nth: "n < 6 \<Longrightarrow> tenPowers ! n = 10 ^ n"
  by (auto simp: tenPowers_def less_Suc_eq numeral_eq_Suc)

lemma secfrac_digits_eq:
  assumes "secfrac_ok ts" "secfracPrecision ts > 0"
  shows "list_all is_digit (secfrac_digits ts)" "int (length (secfrac_digits ts)) = secfracPrecision ts"
    "decimal 0 (secfrac_digits ts) = secfrac ts"
proof -
  obtain k where k: "secfracPrecision ts = int (Suc k)" "k < 6"
    using assms by (auto simp: secfrac_ok_def gr0_conv_Suc dest!: zero_less_imp_eq_int)
  then have "secfrac_digits ts = secfrac_loop (10 ^ k) (secfrac ts)"
    by (simp add: secfrac_digits_def tenPowers_nth)
  moreover have "0 \<le> secfrac ts" "secfrac ts < 10 ^ Suc k"
    using assms k by (auto simp: secfrac_ok_def nat_add_distrib)
  ultimately show "list_all is_digit (secfrac_digits ts)"
    "int (length (secfrac_digits ts)) = secfracPrecision ts"
    "decimal 0 (secfrac_digits ts) = secfrac ts"
    using secfrac_loop_digits [of "secfrac ts" k 0] k by auto
qed


lemma not_digit_sep:
  "\<not> is_digit (CHR ''-'')" "\<not> is_digit (CHR '':'')" "\<not> is_digit (CHR ''T'')" "\<not> is_digit (CHR '' '')"
  "\<not> is_digit (CHR ''.'')" "\<not> is_digit (CHR ''Z'')" "\<not> is_digit (CHR ''+'')"
  by (simp_all add: is_digit_def byte_val_def)

lemma expect_hit: "len \<noteq> 0 \<Longrightarrow> expect c (c # p) len = Some (p, len - 1)"
  by (simp add: expect_def)

lemma parse_date3339_written:
  assumes "y \<in> {0..2099}" "mo \<in> {1..12}" "d \<in> {1..31}" "11 \<le> len"
  shows "parse_date3339 (four_digits y @ CHR ''-'' # two_digits mo @ CHR ''-'' # two_digits d @ CHR ''T'' # rest)
      len = Some (y, mo, d, rest, len - 11)"
  using assms
  by (simp add: parse_date3339_def scan_four_digits number_in_two_digits not_digit_sep expect_hit)

lemma parse_min_sec_written:
  assumes "mi \<in> {0..59}" "s \<in> {0..60}" "6 \<le> len" "\<not> is_digit (deref rest)"
  shows "parse_min_sec (CHR '':'' # two_digits mi @ CHR '':'' # two_digits s @ rest) len
     = Some (mi, s, rest, len - 6)"
  using assms by (simp add: parse_min_sec_def number_in_two_digits not_digit_sep expect_hit)

lemma parse_secfrac_written:
  assumes "secfrac_ok ts" "secfracPrecision ts > 0" "\<not> is_digit (deref rest)"
    and "int (length (secfrac_digits ts)) < len"
  shows "parse_secfrac (CHR ''.'' # secfrac_digits ts @ rest) len =
    (secfrac ts, secfracPrecision ts, rest, len - 1 - secfracPrecision ts)"
proof -
  note S = secfrac_digits_eq [OF assms(1,2)]
  have "length (secfrac_digits ts) \<le> 6"
    using S(2) assms(1) by (auto simp: secfrac_ok_def)
  with srSLMGParseInt32_digits [OF S(1), of rest "len - 1"] S assms show ?thesis
    by (simp add: parse_secfrac_def)
qed

lemma parse_tz3339_written:
  assumes "OffsetMode ts \<in> {CHR ''Z'', CHR ''+'', CHR ''-''}"
    and "OffsetMode ts = CHR ''Z'' \<Longrightarrow> OffsetHour ts = 0 \<and> OffsetMinute ts = 0"
    and "OffsetHour ts \<in> {0..23}" "OffsetMinute ts \<in> {0..59}" "\<not> is_digit (deref rest)"
    and "int (length (format_tz3339 ts)) \<le> len"
  shows "parse_tz3339 (format_tz3339 ts @ rest) len =
    Some (OffsetMode ts, OffsetHour ts, OffsetMinute ts, rest, len - int (length (format_tz3339 ts)))"
  using assms
  by (auto simp: parse_tz3339_def format_tz3339_def number_in_two_digits not_digit_sep expect_hit)

lemma deref_format_tz3339:
  "OffsetMode ts \<in> {CHR ''Z'', CHR ''+'', CHR ''-''} \<Longrightarrow>
    deref (format_tz3339 ts @ rest) \<in> {CHR ''Z'', CHR ''+'', CHR ''-''}"
  by (auto simp: format_tz3339_def)

text \<open>What a time must satisfy for its RFC 3339 form to carry all of it.\<close>

definition writable3339 :: "syslogTime \<Rightarrow> bool" where
  "writable3339 t \<longleftrightarrow> time_fields_ok t \<and> secfrac_ok t \<and> year t \<in> {0..2099}
     \<and> OffsetMode t \<in> {CHR ''Z'', CHR ''+'', CHR ''-''} \<and> OffsetHour t \<in> {0..23}
     \<and> OffsetMinute t \<in> {0..59} \<and> (OffsetMode t = CHR ''Z'' \<longrightarrow> OffsetHour t = 0 \<and> OffsetMinute t = 0)"

lemma parse_frac_tz_written:
  fixes ts :: syslogTime
  defines "fr \<equiv> if secfracPrecision ts > 0 then CHR ''.'' # secfrac_digits ts else []"
  assumes "writable3339 ts" "\<not> is_digit (deref rest)" "len = int (length (fr @ format_tz3339 ts @ rest))"
  shows "parse_secfrac (fr @ format_tz3339 ts @ rest) len =
     (secfrac ts, secfracPrecision ts, format_tz3339 ts @ rest, int (length (format_tz3339 ts @ rest)))"
    "\<not> is_digit (deref (fr @ format_tz3339 ts @ rest))"
proof -
  have nd: "\<not> is_digit (deref (format_tz3339 ts @ rest))" "deref (format_tz3339 ts @ rest) \<noteq> CHR ''.''"
    using deref_format_tz3339 [of ts rest] assms(2) not_digit_sep by (auto simp: writable3339_def)
  then show "\<not> is_digit (deref (fr @ format_tz3339 ts @ rest))"
    by (simp add: fr_def not_digit_sep)
  have ok: "secfrac_ok ts"
    using assms(2) by (simp add: writable3339_def)
  then have "secfracPrecision ts \<le> 0 \<Longrightarrow> secfracPrecision ts = 0 \<and> secfrac ts = 0"
    by (auto simp: secfrac_ok_def)
  with parse_secfrac_written [OF ok _ nd(1), of len] secfrac_digits_eq(2) [OF ok] nd(2) assms(4)
  show "parse_secfrac (fr @ format_tz3339 ts @ rest) len =
     (secfrac ts, secfracPrecision ts, format_tz3339 ts @ rest, int (length (format_tz3339 ts @ rest)))"
    by (auto simp: fr_def parse_secfrac_def)
qed

lemma parse_written3339:
  assumes "writable3339 ts" "formatTimestamp3339 ts = (buf, n)"
  shows "ParseTIMESTAMP3339 t0 (buf @ CHR '' '' # rest) (n + 1 + int (length rest)) =
    (RS_RET_OK, ts\<lparr>timeType := 2, wday := wday t0, inUTC := inUTC t0\<rparr>, rest, int (length rest))"
proof -
  define tail where "tail = (if secfracPrecision ts > 0 then CHR ''.'' # secfrac_digits ts else [])
    @ format_tz3339 ts @ CHR '' '' # rest"
  let ?len = "int (length tail)"
  have buf: "buf @ CHR '' '' # rest = four_digits (year ts) @ CHR ''-'' # two_digits (month ts) @ CHR ''-''
      # two_digits (day ts) @ CHR ''T'' # two_digits (hour ts) @ CHR '':'' # two_digits (minute ts)
      @ CHR '':'' # two_digits (second ts) @ tail"
    and len: "n + 1 + int (length rest) = 19 + ?len"
    using assms(2) by (auto simp: formatTimestamp3339_def Let_def tail_def)
  have R: "month ts \<in> {1..12}" "day ts \<in> {1..31}" "hour ts \<in> {0..23}" "minute ts \<in> {0..59}"
    "second ts \<in> {0..60}" "year ts \<in> {0..2099}" "OffsetHour ts \<in> {0..23}" "OffsetMinute ts \<in> {0..59}"
    "0 \<le> secfracPrecision ts" "secfracPrecision ts \<le> 6"
    "OffsetMode ts \<in> {CHR ''Z'', CHR ''+'', CHR ''-''}"
    "OffsetMode ts = CHR ''Z'' \<Longrightarrow> OffsetHour ts = 0 \<and> OffsetMinute ts = 0"
    using assms(1) by (auto simp: writable3339_def time_fields_ok_def secfrac_ok_def)
  have sp: "\<not> is_digit (deref (CHR '' '' # rest))"
    by (simp add: not_digit_sep)
  note F = parse_frac_tz_written [OF assms(1) sp refl, folded tail_def]
  note P = parse_date3339_written [OF R(6,1,2)] parse_min_sec_written [OF R(4,5) _ F(2)]
    parse_tz3339_written [OF R(11,12,7,8) sp] F(1)
  have "scan3339 t0 (buf @ CHR '' '' # rest) (19 + ?len) =
    Some (ts\<lparr>timeType := 2, wday := wday t0, inUTC := inUTC t0\<rparr>, rest, int (length rest))"
    unfolding buf scan3339_def using R
    by (simp add: P number_in_two_digits not_digit_sep parse_final_sp_def ranges)
  then show ?thesis
    by (simp add: ParseTIMESTAMP3339_def len)
qed

text \<open>(C5) Writing a time with \<open>formatTimestamp3339\<close> and reading it back with
  \<open>ParseTIMESTAMP3339\<close>, with a space and any data behind it, gives every field of the time
  (date, time, fraction with its precision, zone) and leaves the pointer at the data.\<close>

theorem format_parse_3339:
  assumes "writable3339 ts" "formatTimestamp3339 ts = (buf, n)"
  shows "ParseTIMESTAMP3339 t0 (buf @ CHR '' '' # rest) (n + 1 + int (length rest)) =
    (RS_RET_OK, ts\<lparr>timeType := 2, wday := wday t0, inUTC := inUTC t0\<rparr>, rest, int (length rest))"
  using assms by (rule parse_written3339)


definition time_example :: syslogTime where
  "time_example = time0\<lparr>timeType := 2, month := 10, day := 11, hour := 22, minute := 14, second := 15,
     secfracPrecision := 3, secfrac := 3, OffsetMode := CHR ''-'', OffsetHour := 7, year := 2003\<rparr>"

lemma time_example_fields: "time_fields_ok time_example"
  by (simp add: time_fields_ok_def time_example_def time0_def INT_MAX_def)

lemma time_example_writable: "writable3339 time_example"
  using time_example_fields
  by (simp add: writable3339_def secfrac_ok_def time_example_def time0_def)

lemma time_example_written:
  "formatTimestamp3339 time_example = (''2003-10-11T22:14:15.003-07:00'', 29)"
  by code_simp

theorem format_parse_3339_witness:
  "ParseTIMESTAMP3339 time0 ''2003-10-11T22:14:15.003-07:00 host'' 34 =
     (RS_RET_OK, time_example\<lparr>timeType := 2, wday := wday time0, inUTC := inUTC time0\<rparr>, ''host'', 4)"
  using format_parse_3339 [OF time_example_writable time_example_written, of time0 "''host''"] by simp

lemma month_cases:
  "m \<in> {1..12} \<Longrightarrow> m = 1 \<or> m = 2 \<or> m = 3 \<or> m = 4 \<or> m = 5 \<or> m = 6 \<or> m = 7 \<or> m = 8 \<or> m = 9
    \<or> m = 10 \<or> m = 11 \<or> m = (12::int)"
  by (simp, presburger)

lemma parse_month_written:
  assumes "m \<in> {1..12}"
  shows "parse_month (monthNames ! nat ((m - 1) smod 12) @ rest) = Some (m, rest)"
  using month_cases [OF assms]
  by (elim disjE) (simp_all add: monthNames_def parse_month_def is_ci_def)

lemma monthNames_written:
  assumes "m \<in> {1..12}"
  shows "length (monthNames ! nat ((m - 1) smod 12)) = 3"
    "\<not> is_digit (deref (monthNames ! nat ((m - 1) smod 12) @ rest))"
  using month_cases [OF assms]
  by (elim disjE; simp add: monthNames_def is_digit_def byte_val_def)+

lemma scan_one_digit:
  assumes "0 \<le> v" "v \<le> 9" "\<not> is_digit (deref rest)" "1 \<le> len"
  shows "srSLMGParseInt32 (digit_of v 1 # rest) len = (v, rest, len - 1)"
  using srSLMGParseInt32_digits [of "[digit_of v 1]" rest len] assms
  by (simp add: is_digit_digit_of decimal_def digit_of_eq)

lemma parse_day_written:
  assumes "d \<in> {1..31}" "5 \<le> len"
  shows "parse_day (CHR '' '' # (if b \<or> (d sdiv 10) smod 10 > 0 then to_char ((d sdiv 10) smod 10 + 48) else CHR '' '')
      # digit_of d 1 # CHR '' '' # rest) len = Some (d, rest, len - 4)"
proof (cases "b \<or> (d sdiv 10) smod 10 > 0")
  case True
  have "to_char ((d sdiv 10) smod 10 + 48) = digit_of d 10"
    by (simp add: digit_of_def)
  moreover have "digit_of d 10 \<noteq> CHR '' ''"
    using is_digit_digit_of [of d 10] not_digit_sep(4) assms by auto
  ultimately show ?thesis
    using True number_in_two_digits [of 1 d 31 "CHR '' '' # rest" "len - 1"] assms
    by (simp add: two_digits_def parse_day_def expect_hit not_digit_sep)
next
  case False
  then have "d \<le> 9"
    using assms by auto
  with False scan_one_digit [of d "CHR '' '' # rest" "len - 2"] assms show ?thesis
    by (simp add: parse_day_def expect_hit number_in_def not_digit_sep)
qed

lemma parse_written3164:
  assumes "time_fields_ok ts" "formatTimestamp3164 ts b = (buf, n)"
  shows "ParseTIMESTAMP3164 tzs False False t0 (buf @ CHR '' '' # rest) (n + int (length rest)) =
    (RS_RET_OK, t0\<lparr>timeType := 1, month := month ts, day := day ts, hour := hour ts,
       minute := minute ts, second := second ts, secfrac := 0, secfracPrecision := 0\<rparr>,
     rest, int (length rest))"
proof -
  define mon where "mon = monthNames ! nat ((month ts - 1) smod 12)"
  define d where
    "d = (if b \<or> (day ts sdiv 10) smod 10 > 0 then to_char ((day ts sdiv 10) smod 10 + 48) else CHR '' '')"
  have R: "month ts \<in> {1..12}" "day ts \<in> {1..31}" "hour ts \<in> {0..23}" "minute ts \<in> {0..59}"
    "second ts \<in> {0..60}"
    using assms(1) by (auto simp: time_fields_ok_def)
  have buf: "buf @ CHR '' '' # rest = mon @ CHR '' '' # d # digit_of (day ts) 1 # CHR '' '' # two_digits (hour ts)
      @ CHR '':'' # two_digits (minute ts) @ CHR '':'' # two_digits (second ts) @ CHR '' '' # rest"
    and len: "n = 16"
    using assms(2) by (auto simp: formatTimestamp3164_def Let_def mon_def d_def)
  note M = monthNames_written(2) [OF R(1), folded mon_def] parse_month_written [OF R(1), folded mon_def]
    parse_day_written [OF R(2), of _ b, folded d_def]
  have sp: "\<not> is_digit (deref (CHR '' '' # rest))"
    by (simp add: not_digit_sep)
  have T: "parse_time 0 (two_digits (hour ts) @ CHR '':'' # two_digits (minute ts) @ CHR '':''
      # two_digits (second ts) @ CHR '' '' # rest) (9 + int (length rest)) =
      Some (0, hour ts, minute ts, second ts, CHR '' '' # rest, 1 + int (length rest))"
    using R parse_min_sec_written [OF R(4,5) _ sp]
    by (simp add: parse_time_def scan_two_digits not_digit_sep)
  have "scan3164 tzs False False t0 (buf @ CHR '' '' # rest) (16 + int (length rest)) =
    Some (t0\<lparr>timeType := 1, month := month ts, day := day ts, hour := hour ts,
       minute := minute ts, second := second ts, secfrac := 0, secfracPrecision := 0\<rparr>,
     rest, int (length rest))"
    unfolding buf scan3164_def using R
    by (simp add: parse_front_year_def M T parse_secfrac_def
        parse_tzstring_def parse_year_after_def skip_colon_def parse_final_sp_def store3164_def ranges)
  then show ?thesis
    by (simp add: ParseTIMESTAMP3164_def len)
qed

text \<open>(C26) Writing a time with \<open>formatTimestamp3164\<close>, with either form of the day, and reading
  it back with \<open>ParseTIMESTAMP3164\<close>, with a space and any data behind it and without the
  optional zone and year detection, gives month, day and time of day; the year, the weekday and the
  zone stay the caller's, and the fraction is reset.\<close>

theorem format_parse_3164:
  assumes "time_fields_ok ts" "formatTimestamp3164 ts b = (buf, n)"
  shows "ParseTIMESTAMP3164 tzs False False t0 (buf @ CHR '' '' # rest) (n + int (length rest)) =
    (RS_RET_OK, t0\<lparr>timeType := 1, month := month ts, day := day ts, hour := hour ts,
       minute := minute ts, second := second ts, secfrac := 0, secfracPrecision := 0\<rparr>,
     rest, int (length rest))"
  using assms by (rule parse_written3164)

lemma time_example_3164:
  "formatTimestamp3164 time_example True = (''Oct 11 22:14:15'', 16)"
  by code_simp

theorem format_parse_3164_witness:
  "ParseTIMESTAMP3164 [] False False time0 ''Oct 11 22:14:15 host'' 20 =
    (RS_RET_OK, time0\<lparr>timeType := 1, month := 10, day := 11, hour := 22, minute := 14, second := 15\<rparr>,
     ''host'', 4)"
  using format_parse_3164 [OF time_example_fields time_example_3164, of "[]" time0 "''host''"]
  by (simp add: time_example_def time0_def)

end
