(* ===== verification/Pm_Rfc5424.thy ===== *)
theory Pm_Rfc5424
  imports Rs_Parser Datetime_Format
begin

text \<open>
  The RFC 5424 parser module (\<open>tools/pmrfc5424.c\<close>): the fields of the header, the structured data as
  a whole, and the message. The work buffer \<open>pBuf\<close> is passed along, since one of the helpers may
  leave it as it is.
\<close>

section \<open>Model\<close>

text \<open>\<open>parseRFCField\<close>: the bytes written to the buffer, the position, the length left and the result.\<close>

fun rfc_field_loop :: "string \<Rightarrow> int \<Rightarrow> string \<times> string \<times> int" where
  "rfc_field_loop [] len = ([], [], len)"
| "rfc_field_loop (c # p) len =
     (if len > 0 \<and> c \<noteq> CHR '' ''
      then (case rfc_field_loop p (len - 1) of (f, p1, len1) \<Rightarrow> (c # f, p1, len1))
      else ([], c # p, len))"

definition parseRFCField :: "string \<Rightarrow> int \<Rightarrow> string \<times> string \<times> int \<times> bool" where
  "parseRFCField p len = (case rfc_field_loop p len of (f, p1, len1) \<Rightarrow>
     if len1 > 0 \<and> deref p1 = CHR '' '' then (f, tl p1, len1 - 1, True) else (f, p1, len1, False))"

text \<open>The loop over the structured data: what it writes, the position, the length and whether it found
  a valid end.\<close>

function sd_loop :: "string \<Rightarrow> int \<Rightarrow> string \<times> string \<times> int \<times> bool" where
  "sd_loop p len =
     (if len < 2
      then if len > 0 \<and> deref p = CHR '']'' then ([deref p], tl p, len - 1, True) else ([], p, len, False)
      else if deref p = CHR 0x5C \<and> deref (tl p) = CHR '']''
      then (case sd_loop (tl (tl p)) (len - 2) of (r, q) \<Rightarrow> (deref p # deref (tl p) # r, q))
      else if deref p = CHR '']'' \<and> deref (tl p) = CHR '' '' then ([deref p], tl p, len - 1, True)
      else (case sd_loop (tl p) (len - 1) of (r, q) \<Rightarrow> (deref p # r, q)))"
  by pat_completeness auto
termination
  by (relation "measure (\<lambda>(p, len). nat len)") auto

text \<open>\<open>parseRFCStructuredData\<close>: None for the early return, which changes nothing.\<close>

definition parseRFCStructuredData :: "string \<Rightarrow> int \<Rightarrow> (string \<times> string \<times> int \<times> bool) option" where
  "parseRFCStructuredData p len =
     (if len = 0 \<or> deref p \<noteq> CHR ''['' \<and> deref p \<noteq> CHR ''-'' then None
      else
        let (r, p1, len1, ok) = (if deref p = CHR ''-'' then (''-'', tl p, len - 1, True) else sd_loop p len)
        in if len1 > 0 \<and> deref p1 = CHR '' '' then Some (r, tl p1, len1 - 1, ok)
           else Some (r, p1, len1, False))"

text \<open>The time stamp: the message, the position and the length, and whether to go on (\<open>bContParse\<close>).\<close>

definition parse_timestamp5424 :: "smsg \<Rightarrow> string \<Rightarrow> int \<Rightarrow> smsg \<times> string \<times> int \<times> bool" where
  "parse_timestamp5424 m p len =
     (if len \<ge> 2 \<and> deref p = CHR ''-'' \<and> deref (tl p) = CHR '' ''
      then (m\<lparr>tTIMESTAMP := tRcvdAt m\<rparr>, tl (tl p), len - 2, True)
      else case ParseTIMESTAMP3339 (tTIMESTAMP m) p len of (r, t, p1, len1) \<Rightarrow>
        if r = RS_RET_OK
        then (m\<lparr>tTIMESTAMP := (if has_flag m IGNDATE then tRcvdAt m else t)\<rparr>, p1, len1, True)
        else (m\<lparr>tTIMESTAMP := t\<rparr>, p1, len1, False))"

text \<open>The fields behind the time stamp.\<close>

definition parse_fields5424 :: "smsg \<Rightarrow> string \<Rightarrow> int \<Rightarrow> smsg \<times> string" where
  "parse_fields5424 m p len =
     (case parseRFCField p len of (host, p1, len1, _) \<Rightarrow>
      case parseRFCField p1 len1 of (app, p2, len2, _) \<Rightarrow>
      case parseRFCField p2 len2 of (procid, p3, len3, _) \<Rightarrow>
      case parseRFCField p3 len3 of (msgid, p4, len4, _) \<Rightarrow>
      let m1 = MsgSetMSGID (MsgSetPROCID (MsgSetAPPNAME (MsgSetHOSTNAME m (c_str host)) app) procid) msgid
      in case parseRFCStructuredData p4 len4 of
           None \<Rightarrow> (MsgSetStructuredData m1 msgid, p4)
         | Some (sd, p5, _, _) \<Rightarrow> (MsgSetStructuredData m1 sd, p5))"

definition parse5424 :: "smsg \<Rightarrow> rsRetVal \<times> smsg" where
  "parse5424 m =
     (let p = drop (nat (offAfterPRI m)) (raw m); lenMsg = iLenRawMsg m - offAfterPRI m
      in if lenMsg < 2 \<or> deref p \<noteq> CHR ''1'' \<or> deref (tl p) \<noteq> CHR '' '' then (RS_RET_COULD_NOT_PARSE, m)
         else case parse_timestamp5424 (setProtocolVersion m 1) (tl (tl p)) (lenMsg - 2) of (m1, p1, len1, cont) \<Rightarrow>
           case (if cont then parse_fields5424 m1 p1 len1 else (m1, p1)) of (m2, p2) \<Rightarrow>
             (RS_RET_OK, MsgSetMSGoffs m2 (iLenRawMsg m - int (length p2))))"

definition pmrfc5424 :: parser_t where
  "pmrfc5424 = \<lparr>pName = ''rsyslog.rfc5424'', bDoSanitazion = True, bDoPRIParsing = True, parse_entry = parse5424\<rparr>"

declare sd_loop.simps [simp del]

section \<open>The module keeps the interface\<close>

lemma raw_parse_fields5424 [simp]: "raw (fst (parse_fields5424 m p len)) = raw m"
  by (simp add: parse_fields5424_def Let_def split: prod.splits option.splits)

lemma raw_parse_timestamp5424 [simp]: "raw (fst (parse_timestamp5424 m p len)) = raw m"
  by (simp add: parse_timestamp5424_def split: prod.splits)

lemma parse5424_cases:
  obtains "parse5424 m = (RS_RET_COULD_NOT_PARSE, m)"
  | m1 p1 len1 cont m2 p2 where
    "parse_timestamp5424 (setProtocolVersion m 1) (tl (tl (drop (nat (offAfterPRI m)) (raw m))))
       (iLenRawMsg m - offAfterPRI m - 2) = (m1, p1, len1, cont)"
    "(if cont then parse_fields5424 m1 p1 len1 else (m1, p1)) = (m2, p2)"
    "parse5424 m = (RS_RET_OK, MsgSetMSGoffs m2 (iLenRawMsg m - int (length p2)))"
proof -
  let ?p = "drop (nat (offAfterPRI m)) (raw m)" and ?len = "iLenRawMsg m - offAfterPRI m"
  obtain m1 p1 len1 cont where
    ts: "parse_timestamp5424 (setProtocolVersion m 1) (tl (tl ?p)) (?len - 2) = (m1, p1, len1, cont)"
    by (metis prod_cases4)
  obtain m2 p2 where f: "(if cont then parse_fields5424 m1 p1 len1 else (m1, p1)) = (m2, p2)"
    by fastforce
  show thesis
    using that ts f
    by (cases "?len < 2 \<or> deref ?p \<noteq> CHR ''1'' \<or> deref (tl ?p) \<noteq> CHR '' ''") (simp_all add: parse5424_def Let_def)
qed

lemma raw_parse5424: "raw (snd (parse5424 m)) = raw m"
proof (cases m rule: parse5424_cases)
  case (2 m1 p1 len1 cont m2 p2)
  have "raw m1 = raw m"
    using raw_parse_timestamp5424 [of "setProtocolVersion m 1"] 2(1) by (metis fst_conv raw_setters(7))
  moreover have "raw (fst (m2, p2)) = raw m1"
    unfolding 2(2) [symmetric] by simp
  ultimately show ?thesis
    using 2(3) by simp
qed simp

interpretation p5424: parser_module parse5424
proof unfold_locales
  show "raw (snd (parse5424 m)) = raw m" for m
    by (rule raw_parse5424)
  show "snd (parse5424 m) = m" if "fst (parse5424 m) = RS_RET_COULD_NOT_PARSE" for m
    using that by (cases m rule: parse5424_cases) auto
qed

section \<open>Well-formed messages\<close>

text \<open>A header field: no space, no NUL.\<close>

definition field_ok :: "string \<Rightarrow> bool" where
  "field_ok f \<longleftrightarrow> CHR '' '' \<notin> set f \<and> NUL \<notin> set f"

lemma rfc_field_loop_field:
  "CHR '' '' \<notin> set f \<Longrightarrow> rfc_field_loop (f @ CHR '' '' # rest) (1 + (int (length f) + int (length rest)))
    = (f, CHR '' '' # rest, 1 + int (length rest))"
  by (induction f) auto

lemma parseRFCField_field:
  assumes "field_ok f" "len = int (length (f @ CHR '' '' # rest))"
  shows "parseRFCField (f @ CHR '' '' # rest) len = (f, rest, int (length rest), True)"
  using rfc_field_loop_field [of f rest] assms by (simp add: parseRFCField_def field_ok_def)

lemma c_str_field [simp]: "field_ok f \<Longrightarrow> c_str f = f"
  by (simp add: field_ok_def c_str_def takeWhile_eq_all_conv) metis

text \<open>Structured data: a dash, or a bracketed text in which no \<open>]\<close> is followed by a space unless a
  backslash is in front of it.\<close>

fun sd_inner :: "string \<Rightarrow> bool" where
  "sd_inner [] \<longleftrightarrow> True"
| "sd_inner [c] \<longleftrightarrow> c \<noteq> CHR 0x5C"
| "sd_inner (c # d # s) \<longleftrightarrow>
     (if c = CHR 0x5C \<and> d = CHR '']'' then sd_inner s
      else \<not> (c = CHR '']'' \<and> d = CHR '' '') \<and> sd_inner (d # s))"

definition sd_ok :: "string \<Rightarrow> bool" where
  "sd_ok sd \<longleftrightarrow> NUL \<notin> set sd \<and> (sd = ''-'' \<or> (\<exists>s. sd = CHR ''['' # s @ '']'' \<and> sd_inner (CHR ''['' # s)))"

lemma sd_loop_inner:
  "sd_inner s \<Longrightarrow> len = 2 + (int (length s) + int (length rest)) \<Longrightarrow>
    sd_loop (s @ CHR '']'' # CHR '' '' # rest) len = (s @ '']'', CHR '' '' # rest, 1 + int (length rest), True)"
proof (induction s arbitrary: len rule: sd_inner.induct)
  case (3 c d s)
  show ?case
  proof (cases "c = CHR 0x5C \<and> d = CHR '']''")
    case True
    then show ?thesis
      using 3 by (subst sd_loop.simps) simp
  next
    case False
    then show ?thesis
      using 3 by (subst sd_loop.simps) auto
  qed
qed (subst sd_loop.simps; simp)+

lemma parseRFCStructuredData_sd:
  assumes "sd_ok sd" "len = int (length (sd @ CHR '' '' # rest))"
  shows "parseRFCStructuredData (sd @ CHR '' '' # rest) len = Some (sd, rest, int (length rest), True)"
proof -
  consider "sd = ''-''" | s where "sd = CHR ''['' # s @ '']''" "sd_inner (CHR ''['' # s)"
    using assms(1) by (auto simp: sd_ok_def)
  then show ?thesis
  proof cases
    case 2
    then have "sd_loop (sd @ CHR '' '' # rest) len = (sd, CHR '' '' # rest, 1 + int (length rest), True)"
      using sd_loop_inner [OF 2(2), of len rest] assms(2) by simp
    then show ?thesis
      using 2(1) assms(2) by (simp add: parseRFCStructuredData_def)
  qed (use assms(2) in \<open>simp add: parseRFCStructuredData_def\<close>)
qed

text \<open>What follows the time stamp, and the fields it sets.\<close>

definition rest5424 :: "string \<Rightarrow> string \<Rightarrow> string \<Rightarrow> string \<Rightarrow> string \<Rightarrow> string" where
  "rest5424 host app procid msgid tail = host @ CHR '' '' # app @ CHR '' '' # procid @ CHR '' '' # msgid @ CHR '' '' # tail"

definition fields5424 :: "smsg \<Rightarrow> string \<Rightarrow> string \<Rightarrow> string \<Rightarrow> string \<Rightarrow> string \<Rightarrow> smsg" where
  "fields5424 m host app procid msgid sd =
     m\<lparr>pszHOSTNAME := Some host, pCSAPPNAME := Some (if app = [] then ''-'' else app), pCSPROCID := Some procid,
       pCSMSGID := Some msgid, pszStrucData := Some sd\<rparr>"

lemma parse_fields5424_written:
  assumes "field_ok host" "field_ok app" "field_ok procid" "field_ok msgid" "len = int (length (rest5424 host app procid msgid tail))"
  shows "parse_fields5424 m (rest5424 host app procid msgid tail) len =
    (case parseRFCStructuredData tail (int (length tail)) of
       None \<Rightarrow> (fields5424 m host app procid msgid msgid, tail)
     | Some (sd, p, _, _) \<Rightarrow> (fields5424 m host app procid msgid (c_str sd), p))"
  using assms
  by (simp add: parse_fields5424_def rest5424_def parseRFCField_field fields5424_def MsgSetStructuredData_def
      MsgSetMSGID_def MsgSetPROCID_def MsgSetAPPNAME_def MsgSetHOSTNAME_def split: option.splits prod.splits)

definition text5424 :: "syslogTime \<Rightarrow> string \<Rightarrow> string \<Rightarrow> string \<Rightarrow> string \<Rightarrow> string \<Rightarrow> string" where
  "text5424 ts host app procid msgid tail =
     CHR ''1'' # CHR '' '' # fst (formatTimestamp3339 ts) @ CHR '' '' # rest5424 host app procid msgid tail"

lemma length_formatTimestamp3339: "snd (formatTimestamp3339 ts) = int (length (fst (formatTimestamp3339 ts)))"
  by (simp add: formatTimestamp3339_def Let_def)

lemma four_digits_not_dash:
  assumes "writable3339 ts"
  shows "deref (fst (formatTimestamp3339 ts) @ s) \<noteq> CHR ''-''"
proof -
  have "is_digit (digit_of (year ts) 1000)"
    using assms by (intro is_digit_digit_of) (simp_all add: writable3339_def)
  moreover have "\<not> is_digit (CHR ''-'')"
    by (simp add: is_digit_def byte_val_def)
  ultimately show ?thesis
    by (auto simp: formatTimestamp3339_def Let_def four_digits_def)
qed

lemma parse5424_text:
  assumes "writable3339 ts" "field_ok host" "field_ok app" "field_ok procid" "field_ok msgid"
    and "raw m = pre @ text5424 ts host app procid msgid tail" "offAfterPRI m = int (length pre)" "\<not> has_flag m IGNDATE"
  shows "parse5424 m = (case parseRFCStructuredData tail (int (length tail)) of
       None \<Rightarrow> (RS_RET_OK, MsgSetMSGoffs (fields5424 (m\<lparr>iProtocolVersion := 1,
           tTIMESTAMP := ts\<lparr>timeType := 2, wday := wday (tTIMESTAMP m), inUTC := inUTC (tTIMESTAMP m)\<rparr>\<rparr>)
           host app procid msgid msgid) (iLenRawMsg m - int (length tail)))
     | Some (sd, p, _, _) \<Rightarrow> (RS_RET_OK, MsgSetMSGoffs (fields5424 (m\<lparr>iProtocolVersion := 1,
           tTIMESTAMP := ts\<lparr>timeType := 2, wday := wday (tTIMESTAMP m), inUTC := inUTC (tTIMESTAMP m)\<rparr>\<rparr>)
           host app procid msgid (c_str sd)) (iLenRawMsg m - int (length p))))"
proof -
  define buf where "buf = fst (formatTimestamp3339 ts)"
  define rst where "rst = rest5424 host app procid msgid tail"
  let ?m1 = "setProtocolVersion m 1"
  have fmt: "formatTimestamp3339 ts = (buf, int (length buf))"
    using length_formatTimestamp3339 [of ts] by (simp add: buf_def prod_eq_iff)
  have p: "drop (nat (offAfterPRI m)) (raw m) = CHR ''1'' # CHR '' '' # buf @ CHR '' '' # rst"
    using assms(6,7) by (simp add: text5424_def buf_def rst_def)
  have len: "iLenRawMsg m - offAfterPRI m - 2 = 1 + (int (length buf) + int (length rst))"
    using assms(6,7) by (simp add: iLenRawMsg_def text5424_def buf_def rst_def)
  have "deref (buf @ CHR '' '' # rst) \<noteq> CHR ''-''"
    using four_digits_not_dash [OF assms(1)] by (simp add: buf_def)
  moreover have "\<not> has_flag ?m1 IGNDATE" "tTIMESTAMP ?m1 = tTIMESTAMP m"
    using assms(8) by (simp_all add: setProtocolVersion_def has_flag_def)
  ultimately have ts: "parse_timestamp5424 ?m1 (buf @ CHR '' '' # rst) (1 + (int (length buf) + int (length rst))) =
      (?m1\<lparr>tTIMESTAMP := ts\<lparr>timeType := 2, wday := wday (tTIMESTAMP m), inUTC := inUTC (tTIMESTAMP m)\<rparr>\<rparr>,
       rst, int (length rst), True)"
    using parse_written3339 [OF assms(1) fmt, of "tTIMESTAMP m" rst] by (simp add: parse_timestamp5424_def ac_simps)
  show ?thesis
    using p len ts parse_fields5424_written [OF assms(2-5) refl]
    by (simp add: parse5424_def Let_def rst_def setProtocolVersion_def split: option.splits prod.splits)
qed

lemma parse5424_written:
  assumes "writable3339 ts" "field_ok host" "field_ok app" "field_ok procid" "field_ok msgid" "sd_ok sd" "app \<noteq> []"
    and "raw m = pre @ text5424 ts host app procid msgid (sd @ CHR '' '' # msg)"
    and "offAfterPRI m = int (length pre)" "\<not> has_flag m IGNDATE"
  shows "\<exists>m1. parse5424 m = (RS_RET_OK, m1)
    \<and> tTIMESTAMP m1 = ts\<lparr>timeType := 2, wday := wday (tTIMESTAMP m), inUTC := inUTC (tTIMESTAMP m)\<rparr>
    \<and> pszHOSTNAME m1 = Some host \<and> pCSAPPNAME m1 = Some app \<and> pCSPROCID m1 = Some procid
    \<and> pCSMSGID m1 = Some msgid \<and> pszStrucData m1 = Some sd \<and> getMSG m1 = msg
    \<and> iProtocolVersion m1 = 1 \<and> raw m1 = raw m \<and> getPRIi m1 = getPRIi m"
proof -
  have "c_str sd = sd"
    using assms(6) by (simp add: sd_ok_def c_str_def takeWhile_eq_all_conv) metis
  moreover have "drop (nat (iLenRawMsg m - int (length msg))) (raw m) = msg" "int (length msg) \<le> iLenRawMsg m"
    using raw_tail [of m "pre @ text5424 ts host app procid msgid [] @ sd @ '' ''" msg] assms(8)
    by (simp_all add: text5424_def rest5424_def)
  ultimately show ?thesis
    using parse5424_text [OF assms(1-5,8-10)] parseRFCStructuredData_sd [OF assms(6) refl, of msg] assms(7)
    by (simp add: fields5424_def MsgSetMSGoffs_def getMSG_def iLenRawMsg_def raw_def getPRIi_def)
qed

text \<open>(C18) A well-formed RFC 5424 message is parsed field by field: if the text behind the PRI is
  \<open>1 TIMESTAMP HOSTNAME APP-NAME PROCID MSGID STRUCTURED-DATA MSG\<close>, with the time stamp as
  \<open>formatTimestamp3339\<close> writes it, then the module accepts the message, every field of the message object
  is what was written, the MSG part is exactly the rest, and the raw message is unchanged.\<close>

theorem parse5424_roundtrip:
  assumes "writable3339 ts" "field_ok host" "field_ok app" "field_ok procid" "field_ok msgid" "sd_ok sd" "app \<noteq> []"
    and "raw m = pre @ text5424 ts host app procid msgid (sd @ CHR '' '' # msg)"
    and "offAfterPRI m = int (length pre)" "\<not> has_flag m IGNDATE"
  shows "\<exists>m1. parse5424 m = (RS_RET_OK, m1)
    \<and> tTIMESTAMP m1 = ts\<lparr>timeType := 2, wday := wday (tTIMESTAMP m), inUTC := inUTC (tTIMESTAMP m)\<rparr>
    \<and> pszHOSTNAME m1 = Some host \<and> pCSAPPNAME m1 = Some app \<and> pCSPROCID m1 = Some procid
    \<and> pCSMSGID m1 = Some msgid \<and> pszStrucData m1 = Some sd \<and> getMSG m1 = msg
    \<and> iProtocolVersion m1 = 1 \<and> raw m1 = raw m \<and> getPRIi m1 = getPRIi m"
  using assms by (rule parse5424_written)

text \<open>Without structured data the MSGID is taken for it: if the text behind the MSGID starts
  neither with \<open>[\<close> nor with a dash, the module still accepts the message and stores the MSGID, which is
  left over in the work buffer, as the structured data; the MSG part is the text behind the MSGID.\<close>

theorem missing_SD_becomes_MSGID:
  assumes "writable3339 ts" "field_ok host" "field_ok app" "field_ok procid" "field_ok msgid"
    and "raw m = pre @ text5424 ts host app procid msgid msg" "deref msg \<noteq> CHR ''[''" "deref msg \<noteq> CHR ''-''"
    and "offAfterPRI m = int (length pre)" "\<not> has_flag m IGNDATE"
  shows "\<exists>m1. parse5424 m = (RS_RET_OK, m1) \<and> pCSMSGID m1 = Some msgid \<and> MsgGetStructuredData m1 = msgid
    \<and> getMSG m1 = msg"
proof -
  have "drop (nat (iLenRawMsg m - int (length msg))) (raw m) = msg" "int (length msg) \<le> iLenRawMsg m"
    using raw_tail [of m "pre @ text5424 ts host app procid msgid []" msg] assms(6)
    by (simp_all add: text5424_def rest5424_def)
  moreover have "parseRFCStructuredData msg (int (length msg)) = None"
    using assms(7,8) by (simp add: parseRFCStructuredData_def)
  ultimately show ?thesis
    using parse5424_text [OF assms(1-6,9,10)]
    by (simp add: fields5424_def MsgSetMSGoffs_def getMSG_def iLenRawMsg_def raw_def MsgGetStructuredData_def)
qed

definition raw5424_example :: string where
  "raw5424_example = ''<34>1 2003-10-11T22:14:15.003-07:00 host su 77 ID47 - hi''"

definition msg5424_example :: smsg where
  "msg5424_example = msgBaseConstruct\<lparr>pszRawMsg := Some raw5424_example, offAfterPRI := 4\<rparr>"

lemma msg5424_example:
  "raw msg5424_example = ''<34>'' @ text5424 time_example ''host'' ''su'' ''77'' ''ID47'' (''-'' @ CHR '' '' # ''hi'')"
  "raw (msg5424_example\<lparr>pszRawMsg := Some ''<34>1 2003-10-11T22:14:15.003-07:00 host su 77 ID47 hi''\<rparr>)
    = ''<34>'' @ text5424 time_example ''host'' ''su'' ''77'' ''ID47'' ''hi''"
  "offAfterPRI msg5424_example = int (length ''<34>'')" "\<not> has_flag msg5424_example IGNDATE"
  "field_ok ''host''" "field_ok ''su''" "field_ok ''77''" "field_ok ''ID47''"
  by (simp_all add: msg5424_example_def raw5424_example_def raw_def text5424_def rest5424_def time_example_written
      has_flag_def msgBaseConstruct_def field_ok_def NUL_def)

lemma sd_ok_dash: "sd_ok ''-''"
  by (simp add: sd_ok_def NUL_def)

theorem parse5424_roundtrip_witness:
  "\<exists>m1. parse5424 msg5424_example = (RS_RET_OK, m1) \<and> pCSMSGID m1 = Some ''ID47'' \<and> getMSG m1 = ''hi''"
  using parse5424_roundtrip [OF time_example_writable msg5424_example(5-8) sd_ok_dash _ msg5424_example(1,3,4)] by auto

theorem missing_SD_becomes_MSGID_witness:
  "\<exists>m1. parse5424 (msg5424_example\<lparr>pszRawMsg := Some ''<34>1 2003-10-11T22:14:15.003-07:00 host su 77 ID47 hi''\<rparr>) = (RS_RET_OK, m1)
    \<and> MsgGetStructuredData m1 = ''ID47''"
  using missing_SD_becomes_MSGID [OF time_example_writable msg5424_example(5-8,2)] msg5424_example(3,4)
  by (auto simp: has_flag_def)

end
