(* ===== verification/Pm_Rfc3164.thy ===== *)
theory Pm_Rfc3164
  imports Rs_Parser Datetime_Format
begin

text \<open>
  The legacy parser module (\<open>tools/pmrfc3164.c\<close>): headerless messages, the time stamp in one of three
  forms, HOSTNAME and TAG. The parse position is an offset into the raw message, since one branch moves
  it backwards. Reading at the end of the raw message gives its NUL terminator.
\<close>

section \<open>Model\<close>

record inst3164 =
  bDetectYearAfterTimestamp :: bool
  bPermitSquareBracketsInHostname :: bool
  bPermitSlashesInHostname :: bool
  bPermitAtSignsInHostname :: bool
  bForceTagEndingByColon :: bool
  bRemoveMsgFirstSpace :: bool

definition createInstance :: inst3164 where
  "createInstance = \<lparr>bDetectYearAfterTimestamp = False, bPermitSquareBracketsInHostname = False,
     bPermitSlashesInHostname = False, bPermitAtSignsInHostname = False, bForceTagEndingByColon = False,
     bRemoveMsgFirstSpace = False\<rparr>"

definition CONF_HOSTNAME_MAXSIZE :: int where
  "CONF_HOSTNAME_MAXSIZE = 512"

definition is_ws :: "char \<Rightarrow> bool" where
  "is_ws c \<longleftrightarrow> c = CHR '' '' \<or> c = CHR 0x09"

text \<open>A message of blanks and tabs followed by an opening brace or bracket has no header.\<close>

definition headerless :: "string \<Rightarrow> int \<Rightarrow> bool" where
  "headerless p lenMsg = (let q = dropWhile is_ws (take (nat lenMsg) p)
     in q \<noteq> [] \<and> (hd q = CHR ''{'' \<or> hd q = CHR ''[''))"

text \<open>The time stamp: the time, the position and the length left.\<close>

definition parse_timestamp3164 :: "tzinfo list \<Rightarrow> inst3164 \<Rightarrow> smsg \<Rightarrow> string \<Rightarrow> int \<Rightarrow> syslogTime \<times> string \<times> int" where
  "parse_timestamp3164 tzs inst m p lenMsg =
     (let parse = ParseTIMESTAMP3164 tzs False (bDetectYearAfterTimestamp inst) (tTIMESTAMP m)
      in case ParseTIMESTAMP3339 (tTIMESTAMP m) p lenMsg of (r1, t1, p1, len1) \<Rightarrow>
        if r1 = RS_RET_OK then (t1, p1, len1)
        else case parse p lenMsg of (r2, t2, p2, len2) \<Rightarrow>
          if r2 = RS_RET_OK then (if dfltTZ m \<noteq> [] then applyDfltTZ t2 (dfltTZ m) else t2, p2, len2)
          else if deref p = CHR '' '' \<and> lenMsg > 1
          then (case parse (tl p) (lenMsg - 1) of (r3, t3, p3, len3) \<Rightarrow>
            if r3 = RS_RET_OK then (t3, p3, len3) else (t3, p, lenMsg))
          else (tTIMESTAMP m, p, lenMsg))"

definition host_char :: "inst3164 \<Rightarrow> bool \<Rightarrow> char \<Rightarrow> bool" where
  "host_char inst bHadSBracket c \<longleftrightarrow> is_alnum c \<or> c = CHR ''.'' \<or> c = CHR ''_'' \<or> c = CHR ''-''
     \<or> c = CHR '']'' \<and> bHadSBracket \<or> c = CHR ''@'' \<and> bPermitAtSignsInHostname inst
     \<or> c = CHR ''/'' \<and> bPermitSlashesInHostname inst"

function host_loop :: "inst3164 \<Rightarrow> bool \<Rightarrow> string \<Rightarrow> int \<Rightarrow> int \<Rightarrow> int" where
  "host_loop inst br p lenMsg i =
     (if i < lenMsg \<and> host_char inst br (byte_at p i) \<and> i < CONF_HOSTNAME_MAXSIZE - 1
      then if byte_at p (i + 1) = CHR '']'' then i + 1 else host_loop inst br p lenMsg (i + 1)
      else i)"
  by pat_completeness auto
termination
  by (relation "measure (\<lambda>(inst, br, p, lenMsg, i). nat (lenMsg - i))") auto

text \<open>The HOSTNAME: how many bytes it has, that is, the index at which the buffer is terminated, and how
  many bytes are consumed; None if there is no HOSTNAME.\<close>

definition scan_hostname :: "inst3164 \<Rightarrow> string \<Rightarrow> int \<Rightarrow> (int \<times> int) option" where
  "scan_hostname inst p lenMsg =
     (let br = bPermitSquareBracketsInHostname inst \<and> deref p = CHR ''['';
          i = host_loop inst br p lenMsg (if br then 1 else 0)
      in if i = lenMsg then Some (i, i)
         else let close = i > 0 \<and> br \<and> byte_at p i = CHR '']'';
                  j = (if close then i + 1 else i)
              in if i > 0 \<and> (if br then close else is_alnum (byte_at p (i - 1))) \<and> byte_at p j = CHR '' ''
                 then Some (j, j + 1) else None)"

text \<open>The TAG: at most 510 bytes up to a colon or a space.\<close>

function tag_loop :: "string \<Rightarrow> int \<Rightarrow> int \<Rightarrow> string" where
  "tag_loop p lenMsg i =
     (if lenMsg > 0 \<and> deref p \<noteq> CHR '':'' \<and> deref p \<noteq> CHR '' '' \<and> i < int CONF_TAG_MAXSIZE - 2
      then deref p # tag_loop (tl p) (lenMsg - 1) (i + 1) else [])"
  by pat_completeness auto
termination
  by (relation "measure (\<lambda>(p, lenMsg, i). nat lenMsg)") auto

text \<open>The TAG and by how many bytes the position moves.\<close>

definition scan_tag :: "inst3164 \<Rightarrow> string \<Rightarrow> int \<Rightarrow> string \<times> int" where
  "scan_tag inst p lenMsg =
     (let t = tag_loop p lenMsg 0; i = int (length t)
      in if lenMsg - i > 0 \<and> byte_at p i = CHR '':'' then (t @ '':'', i + 1)
         else if bForceTagEndingByColon inst then (''-'', i - (i + 1))
         else (t, i))"

definition parse_host_tag :: "inst3164 \<Rightarrow> smsg \<Rightarrow> int \<Rightarrow> int \<Rightarrow> smsg \<times> int" where
  "parse_host_tag inst m off lenMsg =
     (let p = drop (nat off) (raw m);
          (m1, off1, len1) =
            (if lenMsg > 0 \<and> has_flag m PARSE_HOSTNAME
             then (case scan_hostname inst p lenMsg of
                 None \<Rightarrow> (m, off, lenMsg)
               | Some (j, n) \<Rightarrow> (MsgSetHOSTNAME m (take (nat j) p), off + n, lenMsg - n))
             else (m, off, lenMsg));
          (tag, n) = scan_tag inst (drop (nat off1) (raw m)) len1
      in (MsgSetTAG m1 tag, off1 + n))"

definition parse_body3164 :: "tzinfo list \<Rightarrow> bool \<Rightarrow> inst3164 \<Rightarrow> smsg \<Rightarrow> smsg \<times> int" where
  "parse_body3164 tzs bParseHOSTNAMEandTAG inst m =
     (let p = drop (nat (offAfterPRI m)) (raw m); lenMsg = iLenRawMsg m - offAfterPRI m
      in if iFacility m = drop_bit 3 LOG_INVLD \<or> headerless p lenMsg then (m, offAfterPRI m)
         else case parse_timestamp3164 tzs inst m p lenMsg of (t, p1, len1) \<Rightarrow>
           let off = iLenRawMsg m - int (length p1);
               m1 = m\<lparr>tTIMESTAMP := (if has_flag m IGNDATE then tRcvdAt m else t)\<rparr>
           in if bParseHOSTNAMEandTAG \<and> \<not> has_flag m INTERNAL_MSG then parse_host_tag inst m1 off len1
              else (m1, off))"

definition parse3164 :: "tzinfo list \<Rightarrow> bool \<Rightarrow> inst3164 \<Rightarrow> smsg \<Rightarrow> rsRetVal \<times> smsg" where
  "parse3164 tzs bParseHOSTNAMEandTAG inst m =
     (case parse_body3164 tzs bParseHOSTNAMEandTAG inst (setProtocolVersion m 0) of (m1, off) \<Rightarrow>
        (RS_RET_OK, MsgSetMSGoffs m1
           (if bRemoveMsgFirstSpace inst \<and> byte_at (raw m) off = CHR '' '' then off + 1 else off)))"

definition pmrfc3164 :: "tzinfo list \<Rightarrow> bool \<Rightarrow> inst3164 \<Rightarrow> parser_t" where
  "pmrfc3164 tzs b inst = \<lparr>pName = ''rsyslog.rfc3164'', bDoSanitazion = True, bDoPRIParsing = True,
     parse_entry = parse3164 tzs b inst\<rparr>"

declare host_loop.simps [simp del] tag_loop.simps [simp del]

section \<open>The module keeps the interface\<close>

lemma raw_parse_host_tag [simp]: "raw (fst (parse_host_tag inst m off lenMsg)) = raw m"
  by (simp add: parse_host_tag_def Let_def split: prod.splits option.splits)

lemma raw_parse_body3164 [simp]: "raw (fst (parse_body3164 tzs b inst m)) = raw m"
  by (simp add: parse_body3164_def Let_def split: prod.splits)

interpretation p3164: parser_module "parse3164 tzs b inst" for tzs b inst
proof unfold_locales
  show "raw (snd (parse3164 tzs b inst m)) = raw m" for m
    using raw_parse_body3164 [of tzs b inst "setProtocolVersion m 0"]
    by (cases "parse_body3164 tzs b inst (setProtocolVersion m 0)") (simp add: parse3164_def)
qed (simp add: parse3164_def split: prod.splits)

section \<open>HOSTNAME and TAG\<close>

lemma host_loop_bounds:
  "0 \<le> i \<Longrightarrow> i \<le> lenMsg \<Longrightarrow> i \<le> 511 \<Longrightarrow>
    i \<le> host_loop inst br p lenMsg i \<and> host_loop inst br p lenMsg i \<le> lenMsg \<and> host_loop inst br p lenMsg i \<le> 511"
proof (induction inst br p lenMsg i rule: host_loop.induct)
  case (1 inst br p lenMsg i)
  show ?case
  proof (cases "i < lenMsg \<and> host_char inst br (byte_at p i) \<and> i < CONF_HOSTNAME_MAXSIZE - 1 \<and> byte_at p (i + 1) \<noteq> CHR '']''")
    case True
    then have "host_loop inst br p lenMsg i = host_loop inst br p lenMsg (i + 1)" "i + 1 \<le> lenMsg" "i + 1 \<le> 511"
      by (subst host_loop.simps, simp_all add: CONF_HOSTNAME_MAXSIZE_def)
    with 1 True show ?thesis
      by auto
  next
    case False
    with 1 show ?thesis
      by (subst (1 2 3) host_loop.simps) (auto simp: CONF_HOSTNAME_MAXSIZE_def)
  qed
qed

text \<open>The scan over a run of hostname characters.\<close>

lemma host_loop_run:
  assumes "\<And>k. i \<le> k \<Longrightarrow> k < n \<Longrightarrow> host_char inst br (byte_at p k) \<and> byte_at p (k + 1) \<noteq> CHR '']''"
    and "i \<le> n" "n \<le> lenMsg" "n \<le> 511"
  shows "host_loop inst br p lenMsg i = host_loop inst br p lenMsg n"
  using assms
proof (induction "nat (n - i)" arbitrary: i)
  case (Suc x)
  then have "i < n"
    by linarith
  with Suc.prems have "host_loop inst br p lenMsg i = host_loop inst br p lenMsg (i + 1)"
    by (subst host_loop.simps) (simp add: CONF_HOSTNAME_MAXSIZE_def)
  also have "\<dots> = host_loop inst br p lenMsg n"
    by (rule Suc.hyps(1)) (use Suc in auto)
  finally show ?case .
qed simp

lemma tag_loop_tag:
  "\<forall>c \<in> set t. c \<noteq> CHR '':'' \<and> c \<noteq> CHR '' '' \<Longrightarrow> i + int (length t) \<le> 510 \<Longrightarrow> int (length t) \<le> lenMsg \<Longrightarrow>
    tag_loop (t @ CHR '':'' # s) lenMsg i = t"
  by (induction t arbitrary: lenMsg i) (subst tag_loop.simps; simp add: CONF_TAG_MAXSIZE_def)+

lemma scan_tag_tag:
  assumes "\<forall>c \<in> set t. c \<noteq> CHR '':'' \<and> c \<noteq> CHR '' ''" "length t \<le> 510" "lenMsg = int (length (t @ CHR '':'' # s))"
  shows "scan_tag inst (t @ CHR '':'' # s) lenMsg = (t @ '':'', int (length t) + 1)"
  using tag_loop_tag [OF assms(1), of 0 lenMsg s] assms(2,3) by (simp add: scan_tag_def byte_at_def)

text \<open>A HOSTNAME without brackets.\<close>

definition host_ok :: "string \<Rightarrow> bool" where
  "host_ok h \<longleftrightarrow> h \<noteq> [] \<and> length h \<le> 511 \<and> is_alnum (last h)
     \<and> (\<forall>c \<in> set h. is_alnum c \<or> c = CHR ''.'' \<or> c = CHR ''_'' \<or> c = CHR ''-'')"

lemma not_alnum: "\<not> is_alnum (CHR '']'')" "\<not> is_alnum (CHR ''['')" "\<not> is_alnum (CHR '' '')" "\<not> is_alnum (CHR '':'')"
  by (simp_all add: is_alnum_def is_digit_def byte_val_def)

lemma scan_hostname_host:
  assumes "host_ok h" "lenMsg = int (length (h @ CHR '' '' # s))"
  shows "scan_hostname inst (h @ CHR '' '' # s) lenMsg = Some (int (length h), int (length h) + 1)"
proof -
  let ?p = "h @ CHR '' '' # s" and ?n = "int (length h)"
  have h: "h \<noteq> []" "?n \<le> 511" "is_alnum (last h)"
      "\<And>k. k < length h \<Longrightarrow> is_alnum (h ! k) \<or> h ! k = CHR ''.'' \<or> h ! k = CHR ''_'' \<or> h ! k = CHR ''-''"
    using assms(1) by (auto simp: host_ok_def)
  have br: "deref ?p \<noteq> CHR ''[''"
    using h(1) h(4) [of 0] not_alnum by (cases h) auto
  have at: "byte_at ?p k = h ! nat k" if "0 \<le> k" "k < ?n" for k
    using that by (auto simp: byte_at_def nth_append nat_less_iff)
  have sp: "byte_at ?p ?n = CHR '' ''"
    by (simp add: byte_at_def)
  have run: "host_char inst False (byte_at ?p k) \<and> byte_at ?p (k + 1) \<noteq> CHR '']''" if "0 \<le> k" "k < ?n" for k
  proof -
    have "host_char inst False (byte_at ?p k)"
      using at [OF that] h(4) [of "nat k"] that by (auto simp: host_char_def nat_less_iff)
    moreover have "byte_at ?p (k + 1) \<noteq> CHR '']''"
      using at [of "k + 1"] h(4) [of "nat (k + 1)"] sp that not_alnum by (cases "k + 1 = ?n") (auto simp: nat_less_iff)
    ultimately show ?thesis ..
  qed
  have "host_loop inst False ?p lenMsg 0 = host_loop inst False ?p lenMsg ?n"
    by (rule host_loop_run) (use run h(2) assms(2) in auto)
  also have "\<dots> = ?n"
    using sp not_alnum by (subst host_loop.simps) (simp add: host_char_def)
  finally have "host_loop inst False ?p lenMsg 0 = ?n" .
  moreover have "byte_at ?p (?n - 1) = last h"
    using at [of "?n - 1"] h(1) by (simp add: last_conv_nth nat_diff_distrib Suc_le_eq)
  ultimately show ?thesis
    using br sp h(1,3) assms(2) by (simp add: scan_hostname_def Let_def)
qed

section \<open>Properties\<close>

lemma ParseTIMESTAMP3339_letter:
  assumes "\<not> is_digit (deref p)" "deref p \<noteq> CHR ''-''"
  shows "ParseTIMESTAMP3339 t p len = (RS_RET_INVLD_TIME, t, p, len)"
proof -
  have "srSLMGParseInt32 p len = (0, p, len)"
    using assms(1) by (cases p) (simp_all add: srSLMGParseInt32_def)
  then show ?thesis
    using assms(2) by (simp add: ParseTIMESTAMP3339_def scan3339_def parse_date3339_def)
qed

lemma length_formatTimestamp3164:
  "month ts \<in> {1..12} \<Longrightarrow> snd (formatTimestamp3164 ts b) = int (length (fst (formatTimestamp3164 ts b))) + 1"
  using monthNames_written(1) [of "month ts"] by (simp add: formatTimestamp3164_def Let_def)

lemma formatTimestamp3164_start:
  assumes "month ts \<in> {1..12}"
  shows "deref (fst (formatTimestamp3164 ts b) @ s) \<in> set ''JFMASOND''"
  using month_cases [OF assms] by (elim disjE) (simp_all add: formatTimestamp3164_def Let_def monthNames_def)

lemma not_headerless: "deref p \<in> set ''JFMASOND'' \<Longrightarrow> \<not> headerless p len"
  by (cases p; cases "nat len") (auto simp: headerless_def is_ws_def)

lemma parse_host_tag_text:
  assumes "raw m = x @ host @ CHR '' '' # tag @ CHR '':'' # msg" "host_ok host" "has_flag m PARSE_HOSTNAME"
    and "\<forall>c \<in> set tag. c \<noteq> CHR '':'' \<and> c \<noteq> CHR '' ''" "length tag \<le> 510"
  shows "parse_host_tag inst m (int (length x)) (int (length (host @ CHR '' '' # tag @ CHR '':'' # msg))) =
    (MsgSetTAG (MsgSetHOSTNAME m host) (tag @ '':''), iLenRawMsg m - int (length msg))"
proof -
  define p2 where "p2 = tag @ CHR '':'' # msg"
  have raw: "raw m = x @ host @ CHR '' '' # p2"
    using assms(1) by (simp add: p2_def)
  have "scan_hostname inst (host @ CHR '' '' # p2) (int (length (host @ CHR '' '' # p2))) = Some (int (length host), int (length host) + 1)"
    by (rule scan_hostname_host [OF assms(2) refl])
  moreover have "nat (int (length x) + (int (length host) + 1)) = length (x @ host @ '' '')"
    by simp
  then have "drop (nat (int (length x) + (int (length host) + 1))) (raw m) = p2"
    unfolding raw by simp
  moreover have "scan_tag inst p2 (int (length p2)) = (tag @ '':'', int (length tag) + 1)"
    unfolding p2_def by (rule scan_tag_tag [OF assms(4,5) refl])
  ultimately show ?thesis
    unfolding p2_def [symmetric] using assms(3) raw
    by (simp add: parse_host_tag_def Let_def iLenRawMsg_def) (simp add: p2_def)
qed

lemma parse_timestamp3164_text:
  assumes "time_fields_ok ts" "formatTimestamp3164 ts b = (buf, n)" "dfltTZ m = []" "\<not> bDetectYearAfterTimestamp inst"
  shows "parse_timestamp3164 tzs inst m (buf @ CHR '' '' # rest) (n + int (length rest)) =
    ((tTIMESTAMP m)\<lparr>timeType := 1, month := month ts, day := day ts, hour := hour ts,
         minute := minute ts, second := second ts, secfrac := 0, secfracPrecision := 0\<rparr>, rest, int (length rest))"
proof -
  have "deref (buf @ CHR '' '' # rest) \<in> set ''JFMASOND''"
    using formatTimestamp3164_start [of ts b "CHR '' '' # rest"] assms(1,2) by (simp add: time_fields_ok_def)
  then have "\<not> is_digit (deref (buf @ CHR '' '' # rest))" "deref (buf @ CHR '' '' # rest) \<noteq> CHR ''-''"
    by (auto simp: is_digit_def byte_val_def)
  from ParseTIMESTAMP3339_letter [OF this] parse_written3164 [OF assms(1,2), of tzs "tTIMESTAMP m" rest] assms(3,4)
  show ?thesis
    by (simp add: parse_timestamp3164_def Let_def)
qed

lemma parse3164_written:
  assumes "time_fields_ok ts" "formatTimestamp3164 ts b = (buf, n)" "host_ok host"
    and "\<forall>c \<in> set tag. c \<noteq> CHR '':'' \<and> c \<noteq> CHR '' ''" "length tag \<le> 510"
    and "raw m = pre @ buf @ CHR '' '' # host @ CHR '' '' # tag @ CHR '':'' # msg" "offAfterPRI m = int (length pre)"
    and "iFacility m \<noteq> 24" "has_flag m PARSE_HOSTNAME" "\<not> has_flag m INTERNAL_MSG" "\<not> has_flag m IGNDATE" "dfltTZ m = []"
    and "\<not> bDetectYearAfterTimestamp inst" "\<not> bRemoveMsgFirstSpace inst"
  shows "\<exists>m1. parse3164 tzs True inst m = (RS_RET_OK, m1)
    \<and> tTIMESTAMP m1 = (tTIMESTAMP m)\<lparr>timeType := 1, month := month ts, day := day ts, hour := hour ts,
         minute := minute ts, second := second ts, secfrac := 0, secfracPrecision := 0\<rparr>
    \<and> pszHOSTNAME m1 = Some host \<and> TAG m1 = tag @ '':'' \<and> getMSG m1 = msg \<and> raw m1 = raw m \<and> iProtocolVersion m1 = 0
    \<and> getPRIi m1 = getPRIi m"
proof -
  define rest where "rest = host @ CHR '' '' # tag @ CHR '':'' # msg"
  define t where "t = (tTIMESTAMP m)\<lparr>timeType := 1, month := month ts, day := day ts, hour := hour ts,
         minute := minute ts, second := second ts, secfrac := 0, secfracPrecision := 0\<rparr>"
  let ?m0 = "setProtocolVersion m 0" and ?p = "buf @ CHR '' '' # rest"
  have mon: "month ts \<in> {1..12}"
    using assms(1) by (simp add: time_fields_ok_def)
  have n: "n = int (length buf) + 1"
    using length_formatTimestamp3164 [OF mon, of b] assms(2) by simp
  have p: "drop (nat (offAfterPRI m)) (raw m) = ?p" "iLenRawMsg m - offAfterPRI m = n + int (length rest)"
    using assms(6,7) n by (simp_all add: rest_def iLenRawMsg_def)
  have "\<not> headerless ?p (n + int (length rest))"
    using formatTimestamp3164_start [OF mon, of b "CHR '' '' # rest"] assms(2) by (intro not_headerless) simp
  moreover have fields: "iFacility ?m0 = iFacility m" "tTIMESTAMP ?m0 = tTIMESTAMP m" "dfltTZ ?m0 = []"
      "has_flag ?m0 f = has_flag m f" "offAfterPRI ?m0 = offAfterPRI m" "iLenRawMsg ?m0 = iLenRawMsg m"
      "iProtocolVersion ?m0 = 0" for f
    using assms(12) by (simp_all add: setProtocolVersion_def has_flag_def iLenRawMsg_def raw_def)
  moreover have "parse_timestamp3164 tzs inst ?m0 ?p (n + int (length rest)) = (t, rest, int (length rest))"
    using parse_timestamp3164_text [OF assms(1,2) fields(3) assms(13)] fields(2) by (simp add: t_def)
  moreover have "drop_bit 3 LOG_INVLD = 24"
    by code_simp
  ultimately have "parse_body3164 tzs True inst ?m0 =
      parse_host_tag inst (?m0\<lparr>tTIMESTAMP := t\<rparr>) (iLenRawMsg m - int (length rest)) (int (length rest))"
    using assms(8,10,11) p by (simp add: parse_body3164_def Let_def)
  moreover have "iLenRawMsg m - int (length rest) = int (length (pre @ buf @ '' ''))"
    using assms(6) by (simp add: iLenRawMsg_def rest_def)
  moreover have "raw (?m0\<lparr>tTIMESTAMP := t\<rparr>) = (pre @ buf @ '' '') @ rest"
    using assms(6) by (simp add: rest_def setProtocolVersion_def raw_def)
  moreover have "has_flag (?m0\<lparr>tTIMESTAMP := t\<rparr>) PARSE_HOSTNAME" "iLenRawMsg (?m0\<lparr>tTIMESTAMP := t\<rparr>) = iLenRawMsg m"
    using assms(9) fields(4,6) by (simp_all add: has_flag_def iLenRawMsg_def)
  ultimately have "parse_body3164 tzs True inst ?m0 =
      (MsgSetTAG (MsgSetHOSTNAME (?m0\<lparr>tTIMESTAMP := t\<rparr>) host) (tag @ '':''), iLenRawMsg m - int (length msg))"
    using parse_host_tag_text [of "?m0\<lparr>tTIMESTAMP := t\<rparr>" "pre @ buf @ '' ''" host tag msg inst, folded rest_def] assms(3-5)
    by (simp only: simp_thms if_True if_False)
  moreover have "drop (nat (iLenRawMsg m - int (length msg))) (raw m) = msg" "int (length msg) \<le> iLenRawMsg m"
    using raw_tail [of m "pre @ buf @ CHR '' '' # host @ CHR '' '' # tag @ '':''" msg] assms(6) by simp_all
  ultimately show ?thesis
    using assms(14) fields(7)
    by (simp add: parse3164_def MsgSetMSGoffs_def MsgSetTAG_def MsgSetHOSTNAME_def getMSG_def iLenRawMsg_def raw_def
        setProtocolVersion_def t_def getPRIi_def)
qed

text \<open>(C20) A well-formed legacy message is parsed field by field: if the text behind the PRI is a time stamp
  as \<open>formatTimestamp3164\<close> writes it, the HOSTNAME, the TAG with its colon and the message, then the module
  stores the time (in the year the message object had), the HOSTNAME and the TAG, the MSG part is exactly
  the rest, and the raw message is unchanged.\<close>

theorem parse3164_roundtrip:
  assumes "time_fields_ok ts" "formatTimestamp3164 ts b = (buf, n)" "host_ok host"
    and "\<forall>c \<in> set tag. c \<noteq> CHR '':'' \<and> c \<noteq> CHR '' ''" "length tag \<le> 510"
    and "raw m = pre @ buf @ CHR '' '' # host @ CHR '' '' # tag @ CHR '':'' # msg" "offAfterPRI m = int (length pre)"
    and "iFacility m \<noteq> 24" "has_flag m PARSE_HOSTNAME" "\<not> has_flag m INTERNAL_MSG" "\<not> has_flag m IGNDATE" "dfltTZ m = []"
    and "\<not> bDetectYearAfterTimestamp inst" "\<not> bRemoveMsgFirstSpace inst"
  shows "\<exists>m1. parse3164 tzs True inst m = (RS_RET_OK, m1)
    \<and> tTIMESTAMP m1 = (tTIMESTAMP m)\<lparr>timeType := 1, month := month ts, day := day ts, hour := hour ts,
         minute := minute ts, second := second ts, secfrac := 0, secfracPrecision := 0\<rparr>
    \<and> pszHOSTNAME m1 = Some host \<and> TAG m1 = tag @ '':'' \<and> getMSG m1 = msg \<and> raw m1 = raw m \<and> iProtocolVersion m1 = 0
    \<and> getPRIi m1 = getPRIi m"
  using assms by (rule parse3164_written)

definition raw3164_example :: string where
  "raw3164_example = ''<34>Oct 11 22:14:15 host su[77]: hi''"

definition msg3164_example :: smsg where
  "msg3164_example = msgBaseConstruct\<lparr>pszRawMsg := Some raw3164_example, offAfterPRI := 4, iFacility := 4, msgFlags := PARSE_HOSTNAME\<rparr>"

lemma msg3164_example:
  "raw msg3164_example = ''<34>'' @ ''Oct 11 22:14:15'' @ CHR '' '' # ''host'' @ CHR '' '' # ''su[77]'' @ CHR '':'' # '' hi''"
  "offAfterPRI msg3164_example = int (length ''<34>'')" "iFacility msg3164_example \<noteq> 24"
  "has_flag msg3164_example PARSE_HOSTNAME" "\<not> has_flag msg3164_example INTERNAL_MSG" "\<not> has_flag msg3164_example IGNDATE"
  "dfltTZ msg3164_example = []"
  by (simp_all add: msg3164_example_def raw3164_example_def raw_def has_flag_def msgBaseConstruct_def PARSE_HOSTNAME_def
      INTERNAL_MSG_def IGNDATE_def)

lemma host_ok_example: "host_ok ''host''"
  by (simp add: host_ok_def is_alnum_def is_digit_def byte_val_def)

lemma tag_example: "\<forall>c \<in> set ''su[77]''. c \<noteq> CHR '':'' \<and> c \<noteq> CHR '' ''" "length ''su[77]'' \<le> 510"
  by simp_all

lemma createInstance_off: "\<not> bDetectYearAfterTimestamp createInstance" "\<not> bRemoveMsgFirstSpace createInstance"
  by (simp_all add: createInstance_def)

theorem parse3164_roundtrip_witness:
  "\<exists>m1. parse3164 [] True createInstance msg3164_example = (RS_RET_OK, m1) \<and> pszHOSTNAME m1 = Some ''host''
    \<and> TAG m1 = ''su[77]:'' \<and> getMSG m1 = '' hi''"
  using parse3164_roundtrip [OF time_example_fields time_example_3164 host_ok_example tag_example msg3164_example createInstance_off, of "[]"]
  by auto

lemma byte_at_append: "byte_at (a @ s) k = (if k < int (length a) then byte_at a k else byte_at s (k - int (length a)))"
  by (cases k) (auto simp: byte_at_def nth_append nat_diff_distrib')

lemma byte_at_Cons: "0 < k \<Longrightarrow> byte_at (c # s) k = byte_at s (k - 1)"
  using byte_at_append [of "[c]" s k] by simp

lemma byte_at_mem: "byte_at s k \<in> insert NUL (set s)"
  by (auto simp: byte_at_def intro!: nth_mem)

text \<open>(C22) The HOSTNAME and its buffer: the terminator of a HOSTNAME is written at an index of at most 512, what is
  consumed stays within the message, and unless square brackets are permitted the index is inside the
  buffer of 512 bytes.\<close>

theorem hostname_bounds:
  assumes "scan_hostname inst p lenMsg = Some (j, n)" "0 < lenMsg" "lenMsg = int (length p)"
  shows "0 \<le> j \<and> j \<le> CONF_HOSTNAME_MAXSIZE \<and> j \<le> n \<and> n \<le> lenMsg
    \<and> (\<not> bPermitSquareBracketsInHostname inst \<longrightarrow> j < CONF_HOSTNAME_MAXSIZE)"
proof -
  define br where "br \<longleftrightarrow> bPermitSquareBracketsInHostname inst \<and> deref p = CHR ''[''"
  define i where "i = host_loop inst br p lenMsg (if br then 1 else 0)"
  have i: "0 \<le> i" "i \<le> 511" "i \<le> lenMsg"
    using host_loop_bounds [of "if br then 1 else 0" lenMsg inst br p] assms(2) by (auto simp: i_def split: if_splits)
  have blank: "k < lenMsg" if "byte_at p k = CHR '' ''" for k
    using that assms(3) by (cases "k < int (length p)") (auto simp: byte_at_def NUL_def nat_less_iff split: if_splits)
  define close where "close \<longleftrightarrow> 0 < i \<and> br \<and> byte_at p i = CHR '']''"
  define e where "e = (if close then i + 1 else i)"
  have "(if i = lenMsg then Some (i, i)
      else if 0 < i \<and> (if br then close else is_alnum (byte_at p (i - 1))) \<and> byte_at p e = CHR '' '' then Some (e, e + 1) else None)
    = Some (j, n)"
    using assms(1) unfolding scan_hostname_def br_def [symmetric] Let_def i_def [symmetric] close_def [symmetric] e_def [symmetric] .
  then have "i = lenMsg \<and> j = i \<and> n = i \<or> j = e \<and> n = e + 1 \<and> e < lenMsg"
    using blank [of e] by (simp split: if_splits)
  moreover have "e = i \<or> e = i + 1 \<and> bPermitSquareBracketsInHostname inst"
    by (simp add: e_def close_def br_def)
  ultimately show ?thesis
    using i by (auto simp: CONF_HOSTNAME_MAXSIZE_def)
qed

text \<open>The terminator behind the buffer: with square brackets permitted, a bracketed HOSTNAME of 512 bytes
  is accepted and its terminator is written at index 512, one byte behind the buffer.\<close>

theorem hostname_terminator_behind_buffer:
  assumes "bPermitSquareBracketsInHostname inst" "length h = 510" "\<forall>c \<in> set h. is_alnum c"
    and "p = CHR ''['' # h @ CHR '']'' # CHR '' '' # s" "lenMsg = int (length p)"
  shows "scan_hostname inst p lenMsg = Some (CONF_HOSTNAME_MAXSIZE, CONF_HOSTNAME_MAXSIZE + 1)"
proof -
  have ends: "byte_at p 511 = CHR '']''" "byte_at p 512 = CHR '' ''"
    using assms(2) unfolding assms(4) by (simp_all add: byte_at_append byte_at_Cons) (simp_all add: byte_at_def)
  have alnum: "is_alnum (byte_at p k)" if "1 \<le> k" "k < 511" for k
  proof -
    have "byte_at p k = byte_at h (k - 1)" "byte_at h (k - 1) \<in> set h"
      using that assms(2) unfolding assms(4) by (simp_all add: byte_at_append byte_at_Cons) (simp add: byte_at_def nat_less_iff)
    then show ?thesis
      using assms(3) by simp
  qed
  have len: "lenMsg = 513 + int (length s)"
    using assms(2,4,5) by simp
  have run: "host_char inst True (byte_at p k) \<and> byte_at p (k + 1) \<noteq> CHR '']''" if "1 \<le> k" "k < 510" for k
    using alnum [of k] alnum [of "k + 1"] that not_alnum(1) by (auto simp: host_char_def)
  have "host_loop inst True p lenMsg 1 = host_loop inst True p lenMsg 510"
    by (rule host_loop_run) (use run len in auto)
  also have "\<dots> = 511"
    using alnum [of 510] ends(1) len by (subst host_loop.simps) (simp add: host_char_def CONF_HOSTNAME_MAXSIZE_def)
  finally have "host_loop inst True p lenMsg 1 = 511" .
  moreover have "deref p = CHR ''[''"
    by (simp add: assms(4))
  ultimately show ?thesis
    using ends len assms(1) by (simp add: scan_hostname_def Let_def CONF_HOSTNAME_MAXSIZE_def)
qed

text \<open>The forced colon: with the option that a TAG must end in a colon, if no colon follows, the TAG is a
  dash and the message starts one byte before the text that was tried as TAG.\<close>

theorem forced_colon_steps_back:
  assumes "bForceTagEndingByColon inst" "\<not> has_flag m PARSE_HOSTNAME" "CHR '':'' \<notin> set (drop (nat off) (raw m))"
  shows "parse_host_tag inst m off lenMsg = (MsgSetTAG m ''-'', off - 1)"
proof -
  have "byte_at (drop (nat off) (raw m)) i \<noteq> CHR '':''" for i
    using assms(3) byte_at_mem [of "drop (nat off) (raw m)" i] by (auto simp: NUL_def)
  then show ?thesis
    using assms(1,2) by (simp add: parse_host_tag_def scan_tag_def Let_def)
qed

definition brackets_example :: inst3164 where
  "brackets_example = createInstance\<lparr>bPermitSquareBracketsInHostname := True, bForceTagEndingByColon := True\<rparr>"

lemma scan_example: "scan_hostname brackets_example ''host su: hi'' 11 = Some (4, 5)"
proof -
  have "scan_hostname brackets_example (''host'' @ CHR '' '' # ''su: hi'') 11 = Some (int (length ''host''), int (length ''host'') + 1)"
    by (rule scan_hostname_host [OF host_ok_example]) simp
  then show ?thesis
    by simp
qed

lemma length_example: "(0::int) < 11" "11 = int (length ''host su: hi'')"
  by simp_all

theorem hostname_bounds_witness:
  "scan_hostname brackets_example ''host su: hi'' 11 = Some (4, 5) \<and> (5::int) \<le> 11 \<and> (4::int) \<le> CONF_HOSTNAME_MAXSIZE"
  using hostname_bounds [OF scan_example length_example] scan_example by blast

lemma long_host: "\<forall>c \<in> set (replicate 510 (CHR ''a'')). is_alnum c" "bPermitSquareBracketsInHostname brackets_example"
  by (simp_all add: is_alnum_def byte_val_def brackets_example_def createInstance_def)

theorem hostname_terminator_behind_buffer_witness:
  "scan_hostname brackets_example (CHR ''['' # replicate 510 (CHR ''a'') @ CHR '']'' # CHR '' '' # ''x'')
     (int (length (CHR ''['' # replicate 510 (CHR ''a'') @ CHR '']'' # CHR '' '' # ''x''))) =
   Some (CONF_HOSTNAME_MAXSIZE, CONF_HOSTNAME_MAXSIZE + 1)"
  by (rule hostname_terminator_behind_buffer [where s = "''x''", OF long_host(2) length_replicate long_host(1) refl refl])

theorem forced_colon_steps_back_witness:
  "snd (parse_host_tag brackets_example (msg3164_example\<lparr>pszRawMsg := Some ''<34>text'', msgFlags := 0\<rparr>) 4 4) = 3"
  using forced_colon_steps_back [of brackets_example "msg3164_example\<lparr>pszRawMsg := Some ''<34>text'', msgFlags := 0\<rparr>" 4 4]
  by (simp add: brackets_example_def createInstance_def has_flag_def raw_def)

end
