(* ===== verification/Rs_Input.thy ===== *)
theory Rs_Input
  imports Tcps_Sess Pm_Rfc5424 Pm_Rfc3164
begin

text \<open>
  From the wire to the parsed message: the message object that a TCP session makes of a received frame
  (\<open>msgConstructWithTime\<close> in \<open>runtime/msg.c\<close>, the second half of \<open>defaultDoSubmitMessage\<close> in
  \<open>runtime/tcps_sess.c\<close>) and its way through \<open>ParseMsg\<close> and the parser modules. The input name, the
  ruleset and the rate limiter of the listener are not part of the message model.
\<close>

section \<open>Model\<close>

definition msgConstructWithTime :: "syslogTime \<Rightarrow> smsg" where
  "msgConstructWithTime stTime = msgBaseConstruct\<lparr>tRcvdAt := stTime, tTIMESTAMP := stTime\<rparr>"

record listener =
  lstn_dfltTZ :: string
  bUseFlowControl :: bool

definition submit_msg :: "listener \<Rightarrow> string \<Rightarrow> syslogTime \<Rightarrow> string \<Rightarrow> smsg" where
  "submit_msg l fromHost stTime s =
     (let m = MsgSetRawMsg (msgConstructWithTime stTime) s;
          m1 = (if lstn_dfltTZ l \<noteq> [] then MsgSetDfltTZ m (lstn_dfltTZ l) else m)
      in m1\<lparr>flowCtlType := (if bUseFlowControl l then eFLOWCTL_LIGHT_DELAY else eFLOWCTL_NO_DELAY),
           msgFlags := NEEDS_PARSING OR PARSE_HOSTNAME, pRcvFrom := Some fromHost\<rparr>)"

lemma submit_msg_fields:
  "pszRawMsg (submit_msg l fromHost stTime s) = Some s"
  "\<not> has_flag (submit_msg l fromHost stTime s) NO_PRI_IN_RAW" "\<not> has_flag (submit_msg l fromHost stTime s) IGNDATE"
  "\<not> has_flag (submit_msg l fromHost stTime s) INTERNAL_MSG" "has_flag (submit_msg l fromHost stTime s) PARSE_HOSTNAME"
  by (simp_all add: submit_msg_def Let_def MsgSetDfltTZ_def MsgSetRawMsg_def has_flag_def NEEDS_PARSING_def PARSE_HOSTNAME_def
      NO_PRI_IN_RAW_def IGNDATE_def INTERNAL_MSG_def)

lemma submit_msg_dfltTZ: "lstn_dfltTZ l = [] \<Longrightarrow> dfltTZ (submit_msg l fromHost stTime s) = []"
  by (simp add: submit_msg_def Let_def MsgSetRawMsg_def msgConstructWithTime_def msgBaseConstruct_def)

section \<open>Messages without anything to sanitize\<close>

definition plain :: "parser_cfg \<Rightarrow> char \<Rightarrow> bool" where
  "plain cfg c \<longleftrightarrow> 32 \<le> byte_val c \<and> (bEscape8BitChars cfg \<longrightarrow> byte_val c \<le> 127)"

lemma sweep_plain: "list_all (plain cfg) s \<Longrightarrow> sweep cfg need s = (need, s, [])"
  by (induction s) (auto simp: plain_def)

lemma drop_trailing_plain: "list_all (plain cfg) s \<Longrightarrow> s \<noteq> [] \<Longrightarrow> drop_trailing cfg s = s"
  by (cases s rule: rev_cases) (auto simp: drop_trailing_def plain_def NUL_def byte_val_def)

lemma SanitizeMsg_plain:
  assumes "pszRawMsg m = Some s" "s \<noteq> []" "list_all (plain cfg) s"
  shows "SanitizeMsg cfg m = Some m"
  using assms by (simp add: SanitizeMsg_def raw_def sweep_plain drop_trailing_plain)

text \<open>Such a message with a valid PRI reaches the first module as it is, with the priority set.\<close>

definition with_PRI :: "smsg \<Rightarrow> string \<Rightarrow> smsg" where
  "with_PRI m ds = MsgSetAfterPRIOffs (msgSetPRI m (of_nat (digits_value ds))) (2 + int (length ds))"

lemma parse_loop_plain:
  assumes "pszRawMsg m = Some (CHR ''<'' # ds @ CHR ''>'' # t)" "list_all (plain cfg) (CHR ''<'' # ds @ CHR ''>'' # t)"
    and "list_all is_digit ds" "digits_value ds \<le> 191" "\<not> has_flag m NO_PRI_IN_RAW"
    and "bDoSanitazion p" "bDoPRIParsing p"
  shows "parse_loop cfg False False r (p # ps) m = (case parse_entry p (with_PRI m ds) of
    (r, m3) \<Rightarrow> if r \<noteq> RS_RET_COULD_NOT_PARSE then Some (r, m3) else parse_loop cfg True True r ps m3)"
proof -
  have "ParsePRI m = with_PRI m ds"
    using ParsePRI_fields [OF assms(5), of ds "CHR ''>'' # t"] assms(1,3,4)
    by (simp add: raw_def with_PRI_def list_all_iff is_digit_def byte_val_def)
  moreover have "SanitizeMsg cfg m = Some m"
    using assms(1,2) by (intro SanitizeMsg_plain) auto
  ultimately show ?thesis
    using assms(6,7) by simp
qed

lemma ParseMsg_plain:
  assumes "pszRawMsg m = Some (CHR ''<'' # s)"
  shows "ParseMsg zuncompress cfg parsers m = (case parse_loop cfg False False RS_RET_ERR parsers m of
    None \<Rightarrow> None | Some (r, m1) \<Rightarrow> if r \<noteq> RS_RET_OK then Some (r, m1)
      else Some (RS_RET_OK, m1\<lparr>msgFlags := msgFlags m1 AND NOT NEEDS_PARSING\<rparr>))"
  using assms by (simp add: ParseMsg_def iLenRawMsg_def raw_def uncompressMessage_def del: parse_loop.simps)

lemma with_PRI_fields:
  "raw (with_PRI m ds) = raw m" "offAfterPRI (with_PRI m ds) = 2 + int (length ds)"
  "has_flag (with_PRI m ds) f \<longleftrightarrow> has_flag m f" "tTIMESTAMP (with_PRI m ds) = tTIMESTAMP m" "dfltTZ (with_PRI m ds) = dfltTZ m"
  by (simp_all add: with_PRI_def MsgSetAfterPRIOffs_def msgSetPRI_def raw_def has_flag_def Let_def)

lemma with_PRI_value:
  assumes "digits_value ds \<le> 191"
  shows "getPRIi (with_PRI m ds) = of_nat (digits_value ds)" "iFacility (with_PRI m ds) \<noteq> 24"
proof -
  have le: "(of_nat (digits_value ds) :: 16 word) \<le> 191"
    using assms by (simp add: word_le_nat_alt unat_of_nat)
  then show "getPRIi (with_PRI m ds) = of_nat (digits_value ds)"
    using conjunct1 [OF getPRIi_msgSetPRI, of m "of_nat (digits_value ds)"] by (simp add: with_PRI_def LOG_MAXPRI_def)
  have "pri2fac (of_nat (digits_value ds)) \<le> 23" "\<not> 191 < (of_nat (digits_value ds) :: 16 word)"
    using pri_parts(2) [OF le] le by auto
  then have "iFacility (with_PRI m ds) \<le> 23"
    by (simp add: with_PRI_def MsgSetAfterPRIOffs_def msgSetPRI_def Let_def LOG_MAXPRI_def)
  then show "iFacility (with_PRI m ds) \<noteq> 24"
    by auto
qed

lemma raw_pszRawMsg: "pszRawMsg m = Some s \<Longrightarrow> raw m = s"
  by (simp add: raw_def)

lemma needs_parsing_cleared: "\<not> has_flag (m\<lparr>msgFlags := w AND NOT f\<rparr>) f"
  by (simp add: has_flag_def and.assoc)

section \<open>The decimal text of a number\<close>

lemma digits_value_append: "digits_value (ds @ [c]) = 10 * digits_value ds + nat (byte_val c - 48)"
  by (simp add: digits_value_def)

lemma dec_str_digits: "list_all is_digit (dec_str n) \<and> digits_value (dec_str n) = n"
proof (induction n rule: dec_str.induct)
  case (1 n)
  have d: "is_digit (to_char (48 + int k)) \<and> byte_val (to_char (48 + int k)) = 48 + int k" if "k < 10" for k
    using that by (simp add: is_digit_def byte_val_to_char)
  show ?case
  proof (cases "n < 10")
    case True
    with d [of n] show ?thesis
      by (simp add: dec_str.simps [of n] digits_value_def)
  next
    case False
    with 1 d [of "n mod 10"] show ?thesis
      by (simp add: dec_str.simps [of n] digits_value_append)
  qed
qed

section \<open>Log entries on the wire\<close>

record log_entry =
  l_pri :: nat
  l_time :: syslogTime
  l_host :: string
  l_app :: string
  l_procid :: string
  l_msgid :: string
  l_sd :: string
  l_msg :: string

definition wire5424 :: "log_entry \<Rightarrow> string" where
  "wire5424 e = CHR ''<'' # dec_str (l_pri e) @ CHR ''>'' #
     text5424 (l_time e) (l_host e) (l_app e) (l_procid e) (l_msgid e) (l_sd e @ CHR '' '' # l_msg e)"

definition entry_ok :: "parser_cfg \<Rightarrow> log_entry \<Rightarrow> bool" where
  "entry_ok cfg e \<longleftrightarrow> l_pri e \<le> 191 \<and> writable3339 (l_time e) \<and> field_ok (l_host e) \<and> field_ok (l_app e) \<and> l_app e \<noteq> []
     \<and> field_ok (l_procid e) \<and> field_ok (l_msgid e) \<and> sd_ok (l_sd e) \<and> list_all (plain cfg) (wire5424 e)"

text \<open>The message object holds the entry, and needs no further parsing.\<close>

definition carries :: "smsg \<Rightarrow> log_entry \<Rightarrow> bool" where
  "carries m e \<longleftrightarrow> getPRIi m = of_nat (l_pri e)
     \<and> tTIMESTAMP m = (l_time e)\<lparr>timeType := 2, wday := wday (tTIMESTAMP m), inUTC := inUTC (tTIMESTAMP m)\<rparr>
     \<and> pszHOSTNAME m = Some (l_host e) \<and> pCSAPPNAME m = Some (l_app e) \<and> pCSPROCID m = Some (l_procid e)
     \<and> pCSMSGID m = Some (l_msgid e) \<and> pszStrucData m = Some (l_sd e) \<and> getMSG m = l_msg e
     \<and> iProtocolVersion m = 1 \<and> \<not> has_flag m NEEDS_PARSING"

lemma carries_flags:
  "carries (m\<lparr>msgFlags := w AND NOT NEEDS_PARSING\<rparr>) e \<longleftrightarrow> getPRIi m = of_nat (l_pri e)
     \<and> tTIMESTAMP m = (l_time e)\<lparr>timeType := 2, wday := wday (tTIMESTAMP m), inUTC := inUTC (tTIMESTAMP m)\<rparr>
     \<and> pszHOSTNAME m = Some (l_host e) \<and> pCSAPPNAME m = Some (l_app e) \<and> pCSPROCID m = Some (l_procid e)
     \<and> pCSMSGID m = Some (l_msgid e) \<and> pszStrucData m = Some (l_sd e) \<and> getMSG m = l_msg e
     \<and> iProtocolVersion m = 1"
  by (simp add: carries_def needs_parsing_cleared) (simp add: getPRIi_def getMSG_def raw_def iLenRawMsg_def)

lemma ParseMsg_wire5424:
  assumes "entry_ok cfg e" "pszRawMsg m = Some (wire5424 e)" "\<not> has_flag m NO_PRI_IN_RAW" "\<not> has_flag m IGNDATE"
  shows "\<exists>m1. ParseMsg zuncompress cfg (pmrfc5424 # ps) m = Some (RS_RET_OK, m1) \<and> carries m1 e"
proof -
  let ?ds = "dec_str (l_pri e)"
  let ?m = "with_PRI m ?ds" and ?pre = "CHR ''<'' # ?ds @ ''>''"
  have ds: "list_all is_digit ?ds" "digits_value ?ds = l_pri e" "digits_value ?ds \<le> 191"
    using dec_str_digits [of "l_pri e"] assms(1) by (auto simp: entry_ok_def)
  have pre: "offAfterPRI ?m = int (length ?pre)"
      "raw ?m = ?pre @ text5424 (l_time e) (l_host e) (l_app e) (l_procid e) (l_msgid e) (l_sd e @ CHR '' '' # l_msg e)"
    using raw_pszRawMsg [OF assms(2)] by (simp_all add: with_PRI_fields wire5424_def)
  obtain m1 where m1: "parse5424 ?m = (RS_RET_OK, m1)" "carries (m1\<lparr>msgFlags := msgFlags m1 AND NOT NEEDS_PARSING\<rparr>) e"
    using parse5424_written [OF _ _ _ _ _ _ _ pre(2,1), of] assms(1,4) with_PRI_value(1) [OF ds(3), of m] ds(2)
    unfolding carries_flags by (auto simp: entry_ok_def with_PRI_fields)
  have "parse_loop cfg False False RS_RET_ERR (pmrfc5424 # ps) m = Some (RS_RET_OK, m1)"
    using parse_loop_plain [of m ?ds _ cfg pmrfc5424 RS_RET_ERR ps] assms ds m1(1)
    by (simp add: wire5424_def entry_ok_def pmrfc5424_def del: parse_loop.simps)
  then show ?thesis
    using ParseMsg_plain [of m] assms(2) m1(2) by (simp add: wire5424_def del: parse_loop.simps)
qed

section \<open>Legacy messages\<close>

text \<open>A message without the version number of RFC 5424 is passed on to the next module.\<close>

lemma parse5424_reject: "deref (drop (nat (offAfterPRI m)) (raw m)) \<noteq> CHR ''1'' \<Longrightarrow> parse5424 m = (RS_RET_COULD_NOT_PARSE, m)"
  by (simp add: parse5424_def Let_def)

definition wire3164 :: "string \<Rightarrow> log_entry \<Rightarrow> string" where
  "wire3164 stamp e = CHR ''<'' # dec_str (l_pri e) @ CHR ''>'' # stamp @ CHR '' '' # l_host e @ CHR '' '' # l_app e @ CHR '':'' # l_msg e"

definition entry3164_ok :: "parser_cfg \<Rightarrow> string \<Rightarrow> log_entry \<Rightarrow> bool" where
  "entry3164_ok cfg stamp e \<longleftrightarrow> l_pri e \<le> 191 \<and> time_fields_ok (l_time e) \<and> host_ok (l_host e) \<and> length (l_app e) \<le> 510
     \<and> (\<forall>c \<in> set (l_app e). c \<noteq> CHR '':'' \<and> c \<noteq> CHR '' '') \<and> list_all (plain cfg) (wire3164 stamp e)"

definition carries3164 :: "smsg \<Rightarrow> smsg \<Rightarrow> log_entry \<Rightarrow> bool" where
  "carries3164 m m0 e \<longleftrightarrow> getPRIi m = of_nat (l_pri e)
     \<and> tTIMESTAMP m = (tTIMESTAMP m0)\<lparr>timeType := 1, month := month (l_time e), day := day (l_time e), hour := hour (l_time e),
         minute := minute (l_time e), second := second (l_time e), secfrac := 0, secfracPrecision := 0\<rparr>
     \<and> pszHOSTNAME m = Some (l_host e) \<and> TAG m = l_app e @ '':'' \<and> getMSG m = l_msg e
     \<and> iProtocolVersion m = 0 \<and> \<not> has_flag m NEEDS_PARSING"

lemma carries3164_flags:
  "carries3164 (m\<lparr>msgFlags := w AND NOT NEEDS_PARSING\<rparr>) m0 e \<longleftrightarrow> getPRIi m = of_nat (l_pri e)
     \<and> tTIMESTAMP m = (tTIMESTAMP m0)\<lparr>timeType := 1, month := month (l_time e), day := day (l_time e), hour := hour (l_time e),
         minute := minute (l_time e), second := second (l_time e), secfrac := 0, secfracPrecision := 0\<rparr>
     \<and> pszHOSTNAME m = Some (l_host e) \<and> TAG m = l_app e @ '':'' \<and> getMSG m = l_msg e \<and> iProtocolVersion m = 0"
  by (simp add: carries3164_def needs_parsing_cleared) (simp add: getPRIi_def getMSG_def raw_def iLenRawMsg_def)

lemma ParseMsg_wire3164:
  assumes "entry3164_ok cfg stamp e" "formatTimestamp3164 (l_time e) b = (stamp, n)" "pszRawMsg m = Some (wire3164 stamp e)"
    and "\<not> has_flag m NO_PRI_IN_RAW" "\<not> has_flag m IGNDATE" "\<not> has_flag m INTERNAL_MSG" "has_flag m PARSE_HOSTNAME" "dfltTZ m = []"
    and "\<not> bDetectYearAfterTimestamp inst" "\<not> bRemoveMsgFirstSpace inst"
  shows "\<exists>m1. ParseMsg zuncompress cfg (pmrfc5424 # pmrfc3164 tzs True inst # ps) m = Some (RS_RET_OK, m1) \<and> carries3164 m1 m e"
proof -
  let ?ds = "dec_str (l_pri e)"
  let ?m = "with_PRI m ?ds" and ?pre = "CHR ''<'' # ?ds @ ''>''"
  have ok: "time_fields_ok (l_time e)" "host_ok (l_host e)" "length (l_app e) \<le> 510"
      "\<forall>c \<in> set (l_app e). c \<noteq> CHR '':'' \<and> c \<noteq> CHR '' ''" "month (l_time e) \<in> {1..12}"
    using assms(1) by (auto simp: entry3164_ok_def time_fields_ok_def)
  have ds: "list_all is_digit ?ds" "digits_value ?ds = l_pri e" "digits_value ?ds \<le> 191"
    using dec_str_digits [of "l_pri e"] assms(1) by (auto simp: entry3164_ok_def)
  have pre: "offAfterPRI ?m = int (length ?pre)"
      "raw ?m = ?pre @ stamp @ CHR '' '' # l_host e @ CHR '' '' # l_app e @ CHR '':'' # l_msg e"
    using raw_pszRawMsg [OF assms(3)] by (simp_all add: with_PRI_fields wire3164_def)
  obtain m1 where m1: "parse3164 tzs True inst ?m = (RS_RET_OK, m1)"
      "carries3164 (m1\<lparr>msgFlags := msgFlags m1 AND NOT NEEDS_PARSING\<rparr>) m e"
    using parse3164_written [OF ok(1) assms(2) ok(2,4,3) pre(2,1), of inst tzs] assms(5-10) with_PRI_value [OF ds(3), of m] ds(2)
    unfolding carries3164_flags by (auto simp: with_PRI_fields)
  have "drop (nat (int (length x))) (x @ y) = y" for x y :: string
    by simp
  then have "drop (nat (offAfterPRI ?m)) (raw ?m) = stamp @ CHR '' '' # l_host e @ CHR '' '' # l_app e @ CHR '':'' # l_msg e"
    unfolding pre .
  then have "parse5424 ?m = (RS_RET_COULD_NOT_PARSE, ?m)"
    using formatTimestamp3164_start [OF ok(5), of b "CHR '' '' # l_host e @ CHR '' '' # l_app e @ CHR '':'' # l_msg e"] assms(2)
    by (intro parse5424_reject) auto
  then have "parse_loop cfg False False RS_RET_ERR (pmrfc5424 # pmrfc3164 tzs True inst # ps) m = Some (RS_RET_OK, m1)"
    using parse_loop_plain [of m ?ds _ cfg pmrfc5424 RS_RET_ERR "pmrfc3164 tzs True inst # ps"] assms ds m1(1)
    by (simp add: wire3164_def entry3164_ok_def pmrfc5424_def pmrfc3164_def)
  then show ?thesis
    using ParseMsg_plain [of m] assms(3) m1(2) by (simp add: wire3164_def del: parse_loop.simps)
qed

end
