(* ===== verification/Json_Escape.thy ===== *)
theory Json_Escape
  imports Rs_Msg "HOL-Library.Monad_Syntax"
begin

text \<open>
  Escaping of property values for JSON (\<open>jsonAddVal\<close>, \<open>jsonAddVal_escaped\<close>, \<open>jsonEncode\<close> and
  \<open>jsonField\<close> in \<open>runtime/msg.c\<close>).

  The work buffer is modelled with its size: 100000 bytes on the stack, doubled whenever fewer than ten bytes
  are left. None stands for a write behind its end; allocations succeed. The counted strings of libestr
  are lists of bytes.
\<close>

section \<open>Operations\<close>

definition json_plain :: "char \<Rightarrow> bool" where
  "json_plain c \<longleftrightarrow> (0x30 \<le> byte_val c \<and> byte_val c \<le> 0x5b) \<or> (0x23 \<le> byte_val c \<and> byte_val c \<le> 0x2e)
     \<or> 0x5d \<le> byte_val c \<or> byte_val c = 0x20 \<or> byte_val c = 0x21"

definition json_hexdigit :: string where
  "json_hexdigit = ''0123456789ABCDEF''"

definition json_escape_char :: "char \<Rightarrow> string" where
  "json_escape_char c =
     (if c = NUL then CHR 0x5C # ''u0000''
      else if c = CHR 0x22 then [CHR 0x5C, CHR 0x22]
      else if c = CHR ''/'' then [CHR 0x5C, CHR ''/'']
      else if c = CHR 0x5C then [CHR 0x5C, CHR 0x5C]
      else if c = CHR 0x08 then [CHR 0x5C, CHR ''b'']
      else if c = CHR 0x0C then [CHR 0x5C, CHR ''f'']
      else if c = CHR 0x0A then [CHR 0x5C, CHR ''n'']
      else if c = CHR 0x0D then [CHR 0x5C, CHR ''r'']
      else if c = CHR 0x09 then [CHR 0x5C, CHR ''t'']
      else [CHR 0x5C, CHR ''u'', json_hexdigit ! nat (byte_val c div 16 div 16 div 16 mod 16), json_hexdigit ! nat (byte_val c div 16 div 16 mod 16),
            json_hexdigit ! nat (byte_val c div 16 mod 16), json_hexdigit ! nat (byte_val c mod 16)])"

record json_buf =
  dst_size :: nat
  dst_realloc_size :: nat
  dst_w :: string

definition put :: "string \<Rightarrow> json_buf \<Rightarrow> json_buf option" where
  "put s b = (if length (dst_w b) + length s \<le> dst_size b then Some (b\<lparr>dst_w := dst_w b @ s\<rparr>) else None)"

definition grow :: "json_buf \<Rightarrow> json_buf" where
  "grow b = (if dst_realloc_size b \<le> length (dst_w b)
     then b\<lparr>dst_size := 2 * dst_size b, dst_realloc_size := 2 * dst_size b - 10\<rparr> else b)"

text \<open>The escapes that are left alone when values may be escaped already.\<close>

definition keeps_escape :: "char \<Rightarrow> bool" where
  "keeps_escape nc \<longleftrightarrow> nc \<in> {CHR 0x22, CHR ''/'', CHR 0x5C, CHR ''b'', CHR ''f'', CHR ''n'', CHR ''r'', CHR ''t'', CHR ''u''}"

fun escape_loop :: "bool \<Rightarrow> string \<Rightarrow> json_buf \<Rightarrow> json_buf option" where
  "escape_loop escapeAll [] b = Some b"
| "escape_loop escapeAll (c # cs) b =
     (if json_plain c then put [c] (grow b) \<bind> escape_loop escapeAll cs
      else if c = CHR 0x5C \<and> \<not> escapeAll \<and> keeps_escape (deref cs)
      then put [c, deref cs] (grow b) \<bind> escape_loop escapeAll (tl cs)
      else put (json_escape_char c) (grow b) \<bind> escape_loop escapeAll cs)"

definition wrkbuf_size :: nat where
  "wrkbuf_size = 100000"

definition jsonAddVal_escaped :: "string \<Rightarrow> nat \<Rightarrow> string option \<Rightarrow> bool \<Rightarrow> string option option" where
  "jsonAddVal_escaped pSrc head_len dst escapeAll =
     (let size = (if wrkbuf_size < head_len + 10 then 2 * head_len else wrkbuf_size)
      in put (take head_len pSrc) \<lparr>dst_size = size, dst_realloc_size = size - 10, dst_w = []\<rparr> \<bind>
         (\<lambda>b. escape_loop escapeAll (drop head_len pSrc) b \<bind>
           (\<lambda>b. Some (Some (case dst of None \<Rightarrow> dst_w b | Some d \<Rightarrow> d @ dst_w b)))))"

definition jsonAddVal :: "string \<Rightarrow> string option \<Rightarrow> bool \<Rightarrow> string option option" where
  "jsonAddVal pSrc dst escapeAll =
     (let i = length (takeWhile json_plain pSrc)
      in if i < length pSrc then jsonAddVal_escaped pSrc i dst escapeAll
         else Some (map_option (\<lambda>d. d @ pSrc) dst))"

text \<open>A property value on its way out: the bytes at \<open>pRes\<close>, the length if it is known and -1 otherwise, and
  whether the buffer belongs to the caller.\<close>

record prop_buf =
  pRes :: string
  bufLen :: int
  bMustBeFreed :: bool

definition buf_len :: "prop_buf \<Rightarrow> int" where
  "buf_len b = (if bufLen b = - 1 then int (length (c_str (pRes b))) else bufLen b)"

definition jsonEncode :: "bool \<Rightarrow> prop_buf \<Rightarrow> prop_buf option" where
  "jsonEncode escapeAll b =
     jsonAddVal (take (nat (buf_len b)) (pRes b)) None escapeAll \<bind>
     (\<lambda>dst. Some (case dst of None \<Rightarrow> b | Some d \<Rightarrow> \<lparr>pRes = d, bufLen = - 1, bMustBeFreed = True\<rparr>))"

datatype tpe_datatype = TPE_DATATYPE_STRING | TPE_DATATYPE_NUMBER | TPE_DATATYPE_BOOL | TPE_DATATYPE_AUTO
datatype tpe_dataempty = TPE_DATAEMPTY_KEEP | TPE_DATAEMPTY_SKIP | TPE_DATAEMPTY_NULL

text \<open>The value of a JSON field behind its name and colon.\<close>

definition json_field_value :: "tpe_datatype \<Rightarrow> string \<Rightarrow> string \<Rightarrow> bool \<Rightarrow> string option option" where
  "json_field_value dataType pSrc dst escapeAll =
     (let quoted = (jsonAddVal pSrc (Some (dst @ [CHR 0x22])) escapeAll \<bind> (\<lambda>d. Some (map_option (\<lambda>d. d @ [CHR 0x22]) d)))
      in case dataType of
        TPE_DATATYPE_AUTO \<Rightarrow> if pSrc \<noteq> [] \<and> list_all is_digit pSrc then jsonAddVal pSrc (Some dst) escapeAll else quoted
      | TPE_DATATYPE_STRING \<Rightarrow> quoted
      | TPE_DATATYPE_NUMBER \<Rightarrow> if pSrc = [] then Some (Some (dst @ ''0'')) else jsonAddVal pSrc (Some dst) escapeAll
      | TPE_DATATYPE_BOOL \<Rightarrow> Some (Some (dst @ (if pSrc = ''0'' then ''false'' else ''true''))))"

definition jsonField :: "string \<Rightarrow> tpe_datatype \<Rightarrow> tpe_dataempty \<Rightarrow> bool \<Rightarrow> prop_buf \<Rightarrow> prop_buf option" where
  "jsonField fieldName dataType onEmpty escapeAll b =
     (let pSrc = take (nat (buf_len b)) (pRes b);
          dst = [CHR 0x22] @ fieldName @ [CHR 0x22, CHR '':'']
      in if pSrc = [] \<and> onEmpty = TPE_DATAEMPTY_SKIP then Some b
         else (if pSrc = [] \<and> onEmpty = TPE_DATAEMPTY_NULL then Some (Some (dst @ ''null''))
               else json_field_value dataType pSrc dst escapeAll) \<bind>
           (\<lambda>d. case d of None \<Rightarrow> None
              | Some d \<Rightarrow> Some \<lparr>pRes = d, bufLen = int (length d), bMustBeFreed = True\<rparr>))"

section \<open>Reading the escapes back\<close>

text \<open>The body of a JSON string according to RFC 8259; code points above 255 do not occur in the output.\<close>

definition hex_value :: "char \<Rightarrow> int option" where
  "hex_value c =
     (let v = byte_val c
      in if 48 \<le> v \<and> v \<le> 57 then Some (v - 48)
         else if 65 \<le> v \<and> v \<le> 70 then Some (v - 55)
         else if 97 \<le> v \<and> v \<le> 102 then Some (v - 87) else None)"

definition simple_escape :: "char \<Rightarrow> char option" where
  "simple_escape c =
     (if c = CHR 0x22 \<or> c = CHR 0x5C \<or> c = CHR ''/'' then Some c
      else map_of [(CHR ''b'', CHR 0x08), (CHR ''f'', CHR 0x0C), (CHR ''n'', CHR 0x0A), (CHR ''r'', CHR 0x0D), (CHR ''t'', CHR 0x09)] c)"

fun hex4 :: "string \<Rightarrow> char option" where
  "hex4 (a # b # c # d # r) =
     do { w \<leftarrow> hex_value a; x \<leftarrow> hex_value b; y \<leftarrow> hex_value c; z \<leftarrow> hex_value d;
          if w = 0 \<and> x = 0 then Some (to_char (y * 16 + z)) else None }"
| "hex4 s = None"

fun json_unescape :: "string \<Rightarrow> string option" where
  "json_unescape [] = Some []"
| "json_unescape (c # cs) =
     (if c = CHR 0x5C then
        if deref cs = CHR ''u''
        then do { v \<leftarrow> hex4 (tl cs); map_option ((#) v) (json_unescape (drop 5 cs)) }
        else do { v \<leftarrow> simple_escape (deref cs); map_option ((#) v) (json_unescape (tl cs)) }
      else if c = CHR 0x22 \<or> byte_val c < 32 then None
      else map_option ((#) c) (json_unescape cs))"

definition json_text :: "string \<Rightarrow> string" where
  "json_text s = concat (map (\<lambda>c. if json_plain c then [c] else json_escape_char c) s)"

lemma hex_value_json_hexdigit:
  assumes "0 \<le> n" "n < 16"
  shows "hex_value (json_hexdigit ! nat n) = Some n"
proof -
  have "list_all (\<lambda>n. hex_value (json_hexdigit ! nat n) = Some n) [0..15]"
    by code_simp
  then show ?thesis
    using assms by (simp add: list_all_iff)
qed

lemma byte_val_consts [simp]:
  "byte_val (CHR 0x22) = 0x22" "byte_val (CHR ''/'') = 0x2f" "byte_val (CHR 0x5C) = 0x5c" "byte_val (CHR 0x08) = 8"
  "byte_val (CHR 0x0C) = 12" "byte_val (CHR 0x0A) = 10" "byte_val (CHR 0x0D) = 13" "byte_val (CHR 0x09) = 9"
  by (simp_all add: byte_val_def)

lemma unescape_plain:
  assumes "json_plain c"
  shows "json_unescape (c # r) = map_option ((#) c) (json_unescape r)"
proof -
  have "c \<noteq> CHR 0x5C" "c \<noteq> CHR 0x22" "\<not> byte_val c < 32"
    using assms by (auto simp: json_plain_def)
  then show ?thesis
    by simp
qed

lemma nibbles:
  assumes "(0::int) \<le> v" "v < 256"
  shows "v div 16 div 16 div 16 mod 16 = 0" "v div 16 div 16 mod 16 = 0" "v div 16 mod 16 * 16 + v mod 16 = v"
proof -
  have "v div 16 div 16 = 0"
    using zdiv_zmult2_eq [of 16 v 16] assms by simp
  then show "v div 16 div 16 div 16 mod 16 = 0" "v div 16 div 16 mod 16 = 0"
    by simp_all
  have "v div 16 < 16" "0 \<le> v div 16"
    using assms by simp_all
  then show "v div 16 mod 16 * 16 + v mod 16 = v"
    by simp
qed

lemma unescape_hex:
  "json_unescape ([CHR 0x5C, CHR ''u'', json_hexdigit ! nat (byte_val c div 16 div 16 div 16 mod 16), json_hexdigit ! nat (byte_val c div 16 div 16 mod 16),
            json_hexdigit ! nat (byte_val c div 16 mod 16), json_hexdigit ! nat (byte_val c mod 16)] @ r) = map_option ((#) c) (json_unescape r)"
proof -
  define h where "h = byte_val c div 16 mod 16"
  define l where "l = byte_val c mod 16"
  have "0 \<le> h" "h < 16" "0 \<le> l" "l < 16"
    by (simp_all add: h_def l_def)
  then have v: "hex_value (json_hexdigit ! nat h) = Some h" "hex_value (json_hexdigit ! nat l) = Some l" "hex_value (json_hexdigit ! 0) = Some 0"
    using hex_value_json_hexdigit [of 0] by (simp_all add: hex_value_json_hexdigit)
  have "to_char (h * 16 + l) = c"
    using nibbles(3) [OF byte_val_bounds, of c] by (simp add: h_def l_def to_char_byte_val)
  then show ?thesis
    unfolding nibbles(1,2) [OF byte_val_bounds] h_def [symmetric] l_def [symmetric] using v by simp
qed

lemma escape_values:
  "json_escape_char NUL = [CHR 0x5C, CHR ''u'', CHR ''0'', CHR ''0'', CHR ''0'', CHR ''0'']"
  "json_escape_char (CHR 0x22) = [CHR 0x5C, CHR 0x22]" "json_escape_char (CHR ''/'') = [CHR 0x5C, CHR ''/'']"
  "json_escape_char (CHR 0x5C) = [CHR 0x5C, CHR 0x5C]" "json_escape_char (CHR 0x08) = [CHR 0x5C, CHR ''b'']"
  "json_escape_char (CHR 0x0C) = [CHR 0x5C, CHR ''f'']" "json_escape_char (CHR 0x0A) = [CHR 0x5C, CHR ''n'']"
  "json_escape_char (CHR 0x0D) = [CHR 0x5C, CHR ''r'']" "json_escape_char (CHR 0x09) = [CHR 0x5C, CHR ''t'']"
  by code_simp+

lemma simple_escape_values:
  "hex_value (CHR ''0'') = Some 0"
  "simple_escape (CHR 0x22) = Some (CHR 0x22)" "simple_escape (CHR ''/'') = Some (CHR ''/'')"
  "simple_escape (CHR 0x5C) = Some (CHR 0x5C)" "simple_escape (CHR ''b'') = Some (CHR 0x08)"
  "simple_escape (CHR ''f'') = Some (CHR 0x0C)" "simple_escape (CHR ''n'') = Some (CHR 0x0A)"
  "simple_escape (CHR ''r'') = Some (CHR 0x0D)" "simple_escape (CHR ''t'') = Some (CHR 0x09)"
  by code_simp+

lemma unescape_escape:
  assumes "\<not> json_plain c"
  shows "json_unescape (json_escape_char c @ r) = map_option ((#) c) (json_unescape r)"
proof (cases "byte_val c < 0x20 \<and> c \<notin> {NUL, CHR 0x08, CHR 0x0C, CHR 0x0A, CHR 0x0D, CHR 0x09}")
  case True
  then have "c \<noteq> d" if "32 \<le> byte_val d" for d
    using that by (metis not_less)
  then have "c \<noteq> CHR 0x22" "c \<noteq> CHR ''/''" "c \<noteq> CHR 0x5C"
    by simp_all
  with True have "json_escape_char c = [CHR 0x5C, CHR ''u'', json_hexdigit ! nat (byte_val c div 16 div 16 div 16 mod 16),
      json_hexdigit ! nat (byte_val c div 16 div 16 mod 16), json_hexdigit ! nat (byte_val c div 16 mod 16), json_hexdigit ! nat (byte_val c mod 16)]"
    unfolding json_escape_char_def by simp
  then show ?thesis
    using unescape_hex [of c r] by (simp only:)
next
  case False
  have "byte_val c < 0x20 \<or> byte_val c = byte_val (CHR 0x22) \<or> byte_val c = byte_val (CHR ''/'') \<or> byte_val c = byte_val (CHR 0x5C)"
    using assms byte_val_bounds [of c] by (simp add: json_plain_def) linarith
  then have "c \<in> {NUL, CHR 0x08, CHR 0x0C, CHR 0x0A, CHR 0x0D, CHR 0x09, CHR 0x22, CHR ''/'', CHR 0x5C}"
    using False unfolding byte_val_inject by blast
  moreover have "to_char 0 = NUL"
    using to_char_byte_val [of NUL] by (simp add: byte_val_NUL)
  ultimately show ?thesis
    by (elim insertE emptyE) (simp_all add: escape_values simple_escape_values)
qed

lemma unescape_json_text: "json_unescape (json_text s) = Some s"
proof (induction s)
  case (Cons c s)
  then show ?case
    using unescape_plain [of c "json_text s"] unescape_escape [of c "json_text s"] by (simp add: json_text_def)
qed (simp add: json_text_def)

definition buf_ok :: "json_buf \<Rightarrow> bool" where
  "buf_ok b \<longleftrightarrow> length (dst_w b) \<le> dst_size b \<and> dst_realloc_size b + 10 \<le> dst_size b"

lemma put_grow:
  assumes "buf_ok b" "length s \<le> 6"
  shows "\<exists>b'. put s (grow b) = Some b' \<and> buf_ok b' \<and> dst_w b' = dst_w b @ s"
  using assms by (auto simp: put_def grow_def buf_ok_def)

lemma length_escape_char: "length (json_escape_char c) \<le> 6"
  by (simp add: json_escape_char_def)

lemma escape_loop_all:
  "buf_ok b \<Longrightarrow> \<exists>b'. escape_loop True s b = Some b' \<and> dst_w b' = dst_w b @ json_text s"
proof (induction s arbitrary: b)
  case (Cons c s)
  define t where "t = (if json_plain c then [c] else json_escape_char c)"
  have "length t \<le> 6"
    using length_escape_char [of c] by (simp add: t_def)
  then obtain b1 where b1: "put t (grow b) = Some b1" "buf_ok b1" "dst_w b1 = dst_w b @ t"
    using put_grow [OF Cons.prems] by blast
  obtain b2 where "escape_loop True s b1 = Some b2" "dst_w b2 = dst_w b1 @ json_text s"
    using Cons.IH [OF b1(2)] by blast
  moreover have "escape_loop True (c # s) b = put t (grow b) \<bind> escape_loop True s" "json_text (c # s) = t @ json_text s"
    by (simp_all add: t_def json_text_def)
  ultimately show ?case
    using b1 by simp
qed (simp add: json_text_def)

lemma escape_loop_defined: "buf_ok b \<Longrightarrow> escape_loop all s b \<noteq> None"
proof (induction s arbitrary: b rule: length_induct)
  case (1 s)
  show ?case
  proof (cases s)
    case (Cons c cs)
    have IH: "escape_loop all r b' \<noteq> None" if "length r \<le> length cs" "buf_ok b'" for r b'
      using 1(1) that Cons by (simp add: le_imp_less_Suc)
    have p: "\<exists>b'. put t (grow b) = Some b' \<and> buf_ok b'" if "length t \<le> 6" for t
      using put_grow [OF 1(2) that] by blast
    have "put t (grow b) \<bind> escape_loop all r \<noteq> None" if "length t \<le> 6" "length r \<le> length cs" for t r
      using p [OF that(1)] IH [OF that(2)] by auto
    then show ?thesis
      using length_escape_char [of c] unfolding Cons by (cases all) simp_all
  qed simp
qed

lemma head_text: "json_text (takeWhile json_plain s) = takeWhile json_plain s"
  by (induction s) (auto simp: json_text_def)

lemma json_text_append: "json_text (s @ t) = json_text s @ json_text t"
  by (simp add: json_text_def)

lemma start_buf:
  assumes "sz = (if wrkbuf_size < length h + 10 then 2 * length h else wrkbuf_size)"
  shows "\<exists>b. put h \<lparr>dst_size = sz, dst_realloc_size = sz - 10, dst_w = []\<rparr> = Some b \<and> buf_ok b \<and> dst_w b = h"
  using assms by (auto simp: put_def buf_ok_def wrkbuf_size_def)

lemma jsonAddVal_defined: "jsonAddVal s dst all \<noteq> None"
proof (cases "length (takeWhile json_plain s) < length s")
  case True
  define h where "h = takeWhile json_plain s"
  have t: "take (length h) s = h"
    by (simp add: h_def takeWhile_eq_take [symmetric])
  obtain b where b: "put h \<lparr>dst_size = if wrkbuf_size < length h + 10 then 2 * length h else wrkbuf_size,
      dst_realloc_size = (if wrkbuf_size < length h + 10 then 2 * length h else wrkbuf_size) - 10, dst_w = []\<rparr> = Some b" "buf_ok b"
    using start_buf [OF refl, of h] by blast
  then show ?thesis
    using True escape_loop_defined [OF b(2), of all "drop (length h) s"] t
    by (auto simp: jsonAddVal_def jsonAddVal_escaped_def Let_def h_def [symmetric])
qed (simp add: jsonAddVal_def)

lemma jsonAddVal_text:
  "jsonAddVal s dst True =
     Some (case dst of Some d \<Rightarrow> Some (d @ json_text s) | None \<Rightarrow> if list_all json_plain s then None else Some (json_text s))"
proof (cases "list_all json_plain s")
  case True
  then have "takeWhile json_plain s = s"
    by (simp add: list_all_iff)
  then have "takeWhile json_plain s = s" "json_text s = s"
    using head_text [of s] by (simp_all only:)
  then show ?thesis
    using True by (simp add: jsonAddVal_def del: takeWhile_eq_all_conv split: option.splits)
next
  case False
  define h where "h = takeWhile json_plain s"
  have "h \<noteq> s"
    using False by (auto simp: h_def list_all_iff)
  then have lt: "length h < length s"
    using length_takeWhile_le [of json_plain s] takeWhile_eq_take [of json_plain s]
    by (metis h_def le_neq_implies_less order_refl take_all)
  have t: "take (length h) s = h" "h @ drop (length h) s = s"
    using append_take_drop_id [of "length h" s] by (simp_all add: h_def takeWhile_eq_take [symmetric])
  have j: "json_text s = h @ json_text (drop (length h) s)"
    using json_text_append [of h "drop (length h) s"] head_text [of s] t(2) by (simp add: h_def)
  obtain b where b: "put h \<lparr>dst_size = if wrkbuf_size < length h + 10 then 2 * length h else wrkbuf_size,
      dst_realloc_size = (if wrkbuf_size < length h + 10 then 2 * length h else wrkbuf_size) - 10, dst_w = []\<rparr> = Some b"
      "buf_ok b" "dst_w b = h"
    using start_buf [OF refl, of h] by blast
  obtain b' where "escape_loop True (drop (length h) s) b = Some b'" "dst_w b' = h @ json_text (drop (length h) s)"
    using escape_loop_all [OF b(2)] b(3) by auto
  then show ?thesis
    using lt False b t j unfolding jsonAddVal_def jsonAddVal_escaped_def Let_def h_def [symmetric]
    by (simp split: option.splits)
qed

definition buf_wf :: "prop_buf \<Rightarrow> bool" where
  "buf_wf b \<longleftrightarrow> NUL \<notin> set (pRes b) \<and> (bufLen b = - 1 \<or> bufLen b = int (length (pRes b)))"

lemma c_str_id: "NUL \<notin> set s \<Longrightarrow> c_str s = s"
  by (auto simp: c_str_def)

lemma buf_len_wf: "buf_wf b \<Longrightarrow> buf_len b = int (length (pRes b))"
  by (auto simp: buf_wf_def buf_len_def c_str_id)

lemma NUL_not_escape: "json_plain c \<Longrightarrow> c \<noteq> NUL"
  by (auto simp: json_plain_def byte_val_NUL)

lemma NUL_json_hexdigit: "0 \<le> n \<Longrightarrow> n < 16 \<Longrightarrow> json_hexdigit ! nat n \<noteq> NUL"
proof -
  assume "0 \<le> n" "n < 16"
  then have "json_hexdigit ! nat n \<in> set json_hexdigit"
    by (intro nth_mem) (simp add: json_hexdigit_def)
  moreover have "NUL \<notin> set json_hexdigit"
    by code_simp
  ultimately show ?thesis
    by metis
qed

lemma NUL_json_text: "NUL \<notin> set (json_text s)"
proof -
  have "NUL \<notin> set (json_escape_char c)" for c
    using NUL_json_hexdigit [of "byte_val c div 16 div 16 div 16 mod 16"] NUL_json_hexdigit [of "byte_val c div 16 div 16 mod 16"]
      NUL_json_hexdigit [of "byte_val c div 16 mod 16"] NUL_json_hexdigit [of "byte_val c mod 16"]
    by (auto simp: json_escape_char_def NUL_def)
  then show ?thesis
    by (auto simp: json_text_def dest: NUL_not_escape)
qed

lemma jsonEncode_text:
  assumes "buf_wf b"
  shows "\<exists>b'. jsonEncode True b = Some b' \<and> buf_wf b' \<and> pRes b' = json_text (pRes b)"
proof (cases "list_all json_plain (pRes b)")
  case True
  then have "json_text (pRes b) = pRes b"
    using head_text [of "pRes b"] by (metis list.pred_set takeWhile_eq_all_conv)
  then show ?thesis
    using True assms by (simp add: jsonEncode_def jsonAddVal_text buf_len_wf)
next
  case False
  then show ?thesis
    using assms NUL_json_text by (simp add: jsonEncode_def jsonAddVal_text buf_len_wf buf_wf_def)
qed

lemma jsonEncode_defined: "jsonEncode all b \<noteq> None"
  using jsonAddVal_defined [of "take (nat (buf_len b)) (pRes b)" None all] by (auto simp: jsonEncode_def)

text \<open>(C14) Escaping a property value for JSON never writes behind the work buffer, whatever the length of the value and
  the number of its escapes, and a JSON reader gets back exactly the value: every byte that has to be escaped is.\<close>

theorem jsonEncode_roundtrip:
  assumes "buf_wf b"
  shows "\<exists>b'. jsonEncode True b = Some b' \<and> buf_wf b' \<and> json_unescape (pRes b') = Some (pRes b)"
  using jsonEncode_text [OF assms] unescape_json_text by metis

theorem jsonEncode_roundtrip_witness:
  "\<exists>b'. jsonEncode True \<lparr>pRes = [CHR 0x22, CHR ''a'', CHR 0x0A, CHR 0x01, CHR 0x5C], bufLen = - 1, bMustBeFreed = False\<rparr> = Some b' \<and> buf_wf b'
     \<and> json_unescape (pRes b') = Some [CHR 0x22, CHR ''a'', CHR 0x0A, CHR 0x01, CHR 0x5C]"
  using jsonEncode_roundtrip [of "\<lparr>pRes = [CHR 0x22, CHR ''a'', CHR 0x0A, CHR 0x01, CHR 0x5C], bufLen = - 1, bMustBeFreed = False\<rparr>"]
  by (simp add: buf_wf_def NUL_def)

text \<open>A string field is the quoted name, a colon, and the quoted value.\<close>

lemma NUL_quote: "NUL \<noteq> CHR 0x22" "NUL \<noteq> CHR '':''"
  by (simp_all add: NUL_def)

lemma jsonField_string:
  assumes "buf_wf b" "pRes b \<noteq> []" "NUL \<notin> set name"
  shows "\<exists>b'. jsonField name TPE_DATATYPE_STRING onEmpty True b = Some b' \<and> buf_wf b'
    \<and> pRes b' = [CHR 0x22] @ name @ [CHR 0x22, CHR '':'', CHR 0x22] @ json_text (pRes b) @ [CHR 0x22]"
proof -
  let ?t = "[CHR 0x22] @ name @ [CHR 0x22, CHR '':'', CHR 0x22] @ json_text (pRes b) @ [CHR 0x22]"
  have "take (nat (buf_len b)) (pRes b) = pRes b"
    using buf_len_wf [OF assms(1)] by simp
  then have "jsonField name TPE_DATATYPE_STRING onEmpty True b = Some \<lparr>pRes = ?t, bufLen = int (length ?t), bMustBeFreed = True\<rparr>"
    using assms(2) by (simp add: jsonField_def json_field_value_def jsonAddVal_text Let_def)
  moreover have "NUL \<notin> set ?t"
    using assms(3) NUL_json_text NUL_quote by auto
  ultimately show ?thesis
    by (simp add: buf_wf_def del: append_assoc)
qed

text \<open>With escapes left alone, an incomplete one is passed through and the result is no JSON string.\<close>

theorem jsonr_keeps_broken_escape:
  "jsonEncode False \<lparr>pRes = CHR 0x5C # ''uxyz'', bufLen = - 1, bMustBeFreed = False\<rparr> =
     Some \<lparr>pRes = CHR 0x5C # ''uxyz'', bufLen = - 1, bMustBeFreed = True\<rparr>
   \<and> json_unescape (CHR 0x5C # ''uxyz'') = None"
proof -
  have "json_plain (CHR ''x'')" "json_plain (CHR ''y'')" "json_plain (CHR ''z'')" "\<not> json_plain (CHR 0x5C)" "keeps_escape (CHR ''u'')"
    "json_unescape (CHR 0x5C # ''uxyz'') = None"
    by code_simp+
  then show ?thesis
    by (simp add: jsonEncode_def buf_len_def c_str_def NUL_def jsonAddVal_def jsonAddVal_escaped_def wrkbuf_size_def put_def grow_def)
qed

end
