(* ===== verification/Rs_Prifilt.thy ===== *)
theory Rs_Prifilt
  imports Rs_Parser
begin

text \<open>
  Filters on priorities: the tables of facility and severity names (\<open>runtime/srutils.c\<close>), the
  properties of a message that name them (\<open>runtime/msg.c\<close>), the decoder of traditional selectors
  such as \<open>mail,news.=info;kern.!err\<close> (\<open>DecodePRIFilter\<close> in \<open>runtime/conf.c\<close>), and the masks that
  the script optimizer builds (\<open>grammar/rainerscript.c\<close>).

  A mask has one byte per facility, 26 of them since \<open>LOG_NFACILITIES+1\<close> expands to \<open>24+1+1\<close>, with one bit per
  severity. The code of the internal facility \<open>mark\<close> depends on a macro of the system headers and is an
  argument. None stands for an access outside an array or a shift by more than the width of an int.
\<close>

section \<open>Names\<close>

definition INTERNAL_NOPRI :: int where "INTERNAL_NOPRI = 0x10"
definition TABLE_NOPRI :: "8 word" where "TABLE_NOPRI = 0"
definition TABLE_ALLPRI :: "8 word" where "TABLE_ALLPRI = 0xFF"

definition syslogPriNames :: "(string \<times> int) list" where
  "syslogPriNames = [(''alert'', 1), (''crit'', 2), (''debug'', 7), (''emerg'', 0), (''err'', 3), (''error'', 3),
     (''info'', 6), (''none'', INTERNAL_NOPRI), (''notice'', 5), (''panic'', 0), (''warn'', 4), (''warning'', 4),
     (''*'', 255)]"

definition syslogFacNames :: "int \<Rightarrow> (string \<times> int) list" where
  "syslogFacNames log_mark = [(''auth'', 4 * 8), (''authpriv'', 10 * 8), (''cron'', 9 * 8), (''daemon'', 3 * 8), (''kern'', 0),
     (''lpr'', 6 * 8), (''mail'', 2 * 8), (''mark'', log_mark), (''news'', 7 * 8), (''ntp'', 12 * 8), (''security'', 4 * 8),
     (''bsd_security'', 13 * 8), (''syslog'', 5 * 8), (''user'', 1 * 8), (''uucp'', 8 * 8), (''ftp'', 11 * 8),
     (''console'', 14 * 8), (''local0'', 16 * 8), (''local1'', 17 * 8), (''local2'', 18 * 8), (''local3'', 19 * 8),
     (''local4'', 20 * 8), (''local5'', 21 * 8), (''local6'', 22 * 8), (''local7'', 23 * 8), (''invld'', 24 * 8)]"

definition tolower :: "char \<Rightarrow> char" where
  "tolower c = (if 65 \<le> byte_val c \<and> byte_val c \<le> 90 then to_char (byte_val c + 32) else c)"

text \<open>A number, or a name of at most 79 bytes; longer names match nothing.\<close>

definition decodeSyslogName :: "string \<Rightarrow> (string \<times> int) list \<Rightarrow> int" where
  "decodeSyslogName name codetab =
     (if is_digit (deref name) then to_int (int (digits_value (takeWhile is_digit name)))
      else case map_of codetab (map tolower (take 79 name)) of None \<Rightarrow> - 1 | Some v \<Rightarrow> v)"

section \<open>Properties of a message\<close>

definition syslog_fac_names :: "string list" where
  "syslog_fac_names = [''kern'', ''user'', ''mail'', ''daemon'', ''auth'', ''syslog'', ''lpr'', ''news'', ''uucp'', ''cron'',
     ''authpriv'', ''ftp'', ''ntp'', ''audit'', ''alert'', ''clock'', ''local0'', ''local1'', ''local2'', ''local3'',
     ''local4'', ''local5'', ''local6'', ''local7'', ''invld'']"

definition syslog_severity_names :: "string list" where
  "syslog_severity_names = [''emerg'', ''alert'', ''crit'', ''err'', ''warning'', ''notice'', ''info'', ''debug'']"

definition syslog_number_names :: "string list" where
  "syslog_number_names = [''0'', ''1'', ''2'', ''3'', ''4'', ''5'', ''6'', ''7'', ''8'', ''9'', ''10'', ''11'', ''12'', ''13'', ''14'',
     ''15'', ''16'', ''17'', ''18'', ''19'', ''20'', ''21'', ''22'', ''23'', ''24'']"

definition getSeverity :: "smsg \<Rightarrow> string" where
  "getSeverity m = (if iSeverity m > 7 then ''invld'' else syslog_number_names ! unat (iSeverity m))"

definition getSeverityStr :: "smsg \<Rightarrow> string" where
  "getSeverityStr m = (if iSeverity m > 7 then ''invld'' else syslog_severity_names ! unat (iSeverity m))"

definition getFacility :: "smsg \<Rightarrow> string" where
  "getFacility m = (if iFacility m > 23 then ''invld'' else syslog_number_names ! unat (iFacility m))"

definition getFacilityStr :: "smsg \<Rightarrow> string" where
  "getFacilityStr m = (if iFacility m > 23 then ''invld'' else syslog_fac_names ! unat (iFacility m))"

section \<open>Masks\<close>

type_synonym pmask = "8 word list"

definition prifilt_match :: "pmask \<Rightarrow> smsg \<Rightarrow> bool" where
  "prifilt_match pmask m =
     (let w = pmask ! unat (iFacility m)
      in \<not> (w = TABLE_NOPRI \<or> w AND push_bit (unat (iSeverity m)) 1 = 0))"

definition prifiltInvert :: "pmask \<Rightarrow> pmask" where
  "prifiltInvert pmask = map (\<lambda>w. NOT w) pmask"

datatype cmpop = CMP_EQ | CMP_NE | CMP_LE | CMP_GE | CMP_LT | CMP_GT
  | CMP_STARTSWITH | CMP_STARTSWITHI | CMP_CONTAINS | CMP_CONTAINSI

definition lessthanmasks :: "8 word list" where
  "lessthanmasks = [0x00, 0x01, 0x03, 0x07, 0x0f, 0x1f, 0x3f, 0x7f, 0xff]"

text \<open>The byte stored for every facility; other modes leave the mask alone.\<close>

definition severity_byte :: "nat \<Rightarrow> cmpop \<Rightarrow> 8 word \<Rightarrow> 8 word" where
  "severity_byte sev mode w =
     (if mode = CMP_EQ \<or> mode = CMP_NE then push_bit sev 1
      else if mode = CMP_LT then lessthanmasks ! sev
      else if mode = CMP_LE then lessthanmasks ! (sev + 1)
      else if mode = CMP_GT then NOT (lessthanmasks ! (sev + 1))
      else if mode = CMP_GE then NOT (lessthanmasks ! sev)
      else w)"

definition prifiltSetSeverity :: "pmask \<Rightarrow> nat \<Rightarrow> cmpop \<Rightarrow> pmask" where
  "prifiltSetSeverity pmask sev mode =
     (let p = map (severity_byte sev mode) pmask in if mode = CMP_NE then prifiltInvert p else p)"

definition fac_range :: "nat \<Rightarrow> nat \<Rightarrow> nat \<Rightarrow> pmask" where
  "fac_range n a b = map (\<lambda>i. if a \<le> i \<and> i < b then TABLE_ALLPRI else 0) [0..<n]"

definition prifiltSetFacility :: "pmask \<Rightarrow> nat \<Rightarrow> cmpop \<Rightarrow> pmask" where
  "prifiltSetFacility pmask fac mode =
     (let n = length pmask; zero = replicate n 0
      in case mode of
          CMP_EQ \<Rightarrow> zero[fac := TABLE_ALLPRI]
        | CMP_NE \<Rightarrow> prifiltInvert (zero[fac := TABLE_ALLPRI])
        | CMP_LT \<Rightarrow> fac_range n 0 fac
        | CMP_LE \<Rightarrow> fac_range n 0 (fac + 1)
        | CMP_GE \<Rightarrow> fac_range n fac n
        | CMP_GT \<Rightarrow> fac_range n (fac + 1) n
        | _ \<Rightarrow> zero)"

definition prifiltCombine :: "pmask \<Rightarrow> pmask \<Rightarrow> bool \<Rightarrow> pmask" where
  "prifiltCombine p q is_and = map2 (\<lambda>a b. if is_and then a AND b else a OR b) p q"

definition cnffuncNew_prifilt :: "int \<Rightarrow> pmask option" where
  "cnffuncNew_prifilt fac =
     (let f = fac div 8 in if 26 \<le> f \<or> f < 0 then None else Some ((replicate 26 0)[nat f := TABLE_ALLPRI]))"

section \<open>Traditional selectors\<close>

fun after_dot :: "string \<Rightarrow> string" where
  "after_dot [] = []"
| "after_dot (c # cs) = (if c = CHR 0x09 then c # cs else if c = CHR ''.'' then cs else after_dot cs)"

text \<open>The separators behind a priority; \<open>strchr\<close> also finds the terminating NUL, so the end of the string is run over.\<close>

fun skip_cruft :: "string \<Rightarrow> string option" where
  "skip_cruft [] = None"
| "skip_cruft (c # cs) = (if c = CHR '','' \<or> c = CHR '';'' then skip_cruft cs else Some (c # cs))"

definition apply_pri :: "bool \<Rightarrow> bool \<Rightarrow> int \<Rightarrow> 8 word \<Rightarrow> 8 word option" where
  "apply_pri ignorepri singlpri pri w =
     (if pri = INTERNAL_NOPRI then Some (if ignorepri then TABLE_ALLPRI else TABLE_NOPRI)
      else if singlpri then
        if pri < 32 then Some (if ignorepri then w AND NOT (push_bit (nat pri) 1) else w OR push_bit (nat pri) 1) else None
      else if pri = 255 then Some (if ignorepri then TABLE_NOPRI else TABLE_ALLPRI)
      else if pri < 32
      then Some (fold (\<lambda>i2 w. if ignorepri then w AND NOT (push_bit i2 1) else w OR push_bit i2 1) [0..<nat pri + 1] w)
      else None)"

fun apply_all :: "(8 word \<Rightarrow> 8 word option) \<Rightarrow> pmask \<Rightarrow> pmask option" where
  "apply_all f [] = Some []"
| "apply_all f (w # ws) = (case f w of None \<Rightarrow> None | Some v \<Rightarrow> map_option ((#) v) (apply_all f ws))"

definition is_fac_end :: "char \<Rightarrow> bool" where
  "is_fac_end c \<longleftrightarrow> c = CHR 0x09 \<or> c = CHR '' '' \<or> c = CHR ''.'' \<or> c = CHR '';''"

text \<open>One facility name: the mask with it, or the error.\<close>

definition apply_facility :: "int \<Rightarrow> (8 word \<Rightarrow> 8 word option) \<Rightarrow> string \<Rightarrow> pmask \<Rightarrow> (rsRetVal \<times> pmask) option" where
  "apply_facility log_mark f buf pmask =
     (if deref buf = CHR ''*'' then map_option (Pair RS_RET_OK) (apply_all f pmask)
      else let i = decodeSyslogName buf (syslogFacNames log_mark)
           in if i < 0 then Some (RS_RET_ERR, pmask)
              else if nat (i div 8) < length pmask
              then (case f (pmask ! nat (i div 8)) of None \<Rightarrow> None | Some v \<Rightarrow> Some (RS_RET_OK, pmask[nat (i div 8) := v]))
              else None)"

lemma decode_empty: "decodeSyslogName [] (syslogFacNames log_mark) = - 1"
  by (simp add: decodeSyslogName_def syslogFacNames_def)

function scan_facilities :: "int \<Rightarrow> (8 word \<Rightarrow> 8 word option) \<Rightarrow> string \<Rightarrow> pmask \<Rightarrow> (rsRetVal \<times> pmask) option" where
  "scan_facilities log_mark f p pmask =
     (if p = [] \<or> is_fac_end (deref p) then Some (RS_RET_OK, pmask)
      else let buf = take 2047 (takeWhile (\<lambda>c. \<not> is_fac_end c \<and> c \<noteq> CHR '','') p)
           in case apply_facility log_mark f buf pmask of
               None \<Rightarrow> None
             | Some (r, pmask1) \<Rightarrow> if r \<noteq> RS_RET_OK then Some (r, pmask1)
                 else scan_facilities log_mark f (dropWhile (\<lambda>c. c = CHR '','' \<or> c = CHR '' '') (drop (length buf) p)) pmask1)"
  by pat_completeness auto
termination
proof (relation "measure (\<lambda>(m, f, p, pmask). length p)", goal_cases)
  case (2 log_mark f p pmask buf x r pmask1)
  have "buf \<noteq> []"
  proof
    assume "buf = []"
    then have "apply_facility log_mark f buf pmask = Some (RS_RET_ERR, pmask)"
      by (simp add: apply_facility_def decode_empty NUL_def)
    with 2 show False
      by simp
  qed
  moreover have "length buf \<le> length p"
    using 2(2) length_takeWhile_le [of _ p] by (auto intro: min.coboundedI1)
  ultimately have "length (drop (length buf) p) < length p"
    by (cases buf) auto
  then show ?case
    using length_dropWhile_le [of _ "drop (length buf) p"] by (auto intro: le_less_trans)
qed simp

text \<open>The name of the priority and the start of the next selector.\<close>

definition pri_name :: "string \<Rightarrow> (string \<times> string) option" where
  "pri_name p =
     (let q = after_dot p;
          buf = take 2047 (takeWhile (\<lambda>c. c \<noteq> CHR 0x09 \<and> c \<noteq> CHR '' '' \<and> c \<noteq> CHR '','' \<and> c \<noteq> CHR '';'') q);
          q1 = drop (length buf) q
      in if q1 = [] then Some (buf, []) else map_option (Pair buf) (skip_cruft q1))"

definition DecodePRIFilter_step :: "int \<Rightarrow> string \<Rightarrow> string \<Rightarrow> pmask \<Rightarrow> (rsRetVal \<times> pmask) option" where
  "DecodePRIFilter_step log_mark p buf pmask =
     (let ignorepri = (deref buf = CHR ''!'');
          buf1 = (if ignorepri then tl buf else buf);
          singlpri = (deref buf1 = CHR ''='');
          pri = decodeSyslogName (if singlpri then tl buf1 else buf1) syslogPriNames
      in if pri < 0 then Some (RS_RET_ERR, pmask)
         else scan_facilities log_mark (apply_pri ignorepri singlpri pri) p pmask)"

lemma length_after_dot: "p \<noteq> [] \<Longrightarrow> deref p \<noteq> CHR 0x09 \<Longrightarrow> length (after_dot p) < length p"
proof (induction p)
  case (Cons c cs)
  have "length (after_dot cs) \<le> length cs" for cs
    by (induction cs) auto
  with Cons.prems show ?case
    by (simp add: le_imp_less_Suc)
qed simp

lemma length_skip_cruft: "skip_cruft q = Some r \<Longrightarrow> length r \<le> length q"
  by (induction q) (auto split: if_splits)

lemma pri_name_shorter:
  assumes "pri_name p = Some (buf, q)" "p \<noteq> []" "deref p \<noteq> CHR 0x09"
  shows "length q < length p"
proof -
  have "length q \<le> length (after_dot p)"
    using assms(1) by (auto simp: pri_name_def Let_def split: if_splits dest!: length_skip_cruft)
  then show ?thesis
    using length_after_dot [OF assms(2,3)] by simp
qed

function select_loop :: "int \<Rightarrow> string \<Rightarrow> pmask \<Rightarrow> (rsRetVal \<times> pmask) option" where
  "select_loop log_mark p pmask =
     (if p = [] \<or> deref p = CHR 0x09 \<or> deref p = CHR '' '' then Some (RS_RET_OK, pmask)
      else case pri_name p of
          None \<Rightarrow> None
        | Some (buf, q) \<Rightarrow> (case DecodePRIFilter_step log_mark p buf pmask of
            None \<Rightarrow> None
          | Some (r, pmask1) \<Rightarrow> if r \<noteq> RS_RET_OK then Some (r, pmask1) else select_loop log_mark q pmask1))"
  by pat_completeness auto
termination
  by (relation "measure (\<lambda>(m, p, pmask). length p)") (auto dest: pri_name_shorter)

definition DecodePRIFilter :: "int \<Rightarrow> string \<Rightarrow> (rsRetVal \<times> pmask) option" where
  "DecodePRIFilter log_mark pline = select_loop log_mark pline (replicate 26 TABLE_NOPRI)"

declare scan_facilities.simps [simp del] select_loop.simps [simp del]

section \<open>What the masks match\<close>

definition pri_ok :: "smsg \<Rightarrow> bool" where
  "pri_ok m \<longleftrightarrow> iFacility m \<le> 24 \<and> iSeverity m \<le> 7"

lemma pri_ok_bounds:
  assumes "pri_ok m"
  shows "unat (iFacility m) < 25" "unat (iSeverity m) < 8"
  using assms by (auto simp: pri_ok_def word_le_nat_alt)

lemma prifilt_match_bit: "prifilt_match pmask m \<longleftrightarrow> bit (pmask ! unat (iFacility m)) (unat (iSeverity m))"
  by (auto simp: prifilt_match_def Let_def TABLE_NOPRI_def bit_iff_and_push_bit_not_eq_0)

fun cmp_holds :: "cmpop \<Rightarrow> nat \<Rightarrow> nat \<Rightarrow> bool" where
  "cmp_holds CMP_EQ a b \<longleftrightarrow> a = b"
| "cmp_holds CMP_NE a b \<longleftrightarrow> a \<noteq> b"
| "cmp_holds CMP_LE a b \<longleftrightarrow> a \<le> b"
| "cmp_holds CMP_GE a b \<longleftrightarrow> b \<le> a"
| "cmp_holds CMP_LT a b \<longleftrightarrow> a < b"
| "cmp_holds CMP_GT a b \<longleftrightarrow> b < a"
| "cmp_holds _ a b \<longleftrightarrow> False"

definition is_order :: "cmpop \<Rightarrow> bool" where
  "is_order op \<longleftrightarrow> op \<in> {CMP_EQ, CMP_NE, CMP_LE, CMP_GE, CMP_LT, CMP_GT}"

lemma lessthanmasks_mask:
  assumes "k \<le> 8"
  shows "lessthanmasks ! k = mask k"
proof -
  have "k = 0 \<or> k = 1 \<or> k = 2 \<or> k = 3 \<or> k = 4 \<or> k = 5 \<or> k = 6 \<or> k = 7 \<or> k = 8"
    using assms by linarith
  then show ?thesis
    by (elim disjE) (simp_all add: lessthanmasks_def mask_eq_exp_minus_1)
qed

lemma bit_lessthanmasks: "k \<le> 8 \<Longrightarrow> s < 8 \<Longrightarrow> bit (lessthanmasks ! k) s \<longleftrightarrow> s < k"
  by (simp add: lessthanmasks_mask bit_mask_iff)

lemma bit_severity_byte:
  assumes "is_order op" "sev \<le> 7" "s < 8"
  shows "bit (severity_byte sev op w) s \<longleftrightarrow> (if op = CMP_NE then s = sev else cmp_holds op s sev)"
  using assms bit_lessthanmasks [of sev s] bit_lessthanmasks [of "sev + 1" s]
  by (auto simp: is_order_def severity_byte_def bit_simps)

lemma bit_TABLE_ALLPRI: "s < 8 \<Longrightarrow> bit TABLE_ALLPRI s"
  using bit_lessthanmasks [of 8 s] by (simp add: lessthanmasks_def TABLE_ALLPRI_def)

lemma prifiltInvert_match:
  assumes "pri_ok m" "length p = 26"
  shows "prifilt_match (prifiltInvert p) m \<longleftrightarrow> \<not> prifilt_match p m"
  using pri_ok_bounds [OF assms(1)] assms(2) by (simp add: prifilt_match_bit prifiltInvert_def bit_simps)

lemma prifiltSetSeverity_match:
  assumes "pri_ok m" "length p = 26" "is_order op" "sev \<le> 7"
  shows "prifilt_match (prifiltSetSeverity p sev op) m \<longleftrightarrow> cmp_holds op (unat (iSeverity m)) sev"
proof -
  have "prifilt_match (map (severity_byte sev op) p) m \<longleftrightarrow>
      (if op = CMP_NE then unat (iSeverity m) = sev else cmp_holds op (unat (iSeverity m)) sev)"
    using pri_ok_bounds [OF assms(1)] bit_severity_byte [OF assms(3,4)] assms(2) by (simp add: prifilt_match_bit)
  then show ?thesis
    using prifiltInvert_match [OF assms(1), of "map (severity_byte sev op) p"] assms(2)
    by (cases "op = CMP_NE") (simp_all add: prifiltSetSeverity_def Let_def)
qed

lemma single_facility_match:
  assumes "pri_ok m" "unat (iFacility m) < n" "fac < n"
  shows "prifilt_match ((replicate n 0)[fac := TABLE_ALLPRI]) m \<longleftrightarrow> unat (iFacility m) = fac"
  using pri_ok_bounds(2) [OF assms(1)] assms(2,3) bit_TABLE_ALLPRI by (simp add: prifilt_match_bit nth_list_update)

lemma fac_range_match:
  assumes "pri_ok m" "unat (iFacility m) < n"
  shows "prifilt_match (fac_range n a b) m \<longleftrightarrow> a \<le> unat (iFacility m) \<and> unat (iFacility m) < b"
  using pri_ok_bounds(2) [OF assms(1)] assms(2) bit_TABLE_ALLPRI by (simp add: prifilt_match_bit fac_range_def)

lemma prifiltSetFacility_match:
  assumes "pri_ok m" "length p = 26" "is_order op" "fac \<le> 24"
  shows "prifilt_match (prifiltSetFacility p fac op) m \<longleftrightarrow> cmp_holds op (unat (iFacility m)) fac"
proof -
  define n where "n = length p"
  have n: "unat (iFacility m) < n" "fac < n" "length ((replicate n 0)[fac := TABLE_ALLPRI]) = 26"
    using pri_ok_bounds(1) [OF assms(1)] assms(2,4) by (simp_all add: n_def)
  show ?thesis
    using assms(3) n(1) single_facility_match [OF assms(1) n(1,2)] fac_range_match [OF assms(1) n(1)] prifiltInvert_match [OF assms(1) n(3)]
    by (cases op) (auto simp: prifiltSetFacility_def Let_def is_order_def n_def [symmetric])
qed

lemma prifiltCombine_match:
  assumes "pri_ok m" "length p = 26" "length q = 26"
  shows "prifilt_match (prifiltCombine p q is_and) m \<longleftrightarrow>
    (if is_and then prifilt_match p m \<and> prifilt_match q m else prifilt_match p m \<or> prifilt_match q m)"
  using pri_ok_bounds [OF assms(1)] assms(2,3) by (simp add: prifilt_match_bit prifiltCombine_def bit_simps)

lemma length_masks [simp]:
  "length (prifiltInvert p) = length p" "length (prifiltSetSeverity p sev op) = length p"
  "length (prifiltSetFacility p fac op) = length p" "length (prifiltCombine p q b) = min (length p) (length q)"
  by (simp_all add: prifiltInvert_def prifiltSetSeverity_def prifiltSetFacility_def prifiltCombine_def fac_range_def Let_def split: cmpop.splits)

section \<open>Traditional selectors\<close>

text \<open>What a selector means: the facilities it names, by name or all of them, and the effect on the severities.
  A later selector overrides an earlier one.\<close>

record selector =
  s_facs :: "string list"
  s_ignore :: bool
  s_single :: bool
  s_pri :: string

definition pri_effect :: "bool \<Rightarrow> bool \<Rightarrow> int \<Rightarrow> nat \<Rightarrow> bool \<Rightarrow> bool" where
  "pri_effect ign single pri s old =
     (if pri = INTERNAL_NOPRI then ign
      else if single then (if int s = pri then \<not> ign else old)
      else if pri = 255 \<or> int s \<le> pri then \<not> ign else old)"

definition names_facility :: "int \<Rightarrow> nat \<Rightarrow> string \<Rightarrow> bool" where
  "names_facility log_mark f name \<longleftrightarrow> name = ''*'' \<or> nat (decodeSyslogName name (syslogFacNames log_mark) div 8) = f"

fun selected :: "int \<Rightarrow> nat \<Rightarrow> nat \<Rightarrow> bool \<Rightarrow> selector list \<Rightarrow> bool" where
  "selected log_mark f s old [] = old"
| "selected log_mark f s old (x # xs) =
     selected log_mark f s
       (if list_ex (names_facility log_mark f) (s_facs x)
        then pri_effect (s_ignore x) (s_single x) (decodeSyslogName (s_pri x) syslogPriNames) s old else old) xs"

text \<open>How it is written.\<close>

fun join :: "char \<Rightarrow> string list \<Rightarrow> string" where
  "join c [] = []"
| "join c [x] = x"
| "join c (x # y # zs) = x @ c # join c (y # zs)"

definition pri_text :: "selector \<Rightarrow> string" where
  "pri_text x = (if s_ignore x then ''!'' else []) @ (if s_single x then ''='' else []) @ s_pri x"

definition selector_text :: "selector \<Rightarrow> string" where
  "selector_text x = join (CHR '','') (s_facs x) @ CHR ''.'' # pri_text x"

definition fac_name_ok :: "int \<Rightarrow> string \<Rightarrow> bool" where
  "fac_name_ok log_mark name \<longleftrightarrow> name \<noteq> [] \<and> length name \<le> 2047 \<and> list_all (\<lambda>c. \<not> is_fac_end c \<and> c \<noteq> CHR '','') name
     \<and> (name = ''*'' \<or> deref name \<noteq> CHR ''*'' \<and> 0 \<le> decodeSyslogName name (syslogFacNames log_mark)
         \<and> decodeSyslogName name (syslogFacNames log_mark) div 8 < 26)"

definition pri_value_ok :: "bool \<Rightarrow> int \<Rightarrow> bool" where
  "pri_value_ok single pri \<longleftrightarrow> 0 \<le> pri \<and> (pri < 32 \<or> pri = 255 \<and> \<not> single)"

definition selector_ok :: "int \<Rightarrow> selector \<Rightarrow> bool" where
  "selector_ok log_mark x \<longleftrightarrow> s_facs x \<noteq> [] \<and> list_all (fac_name_ok log_mark) (s_facs x)
     \<and> s_pri x \<noteq> [] \<and> deref (s_pri x) \<noteq> CHR ''!'' \<and> deref (s_pri x) \<noteq> CHR ''='' \<and> length (pri_text x) \<le> 2047
     \<and> list_all (\<lambda>c. c \<noteq> CHR 0x09 \<and> c \<noteq> CHR '' '' \<and> c \<noteq> CHR '','' \<and> c \<noteq> CHR '';'') (s_pri x)
     \<and> pri_value_ok (s_single x) (decodeSyslogName (s_pri x) syslogPriNames)"

lemma bit_fold_severities:
  assumes "s < 8"
  shows "bit (fold (\<lambda>i2 w. if ign then w AND NOT (push_bit i2 1) else w OR push_bit i2 1) [0..<n] (w :: 8 word)) s \<longleftrightarrow>
    (if s < n then \<not> ign else bit w s)"
  using assms by (induction n) (auto simp: bit_simps less_Suc_eq)

definition pri_fun :: "bool \<Rightarrow> bool \<Rightarrow> int \<Rightarrow> 8 word \<Rightarrow> 8 word" where
  "pri_fun ign single pri w = the (apply_pri ign single pri w)"

lemma apply_pri_ok:
  assumes "pri_value_ok single pri"
  shows "apply_pri ign single pri = (\<lambda>w. Some (pri_fun ign single pri w))"
    "s < 8 \<Longrightarrow> bit (pri_fun ign single pri w) s \<longleftrightarrow> pri_effect ign single pri s (bit w s)"
proof -
  show "apply_pri ign single pri = (\<lambda>w. Some (pri_fun ign single pri w))"
    using assms by (auto simp: apply_pri_def pri_fun_def pri_value_ok_def)
  show "bit (pri_fun ign single pri w) s \<longleftrightarrow> pri_effect ign single pri s (bit w s)" if "s < 8"
  proof (cases "pri = INTERNAL_NOPRI \<or> single \<or> pri = 255")
    case True
    then show ?thesis
      using assms that bit_TABLE_ALLPRI
      by (auto simp: pri_fun_def apply_pri_def pri_effect_def TABLE_NOPRI_def bit_simps pri_value_ok_def)
  next
    case False
    then show ?thesis
      using assms that bit_fold_severities [OF that, of ign "nat pri + 1" w]
      by (auto simp: pri_fun_def apply_pri_def pri_effect_def pri_value_ok_def simp del: upt_Suc)
  qed
qed

definition fac_update :: "int \<Rightarrow> (8 word \<Rightarrow> 8 word) \<Rightarrow> string \<Rightarrow> pmask \<Rightarrow> pmask" where
  "fac_update log_mark g name p =
     (if name = ''*'' then map g p
      else let i = nat (decodeSyslogName name (syslogFacNames log_mark) div 8) in p[i := g (p ! i)])"

lemma apply_all_Some: "apply_all (\<lambda>w. Some (g w)) p = Some (map g p)"
  by (induction p) auto

lemma apply_facility_ok:
  assumes "fac_name_ok log_mark name" "length p = 26"
  shows "apply_facility log_mark (\<lambda>w. Some (g w)) name p = Some (RS_RET_OK, fac_update log_mark g name p)"
  using assms by (auto simp: apply_facility_def fac_update_def fac_name_ok_def apply_all_Some Let_def)

lemma length_fac_update [simp]: "length (fac_update log_mark g name p) = length p"
  by (simp add: fac_update_def Let_def)

lemma join_Cons: "xs \<noteq> [] \<Longrightarrow> join c (x # xs) = x @ c # join c xs"
  by (cases xs) auto

lemma scan_facilities_ok:
  assumes "list_all (fac_name_ok log_mark) names" "names \<noteq> []" "length p = 26"
  shows "scan_facilities log_mark (\<lambda>w. Some (g w)) (join (CHR '','') names @ CHR ''.'' # t) p =
    Some (RS_RET_OK, fold (fac_update log_mark g) names p)"
  using assms
proof (induction names arbitrary: p)
  case (Cons n ns)
  have n: "fac_name_ok log_mark n" "n \<noteq> []" "length n \<le> 2047" "list_all (\<lambda>c. \<not> is_fac_end c \<and> c \<noteq> CHR '','') n"
    using Cons.prems(1) by (simp_all add: fac_name_ok_def)
  then have hd: "\<not> is_fac_end (deref (n @ r))" for r
    by (cases n) auto
  have tw: "takeWhile (\<lambda>c. \<not> is_fac_end c \<and> c \<noteq> CHR '','') (n @ d # r) = n" if "d = CHR ''.'' \<or> d = CHR '',''" for d r
    using that n(4) by (auto simp: takeWhile_append list_all_iff is_fac_end_def)
  show ?case
  proof (cases "ns = []")
    case True
    then show ?thesis
      using Cons.prems(3) n hd tw apply_facility_ok [OF n(1)]
      by (subst scan_facilities.simps) (simp add: Let_def scan_facilities.simps [of _ _ "CHR ''.'' # t"] is_fac_end_def)
  next
    case False
    have "dropWhile (\<lambda>c. c = CHR '','' \<or> c = CHR '' '') (join (CHR '','') ns @ r) = join (CHR '','') ns @ r" for r
    proof -
      obtain n' ns' where ns: "ns = n' # ns'" "n' \<noteq> []" "\<not> is_fac_end (hd n')" "hd n' \<noteq> CHR '',''"
        using False Cons.prems(1) by (cases ns) (auto simp: fac_name_ok_def list_all_iff)
      have "hd (join (CHR '','') ns @ r) = hd n'"
        unfolding ns(1) using ns(2) by (cases ns') simp_all
      then show ?thesis
        using ns(3,4) by (simp add: dropWhile_eq_self_iff is_fac_end_def)
    qed
    then show ?thesis
      using False Cons n hd tw apply_facility_ok [OF n(1)]
      by (subst scan_facilities.simps) (simp add: Let_def join_Cons)
  qed
qed simp

lemma pri_effect_idem: "pri_effect ign single pri s (pri_effect ign single pri s old) = pri_effect ign single pri s old"
  by (simp add: pri_effect_def)

lemma fac_update_bit:
  assumes "f < length p" "fac_name_ok log_mark name" "length p = 26" "\<And>w. bit (g w) s \<longleftrightarrow> eff (bit w s)"
  shows "bit (fac_update log_mark g name p ! f) s \<longleftrightarrow>
    (if names_facility log_mark f name then eff (bit (p ! f) s) else bit (p ! f) s)"
  using assms by (auto simp: fac_update_def names_facility_def Let_def fac_name_ok_def nth_list_update)

lemma length_fold_fac_update [simp]: "length (fold (fac_update log_mark g) names p) = length p"
  by (induction names arbitrary: p) simp_all

lemma fold_fac_update_bit:
  assumes "list_all (fac_name_ok log_mark) names" "f < length p" "length p = 26"
    "\<And>w. bit (g w) s \<longleftrightarrow> eff (bit w s)" "\<And>b. eff (eff b) = eff b"
  shows "bit (fold (fac_update log_mark g) names p ! f) s \<longleftrightarrow>
    (if list_ex (names_facility log_mark f) names then eff (bit (p ! f) s) else bit (p ! f) s)"
  using assms by (induction names arbitrary: p) (auto simp: fac_update_bit)

lemma after_dot_ok: "list_all (\<lambda>c. \<not> is_fac_end c) xs \<Longrightarrow> after_dot (xs @ CHR ''.'' # t) = t"
  by (induction xs) (auto simp: is_fac_end_def)

lemma join_no_end: "list_all (fac_name_ok log_mark) names \<Longrightarrow> list_all (\<lambda>c. \<not> is_fac_end c) (join (CHR '','') names)"
proof (induction names)
  case (Cons n ns)
  then have "list_all (\<lambda>c. \<not> is_fac_end c) n"
    by (auto simp: fac_name_ok_def list_all_iff)
  with Cons show ?case
    by (cases "ns = []") (simp_all add: join_Cons is_fac_end_def)
qed simp

lemma pri_text_chars:
  "selector_ok log_mark x \<Longrightarrow> list_all (\<lambda>c. c \<noteq> CHR 0x09 \<and> c \<noteq> CHR '' '' \<and> c \<noteq> CHR '','' \<and> c \<noteq> CHR '';'') (pri_text x)"
  by (auto simp: selector_ok_def pri_text_def)

lemma selector_text_nonempty:
  assumes "selector_ok log_mark x"
  shows "\<exists>c r. selector_text x = c # r \<and> c \<noteq> CHR 0x09 \<and> c \<noteq> CHR '' '' \<and> c \<noteq> CHR '','' \<and> c \<noteq> CHR '';''"
proof -
  obtain n ns where x: "s_facs x = n # ns" "fac_name_ok log_mark n"
    using assms by (cases "s_facs x") (auto simp: selector_ok_def)
  then obtain c r where n: "n = c # r"
    by (cases n) (auto simp: fac_name_ok_def)
  have "\<exists>r'. selector_text x = c # r'"
    unfolding selector_text_def x(1) n by (cases ns) simp_all
  then show ?thesis
    using x(2) unfolding n by (auto simp: fac_name_ok_def is_fac_end_def)
qed

lemma pri_name_ok:
  assumes x: "selector_ok log_mark x" and xs: "list_all (selector_ok log_mark) xs"
  shows "pri_name (join (CHR '';'') (map selector_text (x # xs))) = Some (pri_text x, join (CHR '';'') (map selector_text xs))"
proof -
  have dot: "after_dot (selector_text x @ t) = pri_text x @ t" for t
    using after_dot_ok [OF join_no_end, of log_mark "s_facs x" "pri_text x @ t"] x by (simp add: selector_text_def selector_ok_def)
  have len: "length (pri_text x) \<le> 2047"
    using x by (simp add: selector_ok_def)
  have tw: "takeWhile (\<lambda>c. c \<noteq> CHR 0x09 \<and> c \<noteq> CHR '' '' \<and> c \<noteq> CHR '','' \<and> c \<noteq> CHR '';'') (pri_text x @ t) = pri_text x"
    if "t = [] \<or> hd t = CHR '';''" for t
    using that pri_text_chars [OF x] by (cases t) (auto simp: list_all_iff takeWhile_append)
  show ?thesis
  proof (cases xs)
    case Nil
    then show ?thesis
      using dot [of "[]"] tw [of "[]"] len by (simp add: pri_name_def Let_def del: takeWhile_eq_all_conv)
  next
    case (Cons y ys)
    define j where "j = join (CHR '';'') (map selector_text xs)"
    obtain c r where y: "selector_text y = c # r" "c \<noteq> CHR '',''" "c \<noteq> CHR '';''"
      using selector_text_nonempty xs Cons by fastforce
    have "\<exists>r'. j = c # r'"
      unfolding j_def Cons using y(1) by (cases ys) simp_all
    then have "skip_cruft (CHR '';'' # j) = Some j"
      using y(2,3) by auto
    moreover have "join (CHR '';'') (map selector_text (x # xs)) = selector_text x @ CHR '';'' # j"
      using Cons by (simp add: j_def)
    ultimately show ?thesis
      using dot [of "CHR '';'' # j"] tw [of "CHR '';'' # j"] len unfolding j_def [symmetric] by (simp add: pri_name_def Let_def del: takeWhile_eq_all_conv)
  qed
qed

definition sel_fun :: "selector \<Rightarrow> 8 word \<Rightarrow> 8 word" where
  "sel_fun x = pri_fun (s_ignore x) (s_single x) (decodeSyslogName (s_pri x) syslogPriNames)"

lemma step_ok:
  assumes "selector_ok log_mark x" "length p = 26"
  shows "DecodePRIFilter_step log_mark (selector_text x @ t) (pri_text x) p =
    Some (RS_RET_OK, fold (fac_update log_mark (sel_fun x)) (s_facs x) p)"
proof -
  have v: "pri_value_ok (s_single x) (decodeSyslogName (s_pri x) syslogPriNames)"
    using assms(1) by (simp add: selector_ok_def)
  then have "\<not> decodeSyslogName (s_pri x) syslogPriNames < 0"
    by (simp add: pri_value_ok_def)
  then have "DecodePRIFilter_step log_mark q (pri_text x) p =
      scan_facilities log_mark (apply_pri (s_ignore x) (s_single x) (decodeSyslogName (s_pri x) syslogPriNames)) q p" for q
    using assms(1) by (auto simp: DecodePRIFilter_step_def pri_text_def Let_def selector_ok_def)
  then show ?thesis
    using scan_facilities_ok [of log_mark "s_facs x" p "sel_fun x" "pri_text x @ t"] assms
    unfolding apply_pri_ok(1) [OF v] sel_fun_def by (simp add: selector_text_def selector_ok_def)
qed

lemma select_loop_ok:
  assumes "list_all (selector_ok log_mark) xs" "length p = 26"
  shows "\<exists>mask. select_loop log_mark (join (CHR '';'') (map selector_text xs)) p = Some (RS_RET_OK, mask) \<and> length mask = 26
    \<and> (\<forall>f < 26. \<forall>s < 8. bit (mask ! f) s \<longleftrightarrow> selected log_mark f s (bit (p ! f) s) xs)"
  using assms
proof (induction xs arbitrary: p)
  case Nil
  then show ?case
    by (simp add: select_loop.simps)
next
  case (Cons x xs)
  let ?p = "fold (fac_update log_mark (sel_fun x)) (s_facs x) p"
  let ?j = "join (CHR '';'') (map selector_text (x # xs))"
  have x: "selector_ok log_mark x" and xs: "list_all (selector_ok log_mark) xs"
    using Cons.prems by simp_all
  obtain t where t: "?j = selector_text x @ t"
    by (cases xs) auto
  obtain c r where c: "?j = c # r" "c \<noteq> CHR 0x09" "c \<noteq> CHR '' ''"
    using selector_text_nonempty [OF x] t by auto
  have step: "select_loop log_mark ?j p = select_loop log_mark (join (CHR '';'') (map selector_text xs)) ?p"
    using pri_name_ok [OF x xs] step_ok [OF x Cons.prems(2), of t] c t
    by (subst select_loop.simps) (simp del: join.simps list.map)
  have v: "pri_value_ok (s_single x) (decodeSyslogName (s_pri x) syslogPriNames)" "list_all (fac_name_ok log_mark) (s_facs x)"
    using x by (simp_all add: selector_ok_def)
  have "bit (?p ! f) s \<longleftrightarrow> (if list_ex (names_facility log_mark f) (s_facs x)
      then pri_effect (s_ignore x) (s_single x) (decodeSyslogName (s_pri x) syslogPriNames) s (bit (p ! f) s) else bit (p ! f) s)"
    if "f < 26" "s < 8" for f s
    using fold_fac_update_bit [OF v(2), of f p "sel_fun x" s] that Cons.prems(2) apply_pri_ok(2) [OF v(1) that(2)] pri_effect_idem
    unfolding sel_fun_def by simp
  then show ?case
    using Cons.IH [OF xs, of ?p] Cons.prems(2) step by auto
qed

lemma DecodePRIFilter_selects:
  assumes "list_all (selector_ok log_mark) xs"
  obtains pmask where "DecodePRIFilter log_mark (join (CHR '';'') (map selector_text xs)) = Some (RS_RET_OK, pmask)" "length pmask = 26"
    "\<And>m. pri_ok m \<Longrightarrow> prifilt_match pmask m \<longleftrightarrow> selected log_mark (unat (iFacility m)) (unat (iSeverity m)) False xs"
proof -
  have z: "\<not> bit (replicate 26 TABLE_NOPRI ! f) s" if "f < 26" for f s
    using nth_replicate [OF that, of TABLE_NOPRI] by (simp add: TABLE_NOPRI_def)
  obtain pmask where m: "DecodePRIFilter log_mark (join (CHR '';'') (map selector_text xs)) = Some (RS_RET_OK, pmask)" "length pmask = 26"
    "\<forall>f < 26. \<forall>s < 8. bit (pmask ! f) s \<longleftrightarrow> selected log_mark f s (bit (replicate 26 TABLE_NOPRI ! f) s) xs"
    using select_loop_ok [OF assms, of "replicate 26 TABLE_NOPRI"] by (auto simp: DecodePRIFilter_def)
  show ?thesis
  proof (rule that [OF m(1,2)])
    fix m' assume "pri_ok m'"
    then have b: "unat (iFacility m') < 26" "unat (iSeverity m') < 8"
      using pri_ok_bounds [of m'] by simp_all
    then show "prifilt_match pmask m' \<longleftrightarrow> selected log_mark (unat (iFacility m')) (unat (iSeverity m')) False xs"
      using m(3) z [OF b(1)] by (simp add: prifilt_match_bit)
  qed
qed

text \<open>(C9) Traditional selectors such as \<open>mail,news.=info;*.!err\<close> are decoded to what they mean: the decoder
  accepts every list of well-formed selectors and the mask it fills, read the way the filter statement reads it, lets exactly the
  messages pass whose facility and severity the selectors select, a later selector overriding an earlier one.\<close>

theorem DecodePRIFilter_correct:
  assumes "list_all (selector_ok log_mark) xs" "pri_ok m"
  shows "case DecodePRIFilter log_mark (join (CHR '';'') (map selector_text xs)) of
      None \<Rightarrow> False
    | Some (r, pmask) \<Rightarrow> r = RS_RET_OK \<and> length pmask = 26
        \<and> (prifilt_match pmask m \<longleftrightarrow> selected log_mark (unat (iFacility m)) (unat (iSeverity m)) False xs)"
proof -
  obtain pmask where "DecodePRIFilter log_mark (join (CHR '';'') (map selector_text xs)) = Some (RS_RET_OK, pmask)" "length pmask = 26"
      "prifilt_match pmask m \<longleftrightarrow> selected log_mark (unat (iFacility m)) (unat (iSeverity m)) False xs"
    using DecodePRIFilter_selects [OF assms(1)] assms(2) by metis
  then show ?thesis
    by simp
qed

definition sample_selectors :: "selector list" where
  "sample_selectors =
     [\<lparr>s_facs = [''mail'', ''News''], s_ignore = False, s_single = True, s_pri = ''info''\<rparr>,
      \<lparr>s_facs = [''*''], s_ignore = True, s_single = False, s_pri = ''err''\<rparr>,
      \<lparr>s_facs = [''4''], s_ignore = False, s_single = False, s_pri = ''*''\<rparr>]"

lemma sample_selectors_text:
  "join (CHR '';'') (map selector_text sample_selectors) = ''mail,News.=info;*.!err;4.*''"
  by code_simp

lemma sample_selectors_ok: "list_all (selector_ok 192) sample_selectors"
  by code_simp

lemma sample_selected: "selected 192 2 6 False sample_selectors"
  by code_simp

theorem DecodePRIFilter_correct_witness:
  "case DecodePRIFilter 192 ''mail,News.=info;*.!err;4.*'' of
      None \<Rightarrow> False
    | Some (r, pmask) \<Rightarrow> r = RS_RET_OK \<and> length pmask = 26
        \<and> prifilt_match pmask (msgBaseConstruct\<lparr>iFacility := 2, iSeverity := 6\<rparr>)"
  using DecodePRIFilter_correct [OF sample_selectors_ok, of "msgBaseConstruct\<lparr>iFacility := 2, iSeverity := 6\<rparr>"]
    sample_selected
  by (simp add: sample_selectors_text pri_ok_def split: option.splits prod.splits)

section \<open>Where the decoder leaves its buffers\<close>

lemma skip_cruft_end: "list_all (\<lambda>c. c = CHR '','' \<or> c = CHR '';'') r \<Longrightarrow> skip_cruft r = None"
  by (induction r) auto

text \<open>A selector line that ends in a separator makes the decoder run past the end of the line: \<open>strchr\<close> finds the
  terminating NUL too, so the loop that skips separators does not stop there.\<close>

theorem DecodePRIFilter_trailing_separator: "DecodePRIFilter log_mark ''mail.info;'' = None"
proof -
  have "pri_name ''mail.info;'' = None"
    by code_simp
  then show ?thesis
    by (simp add: DecodePRIFilter_def select_loop.simps)
qed

text \<open>A facility given by a number is used as an index without a check: \<open>999\<close> indexes byte 124 of the 26 bytes of the mask.\<close>

theorem DecodePRIFilter_large_facility: "DecodePRIFilter 192 ''999.info'' = None"
  by code_simp

end
