(* ===== verification/Prop_Replacer.thy ===== *)
theory Prop_Replacer
  imports Json_Escape Rs_Prifilt
begin

text \<open>
  The property replacer (second half of \<open>MsgGetProp\<close> in \<open>runtime/msg.c\<close>): what the options of a
  template entry do to the value of a property, in the order of the code. Fields, regular expressions, positions,
  case, control characters, path names, a trailing LF, repeated spaces, CSV and JSON.

  Each stage takes the value with its length and ownership and returns it, or returns early with one
  of the fixed texts. None stands for an access outside a buffer. Allocation of a non-negative size succeeds; a
  negative size is a huge one for \<open>malloc\<close> and fails. Matching of regular expressions is a parameter. The
  variant of field extraction that is only built with \<open>STRICT_GPLV3\<close> is left out.
\<close>

section \<open>Template entries\<close>

datatype tplFormatCaseConvTypes = tplCaseConvNo | tplCaseConvUpper | tplCaseConvLower

datatype tlpRegexNoMatchType = TPL_REGEX_NOMATCH_USE_DFLTSTR | TPL_REGEX_NOMATCH_USE_BLANK
  | TPL_REGEX_NOMATCH_USE_WHOLE_FIELD | TPL_REGEX_NOMATCH_USE_ZERO

datatype tplFormatTypes = tplFmtDefault | tplFmtMySQLDate | tplFmtRFC3164Date | tplFmtRFC3339Date | tplFmtPgSQLDate
  | tplFmtSecFrac | tplFmtRFC3164BuggyDate | tplFmtUnixDate | tplFmtWDayName | tplFmtYear | tplFmtMonth | tplFmtDay
  | tplFmtHour | tplFmtMinute | tplFmtSecond | tplFmtTZOffsHour | tplFmtTZOffsMin | tplFmtTZOffsDirection
  | tplFmtWDay | tplFmtOrdinal | tplFmtWeek | tplFmtISOWeek | tplFmtISOWeekYear

record tpe_options =
  bDropCC :: bool
  bSpaceCC :: bool
  bEscapeCC :: bool
  bCompressSP :: bool
  bDropLastLF :: bool
  bSecPathDrop :: bool
  bSecPathReplace :: bool
  bSPIffNo1stSP :: bool
  bCSV :: bool
  bJSON :: bool
  bJSONf :: bool
  bJSONr :: bool
  bJSONfr :: bool
  bMandatory :: bool
  bFromPosEndRelative :: bool
  bFixedWidth :: bool
  bDateInUTC :: bool
  dataType :: tpe_datatype
  onEmpty :: tpe_dataempty

record tpe_field =
  msgPropName :: string
  iFromPos :: int
  iToPos :: int
  iFieldNr :: int
  has_regex :: int
  iMatchToUse :: int
  iSubMatchToUse :: int
  typeRegexERE :: bool
  nomatchAction :: tlpRegexNoMatchType
  has_fields :: bool
  field_delim :: char
  eDateFormat :: tplFormatTypes
  eCaseConv :: tplFormatCaseConvTypes
  options :: tpe_options
  fieldName :: string
  bComplexProcessing :: bool

section \<open>Extraction of a field or of a match\<close>

text \<open>A text returned at once, with its length.\<close>

definition ret_text :: "string \<Rightarrow> prop_buf" where
  "ret_text s = \<lparr>pRes = s, bufLen = int (length s), bMustBeFreed = False\<rparr>"

definition RET_OUT_OF_MEMORY :: prop_buf where
  "RET_OUT_OF_MEMORY = ret_text ''**OUT OF MEMORY**''"

function skip_fields :: "char \<Rightarrow> int \<Rightarrow> int \<Rightarrow> string \<Rightarrow> (int \<times> string) option" where
  "skip_fields delim nr cur p =
     (if deref p \<noteq> NUL \<and> cur < nr then
        let q = dropWhile (\<lambda>c. c \<noteq> NUL \<and> c \<noteq> delim) p
        in if deref q = delim then if q = [] then None else skip_fields delim nr (cur + 1) (tl q)
           else skip_fields delim nr cur q
      else Some (cur, p))"
  by pat_completeness auto
termination
proof (relation "measure (\<lambda>(d, n, c, p). length p)", goal_cases)
  case (2 delim nr cur p q)
  then have "length q \<le> length p"
    using length_dropWhile_le by simp
  then have "length (tl q) < length p"
    using 2(4) by (cases q) simp_all
  then show ?case
    by simp
next
  case (3 delim nr cur p q)
  then show ?case
    using length_dropWhile_le [of "\<lambda>c. c \<noteq> NUL \<and> c \<noteq> delim" "tl p"] by (cases p) (auto split: if_splits)
qed simp

declare skip_fields.simps [simp del]

definition extract_field :: "tpe_field \<Rightarrow> prop_buf \<Rightarrow> (prop_buf + prop_buf) option" where
  "extract_field f b =
     (case skip_fields (field_delim f) (iFieldNr f) 1 (pRes b) of
        None \<Rightarrow> None
      | Some (cur, p) \<Rightarrow>
          if cur = iFieldNr f then
            let fld = takeWhile (\<lambda>c. c \<noteq> NUL \<and> c \<noteq> field_delim f) p
            in Some (Inr \<lparr>pRes = fld, bufLen = int (length fld), bMustBeFreed = True\<rparr>)
          else Some (Inl (ret_text ''**FIELD NOT FOUND**'')))"

text \<open>Matching from an offset: the ten positions of the match and its groups, or no match.\<close>

type_synonym regexec = "string \<Rightarrow> (int \<times> int) list option"

text \<open>The search for the requested match; offset and number of tries are shorts. The bound on the rounds is the
  number of values of the counter.\<close>

fun regex_loop :: "regexec \<Rightarrow> nat \<Rightarrow> int \<Rightarrow> string \<Rightarrow> int \<Rightarrow> int \<Rightarrow> (int \<times> (int \<times> int) list) option option" where
  "regex_loop regexec 0 want s iOffs iTry = None"
| "regex_loop regexec (Suc n) want s iOffs iTry =
     (if iOffs < 0 \<or> int (length s) < iOffs then None
      else case regexec (drop (nat iOffs) s) of
          None \<Rightarrow> Some None
        | Some pmatch \<Rightarrow>
            if fst (pmatch ! 0) = - 1 then Some None
            else if iTry = want then Some (Some (iOffs, pmatch))
            else regex_loop regexec n want s (to_short (iOffs + snd (pmatch ! 0))) (to_short (iTry + 1)))"

definition nomatch_text :: "tlpRegexNoMatchType \<Rightarrow> prop_buf \<Rightarrow> prop_buf" where
  "nomatch_text act b =
     (case act of
        TPL_REGEX_NOMATCH_USE_WHOLE_FIELD \<Rightarrow> b
      | TPL_REGEX_NOMATCH_USE_DFLTSTR \<Rightarrow> ret_text ''**NO MATCH**''
      | TPL_REGEX_NOMATCH_USE_ZERO \<Rightarrow> ret_text ''0''
      | TPL_REGEX_NOMATCH_USE_BLANK \<Rightarrow> ret_text [])"

text \<open>The group of the match that is copied; a group that took no part in the match has the positions -1.\<close>

definition extract_match :: "tpe_field \<Rightarrow> int \<Rightarrow> (int \<times> int) list \<Rightarrow> prop_buf \<Rightarrow> (prop_buf + prop_buf) option" where
  "extract_match f iOffs pmatch b =
     (if iSubMatchToUse f < 0 \<or> int (length pmatch) \<le> iSubMatchToUse f then None
      else let (rm_so, rm_eo) = pmatch ! nat (iSubMatchToUse f);
               b1 = (if rm_so = - 1 then nomatch_text (nomatchAction f) b else b);
               iLenBuf = rm_eo - rm_so
           in if iLenBuf = 0 then Some (Inr \<lparr>pRes = [], bufLen = 0, bMustBeFreed = True\<rparr>)
              else if iLenBuf < 0 \<or> iOffs + rm_so < 0 \<or> int (length (pRes b1)) < iOffs + rm_eo then None
              else Some (Inr \<lparr>pRes = take (nat iLenBuf) (drop (nat (iOffs + rm_so)) (pRes b1)), bufLen = iLenBuf, bMustBeFreed = True\<rparr>))"

definition extract_regex :: "regexec option \<Rightarrow> tpe_field \<Rightarrow> prop_buf \<Rightarrow> (prop_buf + prop_buf) option" where
  "extract_regex regexp f b =
     (if has_regex f = 0 then Some (Inr b)
      else if has_regex f = 2 then Some (Inl (ret_text ''**NO MATCH** **BAD REGULAR EXPRESSION**''))
      else case regexp of
          None \<Rightarrow> Some (Inl (ret_text ''***REGEXP NOT AVAILABLE***''))
        | Some regexec \<Rightarrow>
            (case regex_loop regexec 65537 (iMatchToUse f) (c_str (pRes b)) 0 0 of
               None \<Rightarrow> None
             | Some None \<Rightarrow> Some (Inr (nomatch_text (nomatchAction f) b))
             | Some (Some (iOffs, pmatch)) \<Rightarrow> extract_match f iOffs pmatch b))"

section \<open>Positions\<close>

definition zero_based :: "tpe_field \<Rightarrow> int \<Rightarrow> int \<times> int" where
  "zero_based f len =
     (let iFrom = to_int (iFromPos f); iTo = to_int (iToPos f)
      in if bFromPosEndRelative (options f)
         then ((if len < iFrom then 0 else len - iFrom), (if len < iTo then 0 else len - iTo))
         else ((if 0 < iFrom then iFrom - 1 else iFrom),
               (if 0 < iTo then iTo - 1 else if iTo < 0 then max 0 (len - 1 + iTo) else iTo)))"

definition extract_position :: "tpe_field \<Rightarrow> prop_buf \<Rightarrow> (prop_buf + prop_buf) option" where
  "extract_position f b =
     (if iFromPos f = 0 \<and> iToPos f = 0 then Some (Inr b)
      else let len = buf_len b; (iFrom, iTo) = zero_based f len; fixed = bFixedWidth (options f)
           in if len \<le> iFrom then Some (Inr (ret_text []))
              else if iFrom = 0 \<and> len \<le> iTo \<and> \<not> fixed then Some (Inr (b\<lparr>bufLen := len\<rparr>))
              else let iTo' = (if len \<le> iTo \<and> \<not> fixed then len - 1 else iTo);
                       iLen = iTo' - iFrom + 1
                   in if iLen + 1 < 0 then Some (Inl RET_OUT_OF_MEMORY)
                      else if iLen < 0 then None
                      else let pSb = (if iFrom < 0 then [] else drop (nat iFrom) (c_str (pRes b)));
                               s = take (nat iLen) pSb
                           in Some (Inr \<lparr>pRes = s @ replicate (nat iLen - length s) (CHR '' ''), bufLen = iLen, bMustBeFreed = True\<rparr>))"

section \<open>Changes of the text\<close>

definition toupper :: "char \<Rightarrow> char" where
  "toupper c = (if 97 \<le> byte_val c \<and> byte_val c \<le> 122 then to_char (byte_val c - 32) else c)"

definition iscntrl :: "char \<Rightarrow> bool" where
  "iscntrl c \<longleftrightarrow> byte_val c < 32 \<or> byte_val c = 127"

definition space_if_none :: "tpe_field \<Rightarrow> prop_buf \<Rightarrow> prop_buf" where
  "space_if_none f b =
     (if deref (pRes b) \<noteq> NUL \<and> bSPIffNo1stSP (options f)
      then ret_text (if deref (pRes b) = CHR '' '' then [] else '' '') else b)"

text \<open>A private copy of known length: as many bytes as the string has are written into it.\<close>

definition copy_changed :: "(char \<Rightarrow> char) \<Rightarrow> prop_buf \<Rightarrow> prop_buf option" where
  "copy_changed g b =
     (let len = buf_len b; s = c_str (pRes b)
      in if int (length s) \<le> len then Some \<lparr>pRes = map g s, bufLen = len, bMustBeFreed = True\<rparr> else None)"

definition convert_case :: "tpe_field \<Rightarrow> prop_buf \<Rightarrow> prop_buf option" where
  "convert_case f b =
     (case eCaseConv f of
        tplCaseConvNo \<Rightarrow> Some b
      | tplCaseConvUpper \<Rightarrow> copy_changed toupper b
      | tplCaseConvLower \<Rightarrow> copy_changed tolower b)"

definition cc_escape :: "char \<Rightarrow> string" where
  "cc_escape c =
     (if iscntrl c
      then [CHR ''#'', to_char (48 + byte_val c div 100), to_char (48 + byte_val c div 10 mod 10), to_char (48 + byte_val c mod 10)]
      else [c])"

definition control_chars :: "tpe_field \<Rightarrow> prop_buf \<Rightarrow> prop_buf option" where
  "control_chars f b =
     (let s = c_str (pRes b)
      in if bDropCC (options f) then
           if list_ex iscntrl s
           then let t = filter (\<lambda>c. \<not> iscntrl c) s in Some \<lparr>pRes = t, bufLen = int (length t), bMustBeFreed = True\<rparr>
           else Some b
         else if bSpaceCC (options f) then
           let g = (\<lambda>c. if iscntrl c then CHR '' '' else c)
           in if bMustBeFreed b then Some (b\<lparr>pRes := map g s @ drop (length s) (pRes b)\<rparr>) else copy_changed g b
         else if bEscapeCC (options f) \<and> list_ex iscntrl s
         then Some \<lparr>pRes = concat (map cc_escape s), bufLen = - 1, bMustBeFreed = True\<rparr>
         else Some b)"

text \<open>Slashes are replaced in place when the buffer is private; the pointer moves twice at a slash.\<close>

fun replace_slashes :: "string \<Rightarrow> string option" where
  "replace_slashes [] = Some []"
| "replace_slashes (c # cs) =
     (if c = CHR ''/'' then
        case cs of [] \<Rightarrow> None | d # ds \<Rightarrow> map_option (\<lambda>r. CHR ''_'' # d # r) (replace_slashes ds)
      else map_option ((#) c) (replace_slashes cs))"

definition secpath_slashes :: "tpe_field \<Rightarrow> prop_buf \<Rightarrow> prop_buf option" where
  "secpath_slashes f b =
     (let s = c_str (pRes b)
      in if bSecPathDrop (options f) then
           if CHR ''/'' \<in> set s
           then Some \<lparr>pRes = filter (\<lambda>c. c \<noteq> CHR ''/'') s, bufLen = - 1, bMustBeFreed = True\<rparr> else Some b
         else if bMustBeFreed b then map_option (\<lambda>t. b\<lparr>pRes := t @ drop (length s) (pRes b)\<rparr>) (replace_slashes s)
         else copy_changed (\<lambda>c. if c = CHR ''/'' then CHR ''_'' else c) b)"

definition secpath_dots :: "prop_buf \<Rightarrow> prop_buf" where
  "secpath_dots b =
     (let s = c_str (pRes b)
      in if s = [] then ret_text ''_''
         else if s = ''.'' then b\<lparr>pRes := ''_'', bMustBeFreed := False\<rparr>
         else if s = ''..'' then b\<lparr>pRes := ''_.'', bMustBeFreed := False\<rparr>
         else b)"

definition secure_path :: "tpe_field \<Rightarrow> prop_buf \<Rightarrow> prop_buf option" where
  "secure_path f b =
     (if bSecPathDrop (options f) \<or> bSecPathReplace (options f)
      then map_option secpath_dots (secpath_slashes f b) else Some b)"

definition drop_last_lf :: "tpe_field \<Rightarrow> prop_buf \<Rightarrow> prop_buf option" where
  "drop_last_lf f b =
     (if bDropLastLF (options f) \<and> \<not> bEscapeCC (options f) then
        let len = buf_len b
        in if int (length (pRes b)) < len then None
           else if 0 < len \<and> pRes b ! nat (len - 1) = CHR 0x0A
           then Some \<lparr>pRes = take (nat (len - 1)) (pRes b), bufLen = len - 1, bMustBeFreed = True\<rparr>
           else Some (b\<lparr>bufLen := len\<rparr>)
      else Some b)"

fun compress :: "bool \<Rightarrow> string \<Rightarrow> string" where
  "compress hadSP [] = []"
| "compress hadSP (c # cs) =
     (if c = CHR '' '' then if hadSP then compress True cs else c # compress True cs
      else c # compress False cs)"

text \<open>A foreign buffer is only copied when it has a second space.\<close>

definition compress_spaces :: "tpe_field \<Rightarrow> prop_buf \<Rightarrow> prop_buf" where
  "compress_spaces f b =
     (let s = c_str (pRes b)
      in if bCompressSP (options f) \<and> (bMustBeFreed b \<or> 1 < length (filter (\<lambda>c. c = CHR '' '') s))
         then let t = compress False s in \<lparr>pRes = t, bufLen = int (length t), bMustBeFreed = True\<rparr>
         else b)"

definition csv_quote :: "string \<Rightarrow> string" where
  "csv_quote s = [CHR 0x22] @ concat (map (\<lambda>c. if c = CHR 0x22 then [c, c] else [c]) s) @ [CHR 0x22]"

definition format_csv :: "prop_buf \<Rightarrow> prop_buf option" where
  "format_csv b =
     (let t = csv_quote (c_str (pRes b))
      in if int (length t) < 2 * buf_len b + 3 then Some \<lparr>pRes = t, bufLen = - 1, bMustBeFreed = True\<rparr> else None)"

definition format_value :: "tpe_field \<Rightarrow> prop_buf \<Rightarrow> prop_buf option" where
  "format_value f b =
     (if bCSV (options f) then format_csv b
      else if bJSON (options f) then jsonEncode True b
      else if bJSONf (options f) then jsonField (fieldName f) (dataType (options f)) (onEmpty (options f)) True b
      else if bJSONr (options f) then jsonEncode False b
      else if bJSONfr (options f) then jsonField (fieldName f) (dataType (options f)) (onEmpty (options f)) False b
      else Some b)"

section \<open>The replacer\<close>

definition change_text :: "tpe_field \<Rightarrow> prop_buf \<Rightarrow> prop_buf option" where
  "change_text f b =
     (let b1 = space_if_none f b
      in (if deref (pRes b1) \<noteq> NUL then convert_case f b1 \<bind> control_chars f else Some b1) \<bind>
         secure_path f \<bind> drop_last_lf f \<bind> (\<lambda>b. format_value f (compress_spaces f b)))"

definition replacer :: "regexec option \<Rightarrow> tpe_field \<Rightarrow> prop_buf \<Rightarrow> prop_buf option" where
  "replacer regexp f b =
     (case (if has_fields f then extract_field f b else extract_regex regexp f b) of
        None \<Rightarrow> None
      | Some (Inl r) \<Rightarrow> Some r
      | Some (Inr b1) \<Rightarrow>
          (case extract_position f b1 of
             None \<Rightarrow> None
           | Some (Inl r) \<Rightarrow> Some r
           | Some (Inr b2) \<Rightarrow> change_text f b2 \<bind> (\<lambda>b. Some (b\<lparr>bufLen := buf_len b\<rparr>))))"

section \<open>No stage leaves its buffers\<close>

definition out_ok :: "(prop_buf + prop_buf) option \<Rightarrow> bool" where
  "out_ok r \<longleftrightarrow> (case r of None \<Rightarrow> False | Some (Inl b) \<Rightarrow> buf_wf b | Some (Inr b) \<Rightarrow> buf_wf b)"

lemma buf_wf_copy: "NUL \<notin> set s \<Longrightarrow> buf_wf \<lparr>pRes = s, bufLen = int (length s), bMustBeFreed = m\<rparr>"
  by (simp add: buf_wf_def)

lemma buf_wf_unknown: "NUL \<notin> set s \<Longrightarrow> buf_wf \<lparr>pRes = s, bufLen = - 1, bMustBeFreed = m\<rparr>"
  by (simp add: buf_wf_def)

lemma ret_text_wf: "NUL \<notin> set s \<Longrightarrow> buf_wf (ret_text s)"
  by (simp add: ret_text_def buf_wf_copy)

lemma buf_wf_c_str: "buf_wf b \<Longrightarrow> c_str (pRes b) = pRes b"
  by (simp add: buf_wf_def c_str_id)

lemma buf_wf_NUL: "buf_wf b \<Longrightarrow> NUL \<notin> set (pRes b)"
  by (simp add: buf_wf_def)

lemma fixed_texts:
  "buf_wf (ret_text ''**FIELD NOT FOUND**'')" "buf_wf (ret_text ''**NO MATCH** **BAD REGULAR EXPRESSION**'')"
  "buf_wf (ret_text ''***REGEXP NOT AVAILABLE***'')" "buf_wf (ret_text ''**NO MATCH**'')" "buf_wf (ret_text ''0'')"
  "buf_wf (ret_text [])" "buf_wf RET_OUT_OF_MEMORY" "buf_wf (ret_text ''_'')" "buf_wf (ret_text '' '')"
  by (rule ret_text_wf, code_simp)+ (simp_all add: RET_OUT_OF_MEMORY_def ret_text_wf NUL_def)

lemma set_tl_subset: "set (tl xs) \<subseteq> set xs"
  by (cases xs) auto

lemma skip_fields_ok:
  assumes "delim \<noteq> NUL" "NUL \<notin> set p"
  shows "\<exists>cur' p'. skip_fields delim nr cur p = Some (cur', p') \<and> set p' \<subseteq> set p"
  using assms
proof (induction delim nr cur p rule: skip_fields.induct)
  case (1 delim nr cur p)
  let ?q = "dropWhile (\<lambda>c. c \<noteq> NUL \<and> c \<noteq> delim) p"
  have sub: "set ?q \<subseteq> set p"
    by (meson set_dropWhileD subsetI)
  then have sub': "set (tl ?q) \<subseteq> set p"
    by (rule order_trans [OF set_tl_subset])
  show ?case
  proof (cases "deref p \<noteq> NUL \<and> cur < nr")
    case True
    show ?thesis
    proof (cases "deref ?q = delim")
      case d: True
      then have q: "?q \<noteq> []"
        using 1(3) by (metis deref.simps(1))
      obtain cur' p' where "skip_fields delim nr (cur + 1) (tl ?q) = Some (cur', p')" "set p' \<subseteq> set (tl ?q)"
        using 1(1) [OF True refl d q 1(3)] 1(4) sub' by blast
      moreover have "skip_fields delim nr cur p = skip_fields delim nr (cur + 1) (tl ?q)"
        using True d q by (subst skip_fields.simps) (simp only: Let_def simp_thms if_True if_False)
      ultimately show ?thesis
        using sub' by (metis order_trans)
    next
      case d: False
      obtain cur' p' where "skip_fields delim nr cur ?q = Some (cur', p')" "set p' \<subseteq> set ?q"
        using 1(2) [OF True refl d 1(3)] 1(4) sub by blast
      moreover have "skip_fields delim nr cur p = skip_fields delim nr cur ?q"
        using True d by (subst skip_fields.simps) (simp only: Let_def simp_thms if_True if_False)
      ultimately show ?thesis
        using sub by (metis order_trans)
    qed
  next
    case False
    then show ?thesis
      by (subst skip_fields.simps) auto
  qed
qed

lemma extract_field_ok:
  assumes "field_delim f \<noteq> NUL" "buf_wf b"
  shows "out_ok (extract_field f b)"
proof -
  obtain cur p where p: "skip_fields (field_delim f) (iFieldNr f) 1 (pRes b) = Some (cur, p)" "set p \<subseteq> set (pRes b)"
    using skip_fields_ok [OF assms(1) buf_wf_NUL [OF assms(2)]] by blast
  have "NUL \<notin> set (takeWhile (\<lambda>c. c \<noteq> NUL \<and> c \<noteq> field_delim f) p)"
    by (auto dest: set_takeWhileD)
  then show ?thesis
    using p(1) fixed_texts(1) by (simp add: extract_field_def out_ok_def Let_def buf_wf_copy)
qed

text \<open>What the matcher promises: ten positions, in order and inside the string, or -1 for a group without a match.\<close>

definition regexec_ok :: "regexec \<Rightarrow> bool" where
  "regexec_ok r \<longleftrightarrow> (\<forall>s pm. r s = Some pm \<longrightarrow> length pm = 10 \<and> fst (pm ! 0) \<noteq> - 1
     \<and> (\<forall>p\<in>set pm. p = (- 1, - 1) \<or> 0 \<le> fst p \<and> fst p \<le> snd p \<and> snd p \<le> int (length s)))"

lemma regexec_okD:
  assumes "regexec_ok r" "r s = Some pm" "i < 10"
  shows "length pm = 10" "pm ! i = (- 1, - 1) \<or> 0 \<le> fst (pm ! i) \<and> fst (pm ! i) \<le> snd (pm ! i) \<and> snd (pm ! i) \<le> int (length s)"
    "0 \<le> snd (pm ! 0)" "snd (pm ! 0) \<le> int (length s)"
proof -
  show l: "length pm = 10" and "pm ! i = (- 1, - 1) \<or> 0 \<le> fst (pm ! i) \<and> fst (pm ! i) \<le> snd (pm ! i) \<and> snd (pm ! i) \<le> int (length s)"
    using assms nth_mem [of i pm] by (auto simp: regexec_ok_def)
  have "pm ! 0 \<in> set pm" "fst (pm ! 0) \<noteq> - 1"
    using assms(1,2) l nth_mem [of 0 pm] by (auto simp: regexec_ok_def)
  then show "0 \<le> snd (pm ! 0)" "snd (pm ! 0) \<le> int (length s)"
    using assms(1,2) unfolding regexec_ok_def by (smt (verit, best) fst_conv)+
qed

lemma regex_loop_ok:
  assumes "regexec_ok r" "length s \<le> 32767" "0 \<le> iOffs" "iOffs \<le> int (length s)" "0 \<le> iTry" "iTry \<le> want" "want \<le> 32767"
    "want - iTry < int n"
  shows "\<exists>x. regex_loop r n want s iOffs iTry = Some x
    \<and> (\<forall>o' pm. x = Some (o', pm) \<longrightarrow> 0 \<le> o' \<and> o' \<le> int (length s) \<and> r (drop (nat o') s) = Some pm)"
  using assms
proof (induction n arbitrary: iOffs iTry)
  case (Suc n)
  show ?case
  proof (cases "r (drop (nat iOffs) s)")
    case (Some pm)
    have e: "0 \<le> snd (pm ! 0)" "snd (pm ! 0) \<le> int (length s) - iOffs"
      using regexec_okD(3,4) [OF Suc.prems(1) Some, of 0] Suc.prems(3,4) by simp_all
    show ?thesis
    proof (cases "fst (pm ! 0) = - 1 \<or> iTry = want")
      case True
      then show ?thesis
        using Some Suc.prems(3,4) by auto
    next
      case False
      have "to_short (iOffs + snd (pm ! 0)) = iOffs + snd (pm ! 0)" "to_short (iTry + 1) = iTry + 1"
        using e Suc.prems False by (intro to_short_id; linarith)+
      moreover have "\<exists>x. regex_loop r n want s (iOffs + snd (pm ! 0)) (iTry + 1) = Some x
          \<and> (\<forall>o' pm. x = Some (o', pm) \<longrightarrow> 0 \<le> o' \<and> o' \<le> int (length s) \<and> r (drop (nat o') s) = Some pm)"
        using e Suc.prems False by (intro Suc.IH) auto
      ultimately show ?thesis
        using False Some Suc.prems(3,4) by simp
    qed
  qed (use Suc.prems in auto)
qed simp

lemma nomatch_text_wf: "buf_wf b \<Longrightarrow> buf_wf (nomatch_text act b)"
  using fixed_texts by (simp add: nomatch_text_def split: tlpRegexNoMatchType.splits)

lemma NUL_take_drop: "NUL \<notin> set s \<Longrightarrow> NUL \<notin> set (take n (drop m s))"
  by (meson in_set_dropD in_set_takeD)

definition regex_ok :: "regexec option \<Rightarrow> tpe_field \<Rightarrow> prop_buf \<Rightarrow> bool" where
  "regex_ok regexp f b \<longleftrightarrow> has_regex f = 0 \<or> has_regex f = 2 \<or> regexp = None
     \<or> (regexec_ok (the regexp) \<and> length (pRes b) \<le> 32767 \<and> 0 \<le> iMatchToUse f \<and> iMatchToUse f \<le> 32767
        \<and> 0 \<le> iSubMatchToUse f \<and> iSubMatchToUse f \<le> 9)"

lemma extract_match_ok:
  assumes "regexec_ok r" "r (drop (nat iOffs) (pRes b)) = Some pm" "0 \<le> iOffs" "iOffs \<le> int (length (pRes b))" "buf_wf b"
    "0 \<le> iSubMatchToUse f" "iSubMatchToUse f \<le> 9"
  shows "out_ok (extract_match f iOffs pm b)"
proof -
  obtain so eo where g: "pm ! nat (iSubMatchToUse f) = (so, eo)"
    by fastforce
  have l: "length pm = 10" and "(so, eo) = (- 1, - 1) \<or> 0 \<le> so \<and> so \<le> eo \<and> eo \<le> int (length (drop (nat iOffs) (pRes b)))"
    using regexec_okD(1,2) [OF assms(1,2), of "nat (iSubMatchToUse f)"] assms(6,7) g by auto
  then consider "so = - 1" "eo = - 1" | "0 \<le> so" "so \<le> eo" "iOffs + eo \<le> int (length (pRes b))"
    using assms(3,4) by fastforce
  then show ?thesis
  proof cases
    case 1
    then show ?thesis
      using l assms(6,7) g buf_wf_copy [of "[]"] by (simp add: extract_match_def out_ok_def)
  next
    case 2
    then have len: "length (take (nat (eo - so)) (drop (nat (iOffs + so)) (pRes b))) = nat (eo - so)"
      using assms(3) by simp
    have "NUL \<notin> set (take (nat (eo - so)) (drop (nat (iOffs + so)) (pRes b)))"
      using buf_wf_NUL [OF assms(5)] by (rule NUL_take_drop)
    then have "buf_wf \<lparr>pRes = take (nat (eo - so)) (drop (nat (iOffs + so)) (pRes b)), bufLen = eo - so, bMustBeFreed = True\<rparr>"
      using buf_wf_copy len 2(2) by (metis eq_iff_diff_eq_0 int_nat_eq le_add_diff_inverse nat_0_le diff_ge_0_iff_ge)
    then show ?thesis
      using 2 l assms(3,6,7) g buf_wf_copy [of "[]"] by (simp add: extract_match_def out_ok_def Let_def)
  qed
qed

lemma extract_regex_ok:
  assumes "regex_ok regexp f b" "buf_wf b"
  shows "out_ok (extract_regex regexp f b)"
proof (cases "has_regex f = 0 \<or> has_regex f = 2 \<or> regexp = None")
  case True
  then show ?thesis
    using assms(2) fixed_texts by (auto simp: extract_regex_def out_ok_def)
next
  case False
  then obtain r where r: "regexp = Some r" "regexec_ok r" "length (pRes b) \<le> 32767" "0 \<le> iMatchToUse f" "iMatchToUse f \<le> 32767"
      "0 \<le> iSubMatchToUse f" "iSubMatchToUse f \<le> 9"
    using assms(1) by (auto simp: regex_ok_def)
  obtain x where x: "regex_loop r 65537 (iMatchToUse f) (pRes b) 0 0 = Some x"
      "\<And>o' pm. x = Some (o', pm) \<Longrightarrow> 0 \<le> o' \<and> o' \<le> int (length (pRes b)) \<and> r (drop (nat o') (pRes b)) = Some pm"
    using regex_loop_ok [OF r(2,3), of 0 0 "iMatchToUse f" 65537] r(4,5) by auto
  show ?thesis
  proof (cases x)
    case None
    then show ?thesis
      using False r(1) x(1) assms(2) nomatch_text_wf by (simp add: extract_regex_def out_ok_def buf_wf_c_str del: regex_loop.simps)
  next
    case (Some y)
    obtain o' pm where "y = (o', pm)"
      by fastforce
    then show ?thesis
      using False r(1) x Some extract_match_ok [OF r(2) _ _ _ assms(2) r(6,7), of o' pm] assms(2)
      by (simp add: extract_regex_def buf_wf_c_str del: regex_loop.simps)
  qed
qed

definition position_ok :: "tpe_field \<Rightarrow> bool" where
  "position_ok f \<longleftrightarrow> 0 \<le> iFromPos f \<and> iFromPos f \<le> INT_MAX \<and> 0 \<le> iToPos f \<and> iToPos f \<le> INT_MAX
     \<and> (if bFromPosEndRelative (options f) then iToPos f \<le> iFromPos f else iFromPos f \<le> iToPos f)"

lemma to_int_nonneg: "0 \<le> i \<Longrightarrow> i \<le> INT_MAX \<Longrightarrow> to_int i = i"
  by (simp add: to_signed_def INT_MAX_def)

lemma zero_based_ok:
  assumes "position_ok f" "0 \<le> len"
  shows "0 \<le> fst (zero_based f len)" "fst (zero_based f len) \<le> snd (zero_based f len)"
  using assms by (auto simp: zero_based_def position_ok_def to_int_nonneg Let_def split: if_splits)

lemma extract_position_ok:
  assumes "position_ok f" "buf_wf b"
  shows "out_ok (extract_position f b)"
proof -
  obtain a z where z: "zero_based f (buf_len b) = (a, z)"
    by fastforce
  have len: "buf_len b = int (length (pRes b))"
    using assms(2) by (rule buf_len_wf)
  then have az: "0 \<le> a" "a \<le> z"
    using zero_based_ok [OF assms(1), of "buf_len b"] z by simp_all
  let ?z = "if buf_len b \<le> z \<and> \<not> bFixedWidth (options f) then buf_len b - 1 else z"
  let ?n = "?z - a + 1"
  let ?s = "take (nat ?n) (drop (nat a) (pRes b))"
  let ?t = "?s @ replicate (nat ?n - length ?s) (CHR '' '')"
  have "NUL \<notin> set ?t"
    using NUL_take_drop [OF buf_wf_NUL [OF assms(2)]] by (auto simp: NUL_def)
  moreover have "0 \<le> ?n" "length ?t = nat ?n" if "a < buf_len b"
    using az that by auto
  ultimately have "buf_wf \<lparr>pRes = ?t, bufLen = ?n, bMustBeFreed = True\<rparr>" if "a < buf_len b"
    using that by (simp only: buf_wf_def prop_buf.simps) simp
  moreover have "buf_wf (b\<lparr>bufLen := buf_len b\<rparr>)"
    using assms(2) len by (simp add: buf_wf_def)
  ultimately show ?thesis
    using assms(2) az z fixed_texts(6,7) unfolding extract_position_def out_ok_def Let_def z
    by (simp add: buf_wf_c_str)
qed

lemma buf_ok_step: "put t b = Some b' \<Longrightarrow> dst_w b' = dst_w b @ t"
  by (auto simp: put_def split: if_splits)

lemma dst_w_grow [simp]: "dst_w (grow b) = dst_w b"
  by (simp add: grow_def)

lemma NUL_escape_char: "\<not> json_plain c \<Longrightarrow> NUL \<notin> set (json_escape_char c)"
  using NUL_json_text [of "[c]"] by (simp add: json_text_def)

lemma escape_loop_NUL: "escape_loop all s b = Some b' \<Longrightarrow> NUL \<notin> set (dst_w b) \<Longrightarrow> NUL \<notin> set (dst_w b')"
proof (induction s arbitrary: b rule: length_induct)
  case (1 s)
  show ?case
  proof (cases s)
    case Nil
    then show ?thesis
      using 1(2,3) by simp
  next
    case (Cons c cs)
    have IH: "NUL \<notin> set (dst_w b')"
      if p: "put t (grow b) \<bind> escape_loop all r = Some b'" "NUL \<notin> set t" "length r \<le> length cs" for t r
    proof -
      obtain b1 where b1: "put t (grow b) = Some b1" "escape_loop all r b1 = Some b'"
        using p(1) by (cases "put t (grow b)") auto
      then have "NUL \<notin> set (dst_w b1)"
        using buf_ok_step [OF b1(1)] p(2) 1(3) by simp
      then show ?thesis
        using 1(1) b1(2) p(3) Cons le_imp_less_Suc [OF p(3)] by auto
    qed
    have keep: "NUL \<notin> set [c, deref cs]" if "\<not> json_plain c" "c = CHR 0x5C" "keeps_escape (deref cs)"
      using that by (auto simp: keeps_escape_def NUL_def)
    consider "json_plain c" | "\<not> json_plain c" "c = CHR 0x5C" "\<not> all" "keeps_escape (deref cs)"
      | "\<not> json_plain c" "\<not> (c = CHR 0x5C \<and> \<not> all \<and> keeps_escape (deref cs))"
      by blast
    then show ?thesis
    proof cases
      case a: 1
      then show ?thesis
        using 1(2) Cons NUL_not_escape [of c] by (intro IH [of "[c]" cs]) auto
    next
      case a: 2
      then have "escape_loop all s b = put [c, deref cs] (grow b) \<bind> escape_loop all (tl cs)"
        unfolding Cons by simp
      then show ?thesis
        using 1(2) keep [OF a(1,2,4)] by (intro IH [of "[c, deref cs]" "tl cs"]) simp_all
    next
      case a: 3
      then have "escape_loop all s b = put (json_escape_char c) (grow b) \<bind> escape_loop all cs"
        unfolding Cons by (simp only: escape_loop.simps if_False)
      then show ?thesis
        using 1(2) NUL_escape_char [OF a(1)] by (intro IH [of "json_escape_char c" cs]) simp_all
    qed
  qed
qed

lemma jsonAddVal_escaped_NUL:
  assumes e: "jsonAddVal_escaped s n dst all = Some dst'" and s: "NUL \<notin> set s" and d: "\<And>d. dst = Some d \<Longrightarrow> NUL \<notin> set d"
  shows "\<exists>d. dst' = Some d \<and> NUL \<notin> set d"
proof -
  define sz where "sz = (if wrkbuf_size < n + 10 then 2 * n else wrkbuf_size)"
  define b0 where "b0 = \<lparr>dst_size = sz, dst_realloc_size = sz - 10, dst_w = []\<rparr>"
  have e': "put (take n s) b0 \<bind> (\<lambda>b. escape_loop all (drop n s) b \<bind>
      (\<lambda>b. Some (Some (case dst of None \<Rightarrow> dst_w b | Some d \<Rightarrow> d @ dst_w b)))) = Some dst'"
    using e by (simp add: jsonAddVal_escaped_def b0_def sz_def Let_def)
  obtain b1 where b1: "put (take n s) b0 = Some b1"
    using e' by (cases "put (take n s) b0") auto
  obtain b2 where b2: "escape_loop all (drop n s) b1 = Some b2"
    using e' b1 by (cases "escape_loop all (drop n s) b1") auto
  have "NUL \<notin> set (dst_w b1)"
    using buf_ok_step [OF b1] s by (auto simp: b0_def dest: in_set_takeD)
  then have "NUL \<notin> set (dst_w b2)"
    by (rule escape_loop_NUL [OF b2])
  then show ?thesis
    using e' b1 b2 d by (cases dst) auto
qed

lemma jsonAddVal_NUL:
  assumes e: "jsonAddVal s dst all = Some dst'" and s: "NUL \<notin> set s" and d: "\<And>d. dst = Some d \<Longrightarrow> NUL \<notin> set d"
  shows "case dst' of Some d \<Rightarrow> NUL \<notin> set d | None \<Rightarrow> dst = None"
proof (cases "length (takeWhile json_plain s) < length s")
  case True
  then have "jsonAddVal_escaped s (length (takeWhile json_plain s)) dst all = Some dst'"
    using e by (simp add: jsonAddVal_def Let_def)
  then show ?thesis
    using jsonAddVal_escaped_NUL [OF _ s d] by fastforce
next
  case False
  then have "dst' = map_option (\<lambda>d. d @ s) dst"
    using e by (simp add: jsonAddVal_def Let_def)
  then show ?thesis
    using s d by (cases dst) auto
qed

lemma jsonEncode_wf:
  assumes "buf_wf b"
  shows "\<exists>b'. jsonEncode all b = Some b' \<and> buf_wf b'"
proof -
  obtain dst where d: "jsonAddVal (pRes b) None all = Some dst"
    using jsonAddVal_defined by (metis option.exhaust)
  have "NUL \<notin> set x" if "dst = Some x" for x
    using jsonAddVal_NUL [OF d buf_wf_NUL [OF assms]] that by simp
  then show ?thesis
    using d assms buf_wf_unknown by (cases dst) (simp_all add: jsonEncode_def buf_len_wf)
qed

lemma json_field_value_wf:
  assumes "NUL \<notin> set s" "NUL \<notin> set dst"
  shows "\<exists>d. json_field_value ty s dst all = Some (Some d) \<and> NUL \<notin> set d"
proof -
  have v: "\<exists>d'. jsonAddVal s (Some d) all = Some (Some d') \<and> NUL \<notin> set d'" if "NUL \<notin> set d" for d
  proof -
    obtain r where r: "jsonAddVal s (Some d) all = Some r"
      using jsonAddVal_defined by (metis option.exhaust)
    then show ?thesis
      using jsonAddVal_NUL [OF r assms(1)] that by (cases r) auto
  qed
  have q: "\<exists>d'. jsonAddVal s (Some (dst @ [CHR 0x22])) all = Some (Some d') \<and> NUL \<notin> set d'"
    using assms(2) NUL_quote by (intro v) auto
  have t: "NUL \<notin> set ''0''" "NUL \<notin> set ''true''" "NUL \<notin> set ''false''"
    by code_simp+
  show ?thesis
    using v [OF assms(2)] q NUL_quote t assms(2) by (cases ty) (auto simp: json_field_value_def Let_def)
qed

lemma jsonField_wf:
  assumes "buf_wf b" "NUL \<notin> set name"
  shows "\<exists>b'. jsonField name ty em all b = Some b' \<and> buf_wf b'"
proof -
  let ?d = "[CHR 0x22] @ name @ [CHR 0x22, CHR '':'']"
  have d: "NUL \<notin> set ?d"
    using assms(2) NUL_quote by auto
  have n: "NUL \<notin> set (?d @ ''null'')"
    using d by (auto simp: NUL_def)
  have s: "take (nat (buf_len b)) (pRes b) = pRes b"
    using buf_len_wf [OF assms(1)] by simp
  consider "pRes b = []" "em = TPE_DATAEMPTY_SKIP" | "pRes b = []" "em = TPE_DATAEMPTY_NULL"
    | "\<not> (pRes b = [] \<and> em = TPE_DATAEMPTY_SKIP)" "\<not> (pRes b = [] \<and> em = TPE_DATAEMPTY_NULL)"
    by blast
  then show ?thesis
  proof cases
    case 1
    then show ?thesis
      using assms(1) s by (simp add: jsonField_def)
  next
    case 2
    then have "jsonField name ty em all b = Some \<lparr>pRes = ?d @ ''null'', bufLen = int (length (?d @ ''null'')), bMustBeFreed = True\<rparr>"
      using s by (simp add: jsonField_def Let_def)
    then show ?thesis
      using buf_wf_copy [OF n] by blast
  next
    case 3
    obtain x where x: "json_field_value ty (pRes b) ?d all = Some (Some x)" "NUL \<notin> set x"
      using json_field_value_wf [OF buf_wf_NUL [OF assms(1)] d] by blast
    have "jsonField name ty em all b = Some \<lparr>pRes = x, bufLen = int (length x), bMustBeFreed = True\<rparr>"
      using 3 s x(1) unfolding jsonField_def Let_def by auto
    then show ?thesis
      using buf_wf_copy [OF x(2)] by blast
  qed
qed

definition some_wf :: "prop_buf option \<Rightarrow> bool" where
  "some_wf r \<longleftrightarrow> (case r of None \<Rightarrow> False | Some b \<Rightarrow> buf_wf b)"

lemma some_wf_bind:
  assumes "some_wf r" "\<And>b. buf_wf b \<Longrightarrow> some_wf (g b)"
  shows "some_wf (r \<bind> g)"
  using assms by (cases r) (simp_all add: some_wf_def)

lemma some_wf_Some [simp]: "some_wf (Some b) \<longleftrightarrow> buf_wf b"
  by (simp add: some_wf_def)

lemma space_if_none_wf: "buf_wf b \<Longrightarrow> buf_wf (space_if_none f b)"
  using fixed_texts by (simp add: space_if_none_def)

lemma copy_changed_wf:
  assumes "buf_wf b" "\<And>c. c \<noteq> NUL \<Longrightarrow> g c \<noteq> NUL"
  shows "some_wf (copy_changed g b)"
proof -
  have "NUL \<notin> set (map g (pRes b))"
    using assms buf_wf_NUL [OF assms(1)] by (auto simp: image_iff) metis
  then show ?thesis
    using assms(1) buf_wf_copy [of "map g (pRes b)" True] by (simp add: copy_changed_def buf_wf_c_str buf_len_wf Let_def)
qed

lemma case_not_NUL: "c \<noteq> NUL \<Longrightarrow> toupper c \<noteq> NUL" "c \<noteq> NUL \<Longrightarrow> tolower c \<noteq> NUL"
  using byte_val_bounds [of c]
  by (auto simp: toupper_def tolower_def byte_val_to_char byte_val_NUL simp flip: byte_val_inject)

lemma convert_case_wf: "buf_wf b \<Longrightarrow> some_wf (convert_case f b)"
  using copy_changed_wf case_not_NUL by (simp add: convert_case_def split: tplFormatCaseConvTypes.splits)

lemma cc_escape_NUL: "c \<noteq> NUL \<Longrightarrow> NUL \<notin> set (cc_escape c)"
proof -
  assume c: "c \<noteq> NUL"
  have "to_char i \<noteq> NUL" if "0 < i" "i < 256" for i
    using that by (simp add: byte_val_to_char byte_val_NUL flip: byte_val_inject)
  moreover have "byte_val c div 100 < 4" "byte_val c div 10 mod 10 < 10" "0 \<le> byte_val c div 100"
    using byte_val_bounds [of c] by simp_all
  ultimately have "to_char (48 + byte_val c div 100) \<noteq> NUL" "to_char (48 + byte_val c div 10 mod 10) \<noteq> NUL"
      "to_char (48 + byte_val c mod 10) \<noteq> NUL"
    by (simp_all add: add_pos_nonneg)
  then show ?thesis
    using c by (auto simp: cc_escape_def NUL_def)
qed

lemma control_chars_wf:
  assumes "buf_wf b"
  shows "some_wf (control_chars f b)"
proof -
  let ?s = "pRes b"
  let ?g = "\<lambda>c. if iscntrl c then CHR '' '' else c"
  have n: "NUL \<notin> set ?s"
    using assms by (rule buf_wf_NUL)
  have sp: "?g c \<noteq> NUL" if "c \<noteq> NUL" for c
    using that by (auto simp: NUL_def)
  have "NUL \<notin> set (concat (map cc_escape ?s))"
    using n by (auto simp: set_concat) (metis cc_escape_NUL)
  then have e: "buf_wf \<lparr>pRes = concat (map cc_escape ?s), bufLen = - 1, bMustBeFreed = True\<rparr>"
    by (rule buf_wf_unknown)
  have dr: "buf_wf \<lparr>pRes = filter (\<lambda>c. \<not> iscntrl c) ?s, bufLen = int (length (filter (\<lambda>c. \<not> iscntrl c) ?s)), bMustBeFreed = True\<rparr>"
    using n by (intro buf_wf_copy) simp
  have "NUL \<notin> set (map ?g ?s)"
    using n by (auto simp: image_iff NUL_def)
  then have "buf_wf (b\<lparr>pRes := map ?g ?s\<rparr>)"
    using assms by (simp add: buf_wf_def)
  then show ?thesis
    using assms e dr copy_changed_wf [OF assms sp] by (simp add: control_chars_def Let_def buf_wf_c_str)
qed

lemma secure_path_wf:
  assumes "buf_wf b" "bSecPathReplace (options f) \<longrightarrow> bSecPathDrop (options f)"
  shows "some_wf (secure_path f b)"
proof -
  have dots: "buf_wf (secpath_dots b')" if "buf_wf b'" for b'
  proof -
    have "NUL \<notin> set ''_''" "NUL \<notin> set ''_.''"
      by code_simp+
    then show ?thesis
      using that fixed_texts by (auto simp: secpath_dots_def Let_def buf_wf_c_str) (simp_all add: buf_wf_def)
  qed
  have "some_wf (secpath_slashes f b)" if "bSecPathDrop (options f)"
    using that assms(1) buf_wf_NUL [OF assms(1)] buf_wf_unknown [of "filter (\<lambda>c. c \<noteq> CHR ''/'') (pRes b)" True]
    by (simp add: secpath_slashes_def Let_def buf_wf_c_str)
  then show ?thesis
    using assms dots by (cases "secpath_slashes f b") (auto simp: secure_path_def)
qed

lemma drop_last_lf_wf:
  assumes "buf_wf b"
  shows "some_wf (drop_last_lf f b)"
proof -
  have l: "buf_len b = int (length (pRes b))"
    using assms by (rule buf_len_wf)
  have "buf_wf (b\<lparr>bufLen := buf_len b\<rparr>)"
    using assms l by (simp add: buf_wf_def)
  moreover have "buf_wf \<lparr>pRes = take (nat (buf_len b - 1)) (pRes b), bufLen = buf_len b - 1, bMustBeFreed = True\<rparr>" if "0 < buf_len b"
    using buf_wf_NUL [OF assms] l that by (auto simp: buf_wf_def dest: in_set_takeD)
  ultimately show ?thesis
    using assms l by (simp add: drop_last_lf_def Let_def)
qed

lemma set_compress: "set (compress h s) \<subseteq> set s"
  by (induction h s rule: compress.induct) auto

lemma compress_spaces_wf: "buf_wf b \<Longrightarrow> buf_wf (compress_spaces f b)"
  using set_compress [of False "pRes b"] buf_wf_NUL [of b] buf_wf_copy [of "compress False (pRes b)" True]
  by (auto simp: compress_spaces_def Let_def buf_wf_c_str)

lemma length_csv_quote: "length (csv_quote s) \<le> 2 * length s + 2"
  by (induction s) (auto simp: csv_quote_def)

lemma csv_quote_NUL: "NUL \<notin> set s \<Longrightarrow> NUL \<notin> set (csv_quote s)"
  using NUL_quote by (auto simp: csv_quote_def split: if_splits)

lemma format_value_wf:
  assumes "buf_wf b" "NUL \<notin> set (fieldName f)"
  shows "some_wf (format_value f b)"
proof -
  have "some_wf (format_csv b)"
    using assms(1) length_csv_quote [of "pRes b"] buf_wf_unknown [OF csv_quote_NUL [OF buf_wf_NUL [OF assms(1)]], of True]
    by (simp add: format_csv_def Let_def buf_wf_c_str buf_len_wf)
  moreover have "some_wf (jsonEncode all b)" for all
    using jsonEncode_wf [OF assms(1), of all] by auto
  moreover have "some_wf (jsonField (fieldName f) ty em all b)" for ty em all
    using jsonField_wf [OF assms, of ty em all] by auto
  ultimately show ?thesis
    using assms(1) by (simp add: format_value_def)
qed

definition tpe_field_ok :: "tpe_field \<Rightarrow> bool" where
  "tpe_field_ok f \<longleftrightarrow> position_ok f \<and> (has_fields f \<longrightarrow> field_delim f \<noteq> NUL) \<and> NUL \<notin> set (fieldName f)
     \<and> (bSecPathReplace (options f) \<longrightarrow> bSecPathDrop (options f))"

lemma change_text_wf:
  assumes "buf_wf b" "tpe_field_ok f"
  shows "some_wf (change_text f b)"
proof -
  let ?b = "space_if_none f b"
  have b: "buf_wf ?b"
    using assms(1) by (rule space_if_none_wf)
  have "some_wf (if deref (pRes ?b) \<noteq> NUL then convert_case f ?b \<bind> control_chars f else Some ?b)"
    using b some_wf_bind [OF convert_case_wf [OF b] control_chars_wf] by simp
  moreover have "some_wf (secure_path f x)" if "buf_wf x" for x
    using secure_path_wf [OF that] assms(2) by (simp add: tpe_field_ok_def)
  moreover have "some_wf (format_value f (compress_spaces f x))" if "buf_wf x" for x
    using format_value_wf [OF compress_spaces_wf [OF that]] assms(2) by (simp add: tpe_field_ok_def)
  ultimately show ?thesis
    unfolding change_text_def Let_def by (intro some_wf_bind drop_last_lf_wf)
qed

lemma early_return:
  "extract_field f b = Some (Inl r) \<Longrightarrow> bufLen r \<noteq> - 1" "extract_regex regexp f b = Some (Inl r) \<Longrightarrow> bufLen r \<noteq> - 1"
  "extract_position f b = Some (Inl r) \<Longrightarrow> bufLen r \<noteq> - 1"
  by (auto simp: extract_field_def extract_regex_def extract_match_def extract_position_def RET_OUT_OF_MEMORY_def ret_text_def Let_def
      split: option.splits prod.splits if_splits)

lemma out_okE:
  assumes "out_ok r"
  obtains b where "r = Some (Inl b)" "buf_wf b" | b where "r = Some (Inr b)" "buf_wf b"
  using assms by (auto simp: out_ok_def split: option.splits sum.splits)

lemma replacer_wf:
  assumes "buf_wf b" "tpe_field_ok f" "has_fields f \<or> regex_ok regexp f b"
  shows "\<exists>b'. replacer regexp f b = Some b' \<and> NUL \<notin> set (pRes b') \<and> bufLen b' = int (length (pRes b'))"
proof -
  have known: "NUL \<notin> set (pRes x) \<and> bufLen x = int (length (pRes x))" if "buf_wf x" "bufLen x \<noteq> - 1" for x
    using that by (simp add: buf_wf_def)
  define r where "r = (if has_fields f then extract_field f b else extract_regex regexp f b)"
  have "out_ok r"
    using extract_field_ok [of f b] extract_regex_ok [of regexp f b] assms by (auto simp: tpe_field_ok_def r_def)
  then show ?thesis
  proof (cases r rule: out_okE)
    case (1 x)
    moreover have "bufLen x \<noteq> - 1"
      using 1(1) early_return(1,2) by (auto simp: r_def split: if_splits)
    ultimately show ?thesis
      using known unfolding replacer_def r_def [symmetric] by simp
  next
    case (2 b1)
    have "out_ok (extract_position f b1)"
      using extract_position_ok 2(2) assms(2) by (simp add: tpe_field_ok_def)
    then show ?thesis
    proof (cases "extract_position f b1" rule: out_okE)
      case (1 x)
      then show ?thesis
        using 2(1) known early_return(3) unfolding replacer_def r_def [symmetric] by simp
    next
      case b2: (2 b2)
      obtain x where x: "change_text f b2 = Some x" "buf_wf x"
        using change_text_wf [OF b2(2) assms(2)] by (auto simp: some_wf_def split: option.splits)
      then show ?thesis
        using 2(1) b2(1) buf_len_wf [OF x(2)] buf_wf_NUL [OF x(2)] unfolding replacer_def r_def [symmetric] by simp
    qed
  qed
qed


definition no_options :: tpe_options where
  "no_options = \<lparr>bDropCC = False, bSpaceCC = False, bEscapeCC = False, bCompressSP = False, bDropLastLF = False,
     bSecPathDrop = False, bSecPathReplace = False, bSPIffNo1stSP = False, bCSV = False, bJSON = False, bJSONf = False,
     bJSONr = False, bJSONfr = False, bMandatory = False, bFromPosEndRelative = False, bFixedWidth = False, bDateInUTC = False,
     dataType = TPE_DATATYPE_STRING, onEmpty = TPE_DATAEMPTY_KEEP\<rparr>"

definition plain_field :: tpe_field where
  "plain_field = \<lparr>msgPropName = ''msg'', iFromPos = 0, iToPos = 0, iFieldNr = 0, has_regex = 0, iMatchToUse = 0, iSubMatchToUse = 0,
     typeRegexERE = False, nomatchAction = TPL_REGEX_NOMATCH_USE_DFLTSTR, has_fields = False, field_delim = CHR 0x09,
     eDateFormat = tplFmtDefault, eCaseConv = tplCaseConvNo, options = no_options, fieldName = ''msg'', bComplexProcessing = True\<rparr>"

text \<open>A matcher for the expression of one letter: the first byte of the string.\<close>

definition match_any :: regexec where
  "match_any s = (if s = [] then None else Some ((0, 1) # replicate 9 (- 1, - 1)))"

lemma match_any_ok: "regexec_ok match_any"
  by (auto simp: regexec_ok_def match_any_def Suc_le_eq split: if_splits)

definition sample_field :: tpe_field where
  "sample_field = plain_field\<lparr>has_regex := 1, iMatchToUse := 2, iFromPos := 1, iToPos := 7, eCaseConv := tplCaseConvUpper,
     options := no_options\<lparr>bEscapeCC := True, bSecPathDrop := True, bCompressSP := True, bJSON := True\<rparr>\<rparr>"


section \<open>What the stages compute\<close>

text \<open>The fields of a string.\<close>

fun split_at :: "char \<Rightarrow> string \<Rightarrow> string list" where
  "split_at d [] = [[]]"
| "split_at d (c # cs) = (if c = d then [] # split_at d cs else (c # hd (split_at d cs)) # tl (split_at d cs))"

lemma split_at_nonempty [simp]: "split_at d s \<noteq> []"
  by (cases s) auto

lemma hd_split_at: "hd (split_at d s) = takeWhile (\<lambda>c. c \<noteq> d) s"
  by (induction s) auto

lemma tl_split_at:
  "tl (split_at d s) = (let q = dropWhile (\<lambda>c. c \<noteq> d) s in if q = [] then [] else split_at d (tl q))"
  by (induction s) (auto simp: Let_def)

lemma skip_fields_split:
  assumes "NUL \<notin> set p" "d \<noteq> NUL" "cur \<le> nr"
  shows "skip_fields d nr cur p = Some (cur', p') \<Longrightarrow>
    (if nr - cur < int (length (split_at d p)) then cur' = nr \<and> split_at d p' = drop (nat (nr - cur)) (split_at d p) \<and> NUL \<notin> set p'
     else cur' < nr)"
  using assms
proof (induction d nr cur p rule: skip_fields.induct)
  case (1 d nr cur p)
  have q: "dropWhile (\<lambda>c. c \<noteq> NUL \<and> c \<noteq> d) p = dropWhile (\<lambda>c. c \<noteq> d) p"
    using 1(4) by (intro dropWhile_cong) auto
  define q where "q = dropWhile (\<lambda>c. c \<noteq> d) p"
  have qq: "q = [] \<or> (\<exists>r. q = d # r \<and> NUL \<notin> set r)"
    using 1(4) hd_dropWhile [of "\<lambda>c. c \<noteq> d" p] set_dropWhileD [of _ "\<lambda>c. c \<noteq> d" p]
    by (cases q) (auto simp: q_def [symmetric])
  have sp: "split_at d p = takeWhile (\<lambda>c. c \<noteq> d) p # (if q = [] then [] else split_at d (tl q))"
    using hd_split_at [of d p] tl_split_at [of d p] list.collapse [of "split_at d p"] unfolding q_def [symmetric] Let_def by simp
  show ?case
  proof (cases "deref p \<noteq> NUL \<and> cur < nr")
    case stop: False
    then have "cur' = cur" "p' = p"
      using 1(3) by (subst (asm) skip_fields.simps; simp)+
    moreover have "p = []" if "cur < nr"
      using stop that deref_eq_NUL [OF 1(4)] by simp
    ultimately show ?thesis
      using 1(4,6) by (cases "cur < nr") auto
  next
    case go: True
    show ?thesis
    proof (cases "q = []")
      case True
      then have "deref q \<noteq> d"
        using 1(5) by auto
      then have s: "skip_fields d nr cur p = skip_fields d nr cur q"
        using go by (subst skip_fields.simps) (simp only: q q_def [symmetric] Let_def simp_thms if_True if_False)
      have "skip_fields d nr cur q = Some (cur, [])"
        using True by (subst skip_fields.simps) simp
      then show ?thesis
        using s 1(3) go sp True by auto
    next
      case False
      then obtain r where r: "q = d # r" "NUL \<notin> set r"
        using qq by blast
      then have s: "skip_fields d nr cur p = skip_fields d nr (cur + 1) r"
        using go by (subst skip_fields.simps) (simp add: q q_def [symmetric] Let_def)
      have IH: "if nr - (cur + 1) < int (length (split_at d r)) then cur' = nr \<and> split_at d p' = drop (nat (nr - (cur + 1))) (split_at d r) \<and> NUL \<notin> set p'
          else cur' < nr"
        using 1(1) [OF go, of q] r 1(3,5) s go by (simp add: q q_def [symmetric])
      have "nat (nr - cur) = Suc (nat (nr - (cur + 1)))"
        using go by linarith
      then show ?thesis
        using IH sp r by (auto split: if_splits)
    qed
  qed
qed

text \<open>(C37) Extraction by field number returns the field of that number of the value split at the delimiter, and the
  text \<open>**FIELD NOT FOUND**\<close> if there are fewer fields.\<close>

theorem extract_field_correct:
  assumes "buf_wf b" "field_delim f \<noteq> NUL" "1 \<le> iFieldNr f"
  shows "extract_field f b =
    (let fields = split_at (field_delim f) (pRes b)
     in if iFieldNr f \<le> int (length fields)
        then Some (Inr \<lparr>pRes = fields ! nat (iFieldNr f - 1), bufLen = int (length (fields ! nat (iFieldNr f - 1))), bMustBeFreed = True\<rparr>)
        else Some (Inl (ret_text ''**FIELD NOT FOUND**'')))"
proof -
  let ?d = "field_delim f" and ?nr = "iFieldNr f" and ?fs = "split_at (field_delim f) (pRes b)"
  obtain cur p where p: "skip_fields ?d ?nr 1 (pRes b) = Some (cur, p)"
    using skip_fields_ok [OF assms(2) buf_wf_NUL [OF assms(1)]] by blast
  have c: "if ?nr - 1 < int (length ?fs) then cur = ?nr \<and> split_at ?d p = drop (nat (?nr - 1)) ?fs \<and> NUL \<notin> set p else cur < ?nr"
    using skip_fields_split [OF buf_wf_NUL [OF assms(1)] assms(2,3) p] .
  show ?thesis
  proof (cases "?nr \<le> int (length ?fs)")
    case True
    then have cur: "cur = ?nr" "split_at ?d p = drop (nat (?nr - 1)) ?fs" "NUL \<notin> set p"
      using c by auto
    have "takeWhile (\<lambda>c. c \<noteq> NUL \<and> c \<noteq> ?d) p = hd (split_at ?d p)"
      unfolding hd_split_at using cur(3) by (intro takeWhile_cong) auto
    also have "\<dots> = ?fs ! nat (?nr - 1)"
      unfolding cur(2) using True assms(3) by (intro hd_drop_conv_nth) simp
    finally show ?thesis
      using p cur(1) True by (simp add: extract_field_def Let_def)
  next
    case False
    then show ?thesis
      using p c by (simp add: extract_field_def Let_def)
  qed
qed

theorem extract_field_correct_witness:
  "extract_field (plain_field\<lparr>has_fields := True, iFieldNr := 2, field_delim := CHR '',''\<rparr>) \<lparr>pRes = ''a,bc,'', bufLen = - 1, bMustBeFreed = False\<rparr>
     = Some (Inr \<lparr>pRes = ''bc'', bufLen = 2, bMustBeFreed = True\<rparr>)"
  using extract_field_correct [of "\<lparr>pRes = ''a,bc,'', bufLen = - 1, bMustBeFreed = False\<rparr>"
      "plain_field\<lparr>has_fields := True, iFieldNr := 2, field_delim := CHR '',''\<rparr>"]
  by (simp add: buf_wf_def NUL_def plain_field_def)

text \<open>The reader of RFC 4180 for a quoted field.\<close>

fun csv_body :: "string \<Rightarrow> string option" where
  "csv_body [] = None"
| "csv_body (c # cs) =
     (if c = CHR 0x22 then
        case cs of [] \<Rightarrow> Some [] | d # ds \<Rightarrow> if d = CHR 0x22 then map_option ((#) c) (csv_body ds) else None
      else map_option ((#) c) (csv_body cs))"

definition csv_unquote :: "string \<Rightarrow> string option" where
  "csv_unquote s = (case s of c # cs \<Rightarrow> if c = CHR 0x22 then csv_body cs else None | [] \<Rightarrow> None)"

lemma csv_body_quote: "csv_body (concat (map (\<lambda>c. if c = CHR 0x22 then [c, c] else [c]) s) @ [CHR 0x22]) = Some s"
  by (induction s) auto

lemma csv_unquote_quote: "csv_unquote (csv_quote s) = Some s"
  using csv_body_quote [of s] by (simp add: csv_quote_def csv_unquote_def)

text \<open>(C38) A value formatted as CSV fits its buffer and a reader of RFC 4180 gets back exactly the value.\<close>

theorem format_csv_roundtrip:
  assumes "buf_wf b"
  shows "\<exists>b'. format_csv b = Some b' \<and> buf_wf b' \<and> csv_unquote (pRes b') = Some (pRes b)"
  using assms length_csv_quote [of "pRes b"] csv_unquote_quote buf_wf_unknown [OF csv_quote_NUL [OF buf_wf_NUL [OF assms]], of True]
  by (simp add: format_csv_def Let_def buf_wf_c_str buf_len_wf)

theorem format_csv_roundtrip_witness:
  "\<exists>b'. format_csv \<lparr>pRes = [CHR ''a'', CHR 0x22, CHR '',''], bufLen = 3, bMustBeFreed = False\<rparr> = Some b' \<and> buf_wf b'
     \<and> csv_unquote (pRes b') = Some [CHR ''a'', CHR 0x22, CHR '','']"
  using format_csv_roundtrip [of "\<lparr>pRes = [CHR ''a'', CHR 0x22, CHR '',''], bufLen = 3, bMustBeFreed = False\<rparr>"]
  by (simp add: buf_wf_def NUL_def)

text \<open>A name that stays inside its directory.\<close>

definition safe_name :: "string \<Rightarrow> bool" where
  "safe_name s \<longleftrightarrow> CHR ''/'' \<notin> set s \<and> s \<noteq> [] \<and> s \<noteq> ''.'' \<and> s \<noteq> ''..''"

definition only_secpath :: "tpe_field \<Rightarrow> bool" where
  "only_secpath f \<longleftrightarrow> bSecPathDrop (options f) \<and> \<not> bDropLastLF (options f) \<and> \<not> bCompressSP (options f)
     \<and> \<not> bCSV (options f) \<and> \<not> bJSON (options f) \<and> \<not> bJSONf (options f) \<and> \<not> bJSONr (options f) \<and> \<not> bJSONfr (options f)"

lemma safe_texts:
  "safe_name (pRes (ret_text ''**FIELD NOT FOUND**''))" "safe_name (pRes (ret_text ''**NO MATCH** **BAD REGULAR EXPRESSION**''))"
  "safe_name (pRes (ret_text ''***REGEXP NOT AVAILABLE***''))" "safe_name (pRes RET_OUT_OF_MEMORY)"
  by code_simp+

lemma secure_path_safe:
  assumes "buf_wf b" "bSecPathDrop (options f)" "secure_path f b = Some b'"
  shows "safe_name (pRes b')"
proof -
  obtain b1 where b1: "secpath_slashes f b = Some b1" "b' = secpath_dots b1"
    using assms(2,3) by (auto simp: secure_path_def)
  have "buf_wf b1" "CHR ''/'' \<notin> set (pRes b1)"
    using b1(1) assms(1,2) buf_wf_NUL [OF assms(1)] by (auto simp: secpath_slashes_def Let_def buf_wf_c_str buf_wf_def split: if_splits)
  moreover have "safe_name ''_''" "safe_name ''_.''"
    by code_simp+
  ultimately show ?thesis
    unfolding b1(2) by (auto simp: secpath_dots_def Let_def buf_wf_c_str ret_text_def safe_name_def)
qed

lemma change_text_safe:
  assumes "buf_wf b" "tpe_field_ok f" "only_secpath f" "change_text f b = Some b'"
  shows "safe_name (pRes b')"
proof -
  let ?b = "space_if_none f b"
  define r where "r = (if deref (pRes ?b) \<noteq> NUL then convert_case f ?b \<bind> control_chars f else Some ?b)"
  have b: "buf_wf ?b"
    using assms(1) by (rule space_if_none_wf)
  have "some_wf r"
    using b some_wf_bind [OF convert_case_wf [OF b] control_chars_wf] by (simp add: r_def)
  then obtain x where x: "r = Some x" "buf_wf x"
    by (cases r) (simp_all add: some_wf_def)
  have "drop_last_lf f y = Some y" "compress_spaces f y = y" "format_value f y = Some y" for y
    using assms(3) by (simp_all add: only_secpath_def drop_last_lf_def compress_spaces_def format_value_def)
  then have "change_text f b = secure_path f x"
    using x(1) unfolding change_text_def Let_def r_def [symmetric] by (cases "secure_path f x") simp_all
  then show ?thesis
    using secure_path_safe [OF x(2), of f b'] assms(3,4) by (simp add: only_secpath_def)
qed

lemma extract_early_safe:
  "extract_field f b = Some (Inl r) \<Longrightarrow> safe_name (pRes r)" "extract_regex regexp f b = Some (Inl r) \<Longrightarrow> safe_name (pRes r)"
  "extract_position f b = Some (Inl r) \<Longrightarrow> safe_name (pRes r)"
  using safe_texts
  by (auto simp: extract_field_def extract_regex_def extract_match_def extract_position_def Let_def
      split: option.splits prod.splits if_splits)



text \<open>(C40) Extraction by position, counted from one, returns the part of the value between the two positions, cut at its end.\<close>

theorem extract_position_correct:
  assumes "buf_wf b" "1 \<le> iFromPos f" "iFromPos f \<le> iToPos f" "iToPos f \<le> INT_MAX"
    "\<not> bFromPosEndRelative (options f)" "\<not> bFixedWidth (options f)"
  shows "\<exists>b'. extract_position f b = Some (Inr b') \<and> buf_wf b'
    \<and> pRes b' = take (nat (iToPos f - iFromPos f + 1)) (drop (nat (iFromPos f - 1)) (pRes b))"
proof -
  have z: "zero_based f len = (iFromPos f - 1, iToPos f - 1)" for len
    using assms by (simp add: zero_based_def to_int_nonneg Let_def)
  have len: "buf_len b = int (length (pRes b))"
    using assms(1) by (rule buf_len_wf)
  have "position_ok f"
    using assms by (simp add: position_ok_def)
  then have ok: "out_ok (extract_position f b)"
    using assms(1) by (rule extract_position_ok)
  let ?r = "take (nat (iToPos f - iFromPos f + 1)) (drop (nat (iFromPos f - 1)) (pRes b))"
  have "\<exists>b'. extract_position f b = Some (Inr b') \<and> pRes b' = ?r"
  proof (cases "buf_len b \<le> iToPos f - 1")
    case True
    then have "?r = drop (nat (iFromPos f - 1)) (pRes b)" "length (drop (nat (iFromPos f - 1)) (pRes b)) \<le> nat (buf_len b - 1 - (iFromPos f - 1) + 1)"
      using len assms(2,3) by auto
    then show ?thesis
      using True assms len unfolding extract_position_def z Let_def
      by (auto simp: buf_wf_c_str ret_text_def)
  next
    case False
    then have "length (take (nat (iToPos f - 1 - (iFromPos f - 1) + 1)) (drop (nat (iFromPos f - 1)) (pRes b))) = nat (iToPos f - 1 - (iFromPos f - 1) + 1)"
      using len assms(2,3) by auto
    then show ?thesis
      using False assms len unfolding extract_position_def z Let_def
      by (auto simp: buf_wf_c_str ret_text_def)
  qed
  then show ?thesis
    using ok by (auto simp: out_ok_def)
qed

theorem extract_position_correct_witness:
  "\<exists>b'. extract_position (plain_field\<lparr>iFromPos := 2, iToPos := 9\<rparr>) \<lparr>pRes = ''abcd'', bufLen = - 1, bMustBeFreed = False\<rparr> = Some (Inr b') \<and> buf_wf b'
     \<and> pRes b' = ''bcd''"
  using extract_position_correct [of "\<lparr>pRes = ''abcd'', bufLen = - 1, bMustBeFreed = False\<rparr>" "plain_field\<lparr>iFromPos := 2, iToPos := 9\<rparr>"]
  by (simp add: buf_wf_def NUL_def INT_MAX_def plain_field_def no_options_def)

section \<open>Where the replacer goes wrong\<close>

text \<open>A negative end position, accepted by \<open>position.to\<close>, lets the length of the copy become -1 for a value of the
  right length; the copy loop then runs away.\<close>

theorem negative_position_overruns:
  "extract_position (plain_field\<lparr>iFromPos := 5, iToPos := 4294967293\<rparr>) \<lparr>pRes = ''abcdef'', bufLen = 6, bMustBeFreed = False\<rparr> = None"
  by code_simp

text \<open>Replaced in place, the second of two adjacent slashes is skipped, and a slash at the end is overrun.\<close>

theorem secpath_replace_keeps_slash:
  "secure_path (plain_field\<lparr>options := no_options\<lparr>bSecPathReplace := True\<rparr>\<rparr>) \<lparr>pRes = ''a//b'', bufLen = 4, bMustBeFreed = True\<rparr>
     = Some \<lparr>pRes = ''a_/b'', bufLen = 4, bMustBeFreed = True\<rparr>
   \<and> secure_path (plain_field\<lparr>options := no_options\<lparr>bSecPathReplace := True\<rparr>\<rparr>) \<lparr>pRes = ''a/'', bufLen = 2, bMustBeFreed = True\<rparr> = None"
  by code_simp

text \<open>A trailing LF is dropped after the path has been secured, which brings \<open>..\<close> back.\<close>

theorem secpath_undone_by_drop_lf:
  "replacer None (plain_field\<lparr>options := no_options\<lparr>bSecPathDrop := True, bDropLastLF := True\<rparr>\<rparr>)
     \<lparr>pRes = [CHR ''.'', CHR ''.'', CHR 0x0A], bufLen = 3, bMustBeFreed = False\<rparr> = Some \<lparr>pRes = ''..'', bufLen = 2, bMustBeFreed = True\<rparr>"
  by code_simp

text \<open>If the expression matches but the requested group does not, the text for a missing match is set and then
  overwritten by an empty copy.\<close>

theorem regex_nomatch_text_lost:
  "replacer (Some match_any) (plain_field\<lparr>has_regex := 1, iSubMatchToUse := 1\<rparr>) \<lparr>pRes = ''abc'', bufLen = 3, bMustBeFreed = False\<rparr>
     = Some \<lparr>pRes = [], bufLen = 0, bMustBeFreed = True\<rparr>"
proof -
  have n: "65537 = Suc 65536"
    by simp
  have "regex_loop match_any 65537 0 ''abc'' 0 0 = Some (Some (0, (0, 1) # replicate 9 (- 1, - 1)))"
    unfolding n regex_loop.simps by (simp add: match_any_def)
  then show ?thesis
    by (simp add: replacer_def extract_regex_def plain_field_def c_str_def NUL_def extract_match_def extract_position_def
        change_text_def space_if_none_def no_options_def secure_path_def drop_last_lf_def compress_spaces_def format_value_def
        buf_len_def nomatch_text_def del: regex_loop.simps)
qed

end
