(* ===== verification/Datetime_Calendar.thy ===== *)
theory Datetime_Calendar
  imports Datetime_Format
begin

text \<open>
  Calendar arithmetic of \<open>runtime/datetime.c\<close>: conversion of a \<open>syslogTime\<close> to seconds
  since the epoch and back, weekday, day of the year and week numbers. The reference is the
  Gregorian calendar counted in days since 1970-01-01; \<open>gmtime_r\<close> of the C library is modelled
  by counting off years and months, \<open>localtime_r\<close>, which depends on the machine's zone, is an
  argument.
\<close>

section \<open>The Gregorian calendar\<close>

definition isleap :: "int \<Rightarrow> bool" where
  "isleap y \<longleftrightarrow> 4 dvd y \<and> (\<not> 100 dvd y \<or> 400 dvd y)"

definition year_len :: "int \<Rightarrow> int" where
  "year_len y = (if isleap y then 366 else 365)"

definition month_len :: "bool \<Rightarrow> int \<Rightarrow> int" where
  "month_len leap m = (if m = 2 then (if leap then 29 else 28) else if m \<in> {4, 6, 9, 11} then 30 else 31)"

text \<open>Days from 1970-01-01 to the first day of a year.\<close>

definition leaps_through :: "int \<Rightarrow> int" where
  "leaps_through y = y div 4 - y div 100 + y div 400"

definition days_before :: "int \<Rightarrow> int" where
  "days_before y = 365 * (y - 1970) + leaps_through (y - 1) - leaps_through 1969"

text \<open>Days in front of a month of the year.\<close>

fun days_before_month :: "bool \<Rightarrow> nat \<Rightarrow> int" where
  "days_before_month leap 0 = 0"
| "days_before_month leap (Suc 0) = 0"
| "days_before_month leap (Suc m) = days_before_month leap m + month_len leap (int m)"

section \<open>The C library\<close>

record tm =
  tm_sec :: int
  tm_min :: int
  tm_hour :: int
  tm_mday :: int
  tm_mon :: int
  tm_year :: int
  tm_wday :: int
  tm_gmtoff :: int

text \<open>The year of a day counted from the start of year \<open>y\<close>, and the month of a day of the
  year.\<close>

function gm_year :: "int \<Rightarrow> int \<Rightarrow> int \<times> int" where
  "gm_year y d =
     (if d < 0 then gm_year (y - 1) (d + year_len (y - 1))
      else if d < year_len y then (y, d)
      else gm_year (y + 1) (d - year_len y))"
  by pat_completeness auto

termination gm_year
  by (relation "measure (\<lambda>(y, d). if d < 0 then nat (1000 - d) else nat d)")
    (auto simp: year_len_def split: if_splits)

declare gm_year.simps [simp del]

lemma gm_year_code [code]:
  "gm_year y d =
     (case d < 0 of
        True \<Rightarrow> gm_year (y - 1) (d + year_len (y - 1))
      | False \<Rightarrow> (case d < year_len y of True \<Rightarrow> (y, d) | False \<Rightarrow> gm_year (y + 1) (d - year_len y)))"
  by (simp add: gm_year.simps [of y d] split: bool.split)

fun gm_month :: "bool \<Rightarrow> int list \<Rightarrow> int \<Rightarrow> int \<times> int" where
  "gm_month leap [] d = (0, 0)"
| "gm_month leap (m # ms) d =
     (if d < month_len leap m then (m, d + 1) else gm_month leap ms (d - month_len leap m))"

definition months :: "int list" where
  "months = [1, 2, 3, 4, 5, 6, 7, 8, 9, 10, 11, 12]"

definition gmtime_r :: "int \<Rightarrow> tm" where
  "gmtime_r t =
     (let d = t div 86400; s = t mod 86400;
          (y, yd) = gm_year 1970 d;
          (m, md) = gm_month (isleap y) months yd
      in \<lparr>tm_sec = s mod 60, tm_min = s div 60 mod 60, tm_hour = s div 3600, tm_mday = md,
          tm_mon = m - 1, tm_year = y - 1900, tm_wday = (d + 4) mod 7, tm_gmtoff = 0\<rparr>)"

section \<open>Conversions\<close>

definition yearInSec_startYear :: int where
  "yearInSec_startYear = 1967"

definition yearInSecs :: "int list" where
  "yearInSecs =
    [-63158401, -31536001, -1, 31535999, 63071999, 94694399, 126230399, 157766399,
     189302399, 220924799, 252460799, 283996799, 315532799, 347155199, 378691199, 410227199,
     441763199, 473385599, 504921599, 536457599, 567993599, 599615999, 631151999, 662687999,
     694223999, 725846399, 757382399, 788918399, 820454399, 852076799, 883612799, 915148799,
     946684799, 978307199, 1009843199, 1041379199, 1072915199, 1104537599, 1136073599, 1167609599,
     1199145599, 1230767999, 1262303999, 1293839999, 1325375999, 1356998399, 1388534399, 1420070399,
     1451606399, 1483228799, 1514764799, 1546300799, 1577836799, 1609459199, 1640995199, 1672531199,
     1704067199, 1735689599, 1767225599, 1798761599, 1830297599, 1861919999, 1893455999, 1924991999,
     1956527999, 1988150399, 2019686399, 2051222399, 2082758399, 2114380799, 2145916799, 2177452799,
     2208988799, 2240611199, 2272147199, 2303683199, 2335219199, 2366841599, 2398377599, 2429913599,
     2461449599, 2493071999, 2524607999, 2556143999, 2587679999, 2619302399, 2650838399, 2682374399,
     2713910399, 2745532799, 2777068799, 2808604799, 2840140799, 2871763199, 2903299199, 2934835199,
     2966371199, 2997993599, 3029529599, 3061065599, 3092601599, 3124223999, 3155759999, 3187295999,
     3218831999, 3250454399, 3281990399, 3313526399, 3345062399, 3376684799, 3408220799, 3439756799,
     3471292799, 3502915199, 3534451199, 3565987199, 3597523199, 3629145599, 3660681599, 3692217599,
     3723753599, 3755375999, 3786911999, 3818447999, 3849983999, 3881606399, 3913142399, 3944678399,
     3976214399, 4007836799, 4039372799, 4070908799, 4102444799]"

text \<open>\<open>timeval2syslogTime\<close> on a platform with \<open>tm_gmtoff\<close>; \<open>t\<close> is the structure
  that is overwritten.\<close>

definition timeval2syslogTime :: "(int \<Rightarrow> tm) \<Rightarrow> int \<Rightarrow> int \<Rightarrow> bool \<Rightarrow> syslogTime" where
  "timeval2syslogTime localtime_r tv_sec tv_usec utc =
     (let tm = (if utc then gmtime_r tv_sec else localtime_r tv_sec);
          (mode, lBias) =
            (if utc then (CHR ''+'', 0)
             else if tm_gmtoff tm < 0 then (CHR ''-'', - tm_gmtoff tm)
             else (CHR ''+'', tm_gmtoff tm))
      in \<lparr>timeType = 2, month = to_intTiny (tm_mon tm + 1), day = to_intTiny (tm_mday tm),
          wday = to_intTiny (tm_wday tm), hour = to_intTiny (tm_hour tm),
          minute = to_intTiny (tm_min tm), second = to_intTiny (tm_sec tm),
          secfracPrecision = 6, OffsetMinute = to_intTiny ((lBias smod 3600) sdiv 60),
          OffsetHour = to_intTiny (lBias sdiv 3600), OffsetMode = mode,
          year = to_short (tm_year tm + 1900), secfrac = to_int tv_usec, inUTC = utc\<rparr>)"

text \<open>The switch over the month in \<open>syslogTime2time_t\<close>.\<close>

definition MonthInDays :: "int \<Rightarrow> int" where
  "MonthInDays m =
     (if m = 1 then 0 else if m = 2 then 31 else if m = 3 then 59 else if m = 4 then 90
      else if m = 5 then 120 else if m = 6 then 151 else if m = 7 then 181 else if m = 8 then 212
      else if m = 9 then 243 else if m = 10 then 273 else if m = 11 then 304 else if m = 12 then 334
      else 0)"

definition syslogTime2time_t :: "syslogTime \<Rightarrow> int" where
  "syslogTime2time_t ts =
     (if year ts < 1970 \<or> year ts > 2100 then 0
      else
        let md = MonthInDays (month ts);
            md' = (if (year ts smod 100 \<noteq> 0 \<and> year ts smod 4 = 0 \<or> year ts = 2000) \<and> month ts > 2
                   then md + 1 else md);
            NumberOfYears = year ts - yearInSec_startYear - 1;
            NumberOfDays = md' + day ts - 1;
            TimeInUnixFormat = yearInSecs ! nat NumberOfYears + 1 + NumberOfDays * 86400
              + hour ts * 60 * 60 + minute ts * 60 + second ts;
            utcOffset = OffsetHour ts * 3600 + OffsetMinute ts * 60;
            utcOffset' = (if OffsetMode ts = CHR ''+'' then utcOffset * -1 else utcOffset)
        in TimeInUnixFormat + utcOffset')"

definition timeConvertToUTC :: "(int \<Rightarrow> tm) \<Rightarrow> syslogTime \<Rightarrow> syslogTime" where
  "timeConvertToUTC localtime_r loc =
     timeval2syslogTime localtime_r (syslogTime2time_t loc) (secfrac loc) True"

section \<open>Weekday, day of the year, weeks\<close>

definition getWeekdayNbr :: "syslogTime \<Rightarrow> int" where
  "getWeekdayNbr ts =
     (let (g, f) = (if month ts < 3 then (year ts - 1, month ts + 13) else (year ts, month ts + 1))
      in ((36525 * g) sdiv 100 + (306 * f) sdiv 10 + day ts - 621049) smod 7)"

definition getOrdinal :: "syslogTime \<Rightarrow> int" where
  "getOrdinal ts =
     (if year ts < 1970 \<or> year ts > 2100 then 0
      else
        let thistime = syslogTime2time_t ts;
            previousyears = yearInSecs ! nat (year ts - yearInSec_startYear - 1);
            utcOffset = OffsetHour ts * 3600 + OffsetMinute ts * 60;
            utcOffset' = (if OffsetMode ts = CHR ''+'' then utcOffset + -1 else utcOffset)
        in (thistime - (previousyears + utcOffset')) sdiv 86400)"

definition getWeek :: "syslogTime \<Rightarrow> int" where
  "getWeek ts =
     (let yt = ts\<lparr>timeType := 1, month := 1, day := 1, hour := 0, minute := 0, second := 0,
                 secfracPrecision := 0, secfrac := 0\<rparr>;
          weekNum = (getOrdinal ts + 6) sdiv 7
      in if getWeekdayNbr ts < getWeekdayNbr yt then weekNum + 1 else weekNum)"

definition weeksInYear :: "int list" where
  "weeksInYear =
    [52, 53, 52, 52, 52, 52, 52, 53, 52, 52, 52, 52, 53, 52, 52, 52, 52, 52, 53, 52, 52, 52,
     52, 53, 52, 52, 52, 52, 52, 53, 52, 52, 52, 52, 52, 53, 52, 52, 52, 52, 53, 52, 52, 52,
     52, 52, 53, 52, 52, 52, 52, 53, 52, 52, 52, 52, 52, 53, 52, 52, 52, 52, 52, 53, 52, 52,
     52, 52, 53, 52, 52, 52, 52, 52, 53, 52, 52, 52, 52, 53, 52, 52, 52, 52, 52, 53, 52, 52,
     52, 52, 52, 53, 52, 52, 52, 52, 53, 52, 52, 52, 52, 52, 53, 52, 52, 52, 52, 53, 52, 52,
     52, 52, 52, 53, 52, 52, 52, 52, 52, 53, 52, 52, 52, 52, 53, 52, 52, 52, 52, 52, 53, 52]"

text \<open>The week number and the year it belongs to.\<close>

definition getISOWeek :: "syslogTime \<Rightarrow> int \<times> int" where
  "getISOWeek ts =
     (let curDow = (if getWeekdayNbr ts = 0 then 7 else getWeekdayNbr ts);
          curYearDay = getOrdinal ts + 1;
          weekNum = (10 + curYearDay - curDow) sdiv 7
      in if weekNum = 0 then (weeksInYear ! nat (year ts - 1 - 1969), year ts - 1)
         else if weekNum > weeksInYear ! nat (year ts - 1969) then (1, year ts + 1)
         else (weekNum, year ts))"

section \<open>Counting days\<close>

lemma div_step: "0 < k \<Longrightarrow> y div k - (y - 1) div k = (if k dvd y then 1 else 0)" for y k :: int
proof -
  assume k: "0 < k"
  show ?thesis
  proof (cases "k dvd y")
    case True
    then obtain q where "y = k * q"
      by blast
    moreover have "(k * q - 1) div k = q - 1"
      using k int_div_pos_eq [of "k * q - 1" k "q - 1" "k - 1"] by (simp add: algebra_simps)
    ultimately show ?thesis
      using k True by simp
  next
    case False
    then have "0 < y mod k" "y mod k < k"
      using k pos_mod_sign [of k y] by (auto simp: dvd_eq_mod_eq_0 order_le_less)
    then have "(y - 1) div k = y div k"
      using int_div_pos_eq [of "y - 1" k "y div k" "y mod k - 1"] by (simp add: algebra_simps)
    with False show ?thesis
      by simp
  qed
qed

lemma leaps_through_step: "leaps_through y - leaps_through (y - 1) = (if isleap y then 1 else 0)"
proof -
  have dvd: "400 dvd y \<Longrightarrow> 100 dvd y" "100 dvd y \<Longrightarrow> 4 dvd y"
    by (rule dvd_trans [of _ 400]; simp) (rule dvd_trans [of _ 100]; simp)
  have sum: "(a - b + c) - (a' - b' + c') = (if P \<and> (\<not> Q \<or> R) then 1 else 0)"
    if "a - a' = (if P then 1 else 0)" "b - b' = (if Q then 1 else 0)" "c - c' = (if R then 1 else 0)"
      "R \<Longrightarrow> Q" "Q \<Longrightarrow> P" for a a' b b' c c' :: int and P Q R
    using that by (cases P; cases Q; cases R) simp_all
  show ?thesis
    unfolding leaps_through_def isleap_def
    by (rule sum [OF div_step div_step div_step dvd]) simp_all
qed

lemma days_before_Suc: "days_before (y + 1) = days_before y + year_len y"
  using leaps_through_step [of y] by (simp add: days_before_def year_len_def split: if_splits)

lemma gm_yearD:
  "gm_year y d = (y', d') \<Longrightarrow> days_before y' + d' = days_before y + d \<and> 0 \<le> d' \<and> d' < year_len y'"
proof (induction y d arbitrary: y' d' rule: gm_year.induct)
  case (1 y d)
  consider "d < 0" | "0 \<le> d" "d < year_len y" | "0 \<le> d" "\<not> d < year_len y"
    by linarith
  then show ?case
  proof cases
    case 1
    with "1.prems" have "gm_year (y - 1) (d + year_len (y - 1)) = (y', d')"
      by (simp add: gm_year.simps [of y d])
    with "1.IH"(1) [OF \<open>d < 0\<close>] show ?thesis
      using days_before_Suc [of "y - 1"] by auto
  next
    case 2
    with "1.prems" show ?thesis
      by (simp add: gm_year.simps [of y d])
  next
    case 3
    with "1.prems" have "gm_year (y + 1) (d - year_len y) = (y', d')"
      by (simp add: gm_year.simps [of y d])
    with "1.IH"(2) 3 show ?thesis
      using days_before_Suc [of y] by auto
  qed
qed

lemma gm_month_months:
  assumes "0 \<le> d" "d < (if leap then 366 else 365)" "gm_month leap months d = (m, md)"
  shows "m \<in> {1..12}" "days_before_month leap (nat m) + md - 1 = d" "1 \<le> md" "md \<le> month_len leap m"
  using assms
  by (cases leap; auto simp: months_def month_len_def numeral_eq_Suc split: if_splits)+

lemma days_before_month_eq:
  assumes "m \<in> {1..12}"
  shows "days_before_month leap (nat m) = MonthInDays m + (if leap \<and> m > 2 then 1 else 0)"
  using month_cases [OF assms]
  by (elim disjE) (simp_all add: MonthInDays_def month_len_def numeral_eq_Suc)

lemma yearInSecs_eq: "yearInSecs = map (\<lambda>k. 86400 * days_before (1968 + int k) - 1) [0..<133]"
  by code_simp

lemma yearInSecs_nth:
  assumes "y \<in> {1968..2100}"
  shows "yearInSecs ! nat (y - yearInSec_startYear - 1) = 86400 * days_before y - 1"
proof -
  have n: "nat (y - yearInSec_startYear - 1) < 133 - 0" "1968 + int (nat (y - yearInSec_startYear - 1)) = y"
    using assms by (auto simp: yearInSec_startYear_def)
  show ?thesis
    unfolding yearInSecs_eq nth_map_upt [OF n(1)] add_0 n(2) ..
qed

lemma leap_test:
  assumes "y \<in> {1970..2100}"
  shows "(y smod 100 \<noteq> 0 \<and> y smod 4 = 0 \<or> y = 2000) \<longleftrightarrow> isleap y"
proof -
  have "y = 2000" if "400 dvd y"
  proof -
    from that obtain q where "y = 400 * q"
      by blast
    with assms have "q = 5"
      by simp
    with \<open>y = 400 * q\<close> show ?thesis
      by simp
  qed
  then have "400 dvd y \<longleftrightarrow> y = 2000"
    by auto
  with assms show ?thesis
    unfolding isleap_def by (cases "y = 2000") (simp_all add: dvd_eq_mod_eq_0 conj_commute)
qed

text \<open>Seconds from the epoch to the time written in the structure, its zone left aside, and the
  zone's distance.\<close>

definition wall_seconds :: "syslogTime \<Rightarrow> int" where
  "wall_seconds t = 86400 * (days_before (year t) + days_before_month (isleap (year t)) (nat (month t)) + day t - 1)
     + 3600 * hour t + 60 * minute t + second t"

definition zone_seconds :: "syslogTime \<Rightarrow> int" where
  "zone_seconds t = (if OffsetMode t = CHR ''+'' then 1 else -1) * (OffsetHour t * 3600 + OffsetMinute t * 60)"

lemma syslogTime2time_t_eq:
  assumes "year t \<in> {1970..2100}" "month t \<in> {1..12}"
  shows "syslogTime2time_t t = wall_seconds t - zone_seconds t"
proof -
  have "\<not> (year t < 1970 \<or> year t > 2100)"
    using assms(1) by simp
  moreover have "year t \<in> {1968..2100}"
    using assms(1) by simp
  ultimately show ?thesis
    unfolding syslogTime2time_t_def Let_def yearInSecs_nth [OF \<open>year t \<in> {1968..2100}\<close>]
      leap_test [OF assms(1)]
    by (simp add: wall_seconds_def zone_seconds_def days_before_month_eq [OF assms(2)] algebra_simps)
qed

text \<open>The year in which a second lies.\<close>

definition year_of :: "int \<Rightarrow> int" where
  "year_of t = fst (gm_year 1970 (t div 86400))"

lemma gmtime_r_fields:
  assumes "year_of t \<in> {1970..2100}"
  shows "\<exists>yd. 0 \<le> yd \<and> yd < year_len (year_of t) \<and> days_before (year_of t) + yd = t div 86400
     \<and> tm_year (gmtime_r t) + 1900 = year_of t \<and> tm_mon (gmtime_r t) + 1 \<in> {1..12}
     \<and> days_before_month (isleap (year_of t)) (nat (tm_mon (gmtime_r t) + 1)) + tm_mday (gmtime_r t) - 1 = yd
     \<and> 1 \<le> tm_mday (gmtime_r t) \<and> tm_mday (gmtime_r t) \<le> 31"
proof -
  obtain y yd where y: "gm_year 1970 (t div 86400) = (y, yd)"
    by fastforce
  obtain m md where m: "gm_month (isleap y) months yd = (m, md)"
    by fastforce
  have D: "days_before y + yd = t div 86400" "0 \<le> yd" "yd < year_len y"
    using gm_yearD [OF y] by (auto simp: days_before_def)
  then have "yd < (if isleap y then 366 else 365)"
    by (simp add: year_len_def)
  note M = gm_month_months [OF D(2) this m]
  have "md \<le> 31"
    using M(4) by (auto simp: month_len_def split: if_splits)
  with D M show ?thesis
    by (intro exI [of _ yd]) (simp add: gmtime_r_def year_of_def y m Let_def)
qed

lemma clock_split:
  fixes s :: int
  assumes "0 \<le> s" "s < 86400"
  shows "3600 * (s div 3600) + 60 * (s div 60 mod 60) + s mod 60 = s" "0 \<le> s div 3600" "s div 3600 \<le> 23"
proof -
  have "s div 3600 = s div 60 div 60"
    by (simp add: zdiv_zmult2_eq [symmetric])
  moreover have "60 * (60 * q + r) + r' = 3600 * q + 60 * r + r'" for q r r' :: int
    by simp
  ultimately show "3600 * (s div 3600) + 60 * (s div 60 mod 60) + s mod 60 = s"
    by (metis mult_div_mod_eq)
  show "0 \<le> s div 3600" "s div 3600 \<le> 23"
    using assms zdiv_less [of 3600 s 24] by (auto simp: pos_imp_zdiv_nonneg_iff)
qed

lemma timeval2syslogTime_utc:
  assumes "year_of t \<in> {1970..2100}"
  shows "wall_seconds (timeval2syslogTime lt t us True) = t" "zone_seconds (timeval2syslogTime lt t us True) = 0"
    "year (timeval2syslogTime lt t us True) = year_of t" "month (timeval2syslogTime lt t us True) \<in> {1..12}"
proof -
  obtain yd where Y: "days_before (year_of t) + yd = t div 86400" "tm_year (gmtime_r t) + 1900 = year_of t"
    "tm_mon (gmtime_r t) + 1 \<in> {1..12}" "tm_mday (gmtime_r t) \<in> {1..31}"
    "days_before_month (isleap (year_of t)) (nat (tm_mon (gmtime_r t) + 1)) + tm_mday (gmtime_r t) - 1 = yd"
    using gmtime_r_fields [OF assms] by auto
  have T: "tm_hour (gmtime_r t) = t mod 86400 div 3600" "tm_min (gmtime_r t) = t mod 86400 div 60 mod 60"
    "tm_sec (gmtime_r t) = t mod 86400 mod 60"
    by (simp_all add: gmtime_r_def split_beta Let_def)
  have "0 \<le> t mod 86400" "t mod 86400 < 86400"
    by simp_all
  note C = clock_split [OF this]
  let ?u = "timeval2syslogTime lt t us True"
  have R: "tm_hour (gmtime_r t) \<in> {0..23}" "tm_min (gmtime_r t) \<in> {0..59}" "tm_sec (gmtime_r t) \<in> {0..59}"
    using C(2,3) by (auto simp: T)
  have F: "year ?u = year_of t" "month ?u = tm_mon (gmtime_r t) + 1" "day ?u = tm_mday (gmtime_r t)"
    "hour ?u = tm_hour (gmtime_r t)" "minute ?u = tm_min (gmtime_r t)" "second ?u = tm_sec (gmtime_r t)"
    using Y assms R by (simp_all add: timeval2syslogTime_def Let_def ranges)
  show "year ?u = year_of t" "month ?u \<in> {1..12}"
    using F Y by auto
  show "zone_seconds ?u = 0"
    by (simp add: timeval2syslogTime_def Let_def zone_seconds_def ranges)
  have D: "days_before (year_of t) + days_before_month (isleap (year_of t)) (nat (tm_mon (gmtime_r t) + 1))
      + tm_mday (gmtime_r t) - 1 = t div 86400"
    using Y(1,5) by simp
  have "wall_seconds ?u = 86400 * (t div 86400) + t mod 86400"
    unfolding wall_seconds_def F T D by (simp only: add.assoc C(1) [unfolded add.assoc])
  then show "wall_seconds ?u = t"
    by simp
qed


definition time_tz :: syslogTime where
  "time_tz = time0\<lparr>timeType := 2, month := 1, day := 1, hour := 0, minute := 30, second := 15,
     secfracPrecision := 6, secfrac := 250, OffsetMode := CHR ''+'', OffsetHour := 2, year := 2004\<rparr>"


lemma time_tz_seconds: "syslogTime2time_t time_tz = 1072909815"
  by code_simp

lemma time_tz_ok:
  "year time_tz \<in> {1970..2100}" "month time_tz \<in> {1..12}" "secfrac time_tz \<in> {0..INT_MAX}"
  by (simp_all add: time_tz_def INT_MAX_def)

lemma year_of_time_tz: "year_of 1072909815 = 2003"
  by code_simp


section \<open>Weekdays\<close>

lemma leap_1970_2099:
  assumes "y \<in> {1970..2099}"
  shows "isleap y \<longleftrightarrow> 4 dvd y" "leaps_through (y - 1) = (y - 1) div 4 - 15"
proof -
  have c: "(y - 1) div 100 = (if y \<le> 2000 then 19 else 20)"
    using assms int_div_pos_eq [of "y - 1" 100 19 "y - 1901"] int_div_pos_eq [of "y - 1" 100 20 "y - 2001"]
    by auto
  moreover have "(y - 1) div 400 = (if y \<le> 2000 then 4 else 5)"
    using assms int_div_pos_eq [of "y - 1" 400 4 "y - 1601"] int_div_pos_eq [of "y - 1" 400 5 "y - 2001"]
    by auto
  ultimately show "leaps_through (y - 1) = (y - 1) div 4 - 15"
    by (simp add: leaps_through_def)
  have "y = 2000" if "100 dvd y"
  proof -
    from that obtain q where "y = 100 * q"
      by blast
    with assms have "q = 20"
      by simp
    with \<open>y = 100 * q\<close> show ?thesis
      by simp
  qed
  then show "isleap y \<longleftrightarrow> 4 dvd y"
    by (auto simp: isleap_def)
qed

lemma days_before_1970_2099:
  assumes "y \<in> {1970..2099}"
  shows "days_before y = 365 * (y - 1970) + (y - 1) div 4 - 492"
  using leap_1970_2099(2) [OF assms] by (simp add: days_before_def leaps_through_def [of 1969])

text \<open>Days since the epoch of the date in the structure.\<close>

definition day_number :: "syslogTime \<Rightarrow> int" where
  "day_number t = days_before (year t) + days_before_month (isleap (year t)) (nat (month t)) + day t - 1"

lemma floor_365_25: "(36525 * g) div 100 = 365 * g + g div 4" for g :: int
proof -
  have "(36525 * g) div 100 = (25 * (365 * g * 4 + g)) div (25 * 4)"
    by (simp add: algebra_simps)
  also have "\<dots> = (365 * g * 4 + g) div 4"
    by (rule div_mult_mult1) simp
  also have "\<dots> = 365 * g + g div 4"
    by (rule div_mult_self3) simp
  finally show ?thesis .
qed

lemma weekday_count:
  assumes "y \<in> {1970..2099}" "m \<in> {1..12}"
  shows "(let (g, f) = (if m < 3 then (y - 1, m + 13) else (y, m + 1))
      in (36525 * g) div 100 + (306 * f) div 10) - 621049
    = days_before y + days_before_month (isleap y) (nat m) + 98556"
proof -
  have step: "y div 4 = (y - 1) div 4 + (if isleap y then 1 else 0)"
    using div_step [of 4 y] leap_1970_2099(1) [OF assms(1)] by (simp split: if_splits)
  obtain q where q: "(y - 1) div 4 = q"
    by simp
  show ?thesis
    using month_cases [OF assms(2)]
    unfolding floor_365_25 days_before_1970_2099 [OF assms(1)] days_before_month_eq [OF assms(2)] step Let_def q
    by (elim disjE) (simp_all add: MonthInDays_def step q)
qed

lemma getWeekdayNbr_eq:
  assumes "year t \<in> {1970..2099}" "month t \<in> {1..12}" "day t \<in> {1..31}"
  shows "getWeekdayNbr t = (day_number t + 4) mod 7"
proof -
  let ?N = "day_number t + 4 + 7 * 14079"
  have "0 \<le> days_before (year t)" "0 \<le> days_before_month (isleap (year t)) (nat (month t))"
    using assms(1,2) month_cases [OF assms(2)]
    by (auto simp: days_before_1970_2099 days_before_month_eq MonthInDays_def)
  then have pos: "0 \<le> ?N"
    using assms(3) by (simp add: day_number_def)
  let ?W = "let (g, f) = (if month t < 3 then (year t - 1, month t + 13) else (year t, month t + 1))
      in (36525 * g) div 100 + (306 * f) div 10"
  have "getWeekdayNbr t = (?W + day t - 621049) smod 7"
  proof (cases "month t < 3")
    case True
    with assms have "(36525 * (year t - 1)) sdiv 100 = (36525 * (year t - 1)) div 100"
      "(306 * (month t + 13)) sdiv 10 = (306 * (month t + 13)) div 10"
      by (intro sdiv_nonneg; simp)+
    with True show ?thesis
      by (simp only: getWeekdayNbr_def Let_def if_True split_conv)
  next
    case False
    with assms have "(36525 * year t) sdiv 100 = (36525 * year t) div 100"
      "(306 * (month t + 1)) sdiv 10 = (306 * (month t + 1)) div 10"
      by (intro sdiv_nonneg; simp)+
    with False show ?thesis
      by (simp only: getWeekdayNbr_def Let_def if_False split_conv)
  qed
  also have "?W + day t - 621049 = ?N"
    using weekday_count [OF assms(1,2)] unfolding day_number_def by linarith
  also have "?N smod 7 = (day_number t + 4) mod 7"
    by (simp only: smod_nonneg [OF pos zero_le_numeral] mod_mult_self2)
  finally show ?thesis .
qed

text \<open>(C31) \<open>getWeekdayNbr\<close> gives the weekday of the date (0 is Sunday) for every day of the
  years 1970 to 2099.\<close>

theorem getWeekdayNbr_correct:
  assumes "year t \<in> {1970..2099}" "month t \<in> {1..12}" "day t \<in> {1..31}"
  shows "getWeekdayNbr t = (day_number t + 4) mod 7"
  using assms by (rule getWeekdayNbr_eq)

theorem getWeekdayNbr_correct_witness: "getWeekdayNbr time_tz = 4"
proof -
  have "day_number time_tz = 12418"
    by code_simp
  then show ?thesis
    using getWeekdayNbr_correct [of time_tz] by (simp add: time_tz_def)
qed

section \<open>Day of the year and ISO weeks\<close>

definition second_of_year :: "syslogTime \<Rightarrow> int" where
  "second_of_year t = wall_seconds t - 86400 * days_before (year t)"

lemma getOrdinal_exact:
  assumes "year t \<in> {1970..2100}" "month t \<in> {1..12}"
  shows "getOrdinal t =
    (if OffsetMode t = CHR ''+'' then (second_of_year t + 2 - 2 * zone_seconds t) sdiv 86400
     else (second_of_year t + 1) sdiv 86400)"
proof -
  have y: "year t \<in> {1968..2100}" "\<not> (year t < 1970 \<or> year t > 2100)"
    using assms(1) by auto
  show ?thesis
    unfolding getOrdinal_def Let_def yearInSecs_nth [OF y(1)] syslogTime2time_t_eq [OF assms] if_not_P [OF y(2)]
    by (simp add: second_of_year_def zone_seconds_def algebra_simps)
qed

lemma second_of_year_day:
  assumes "hour t \<in> {0..23}" "minute t \<in> {0..59}" "second t \<in> {0..60}"
    and "\<not> (hour t = 23 \<and> minute t = 59 \<and> second t \<ge> 59)"
  shows "(second_of_year t + 1) div 86400 = day_number t - days_before (year t)"
proof -
  let ?r = "3600 * hour t + 60 * minute t + second t + 1"
  have "second_of_year t + 1 = 86400 * (day_number t - days_before (year t)) + ?r"
    by (simp add: second_of_year_def wall_seconds_def day_number_def)
  moreover have "0 \<le> ?r" "?r < 86400"
    using assms by auto
  ultimately show ?thesis
    using int_div_pos_eq by blast
qed

text \<open>A date of the calendar, and its place in the year.\<close>

definition valid_date :: "syslogTime \<Rightarrow> bool" where
  "valid_date t \<longleftrightarrow> month t \<in> {1..12} \<and> 1 \<le> day t \<and> day t \<le> month_len (isleap (year t)) (month t)"

lemma day_of_year_bounds:
  assumes "valid_date t"
  shows "0 \<le> day_number t - days_before (year t)" "day_number t - days_before (year t) < year_len (year t)"
proof -
  have m: "month t \<in> {1..12}"
    using assms by (simp add: valid_date_def)
  show "0 \<le> day_number t - days_before (year t)" "day_number t - days_before (year t) < year_len (year t)"
    using month_cases [OF m] assms
    unfolding valid_date_def day_number_def days_before_month_eq [OF m] year_len_def
    by (elim disjE; simp add: MonthInDays_def month_len_def split: if_splits)+
qed

definition in_last_second :: "syslogTime \<Rightarrow> bool" where
  "in_last_second t \<longleftrightarrow> hour t = 23 \<and> minute t = 59 \<and> second t \<ge> 59"

lemma getOrdinal_behind_utc:
  assumes "year t \<in> {1970..2100}" "valid_date t" "OffsetMode t \<noteq> CHR ''+''"
    and "hour t \<in> {0..23}" "minute t \<in> {0..59}" "second t \<in> {0..60}" "\<not> in_last_second t"
  shows "getOrdinal t = day_number t - days_before (year t)"
proof -
  have "month t \<in> {1..12}"
    using assms(2) by (simp add: valid_date_def)
  then have "getOrdinal t = (second_of_year t + 1) sdiv 86400"
    using getOrdinal_exact assms by simp
  also have "\<dots> = (second_of_year t + 1) div 86400"
    using assms day_of_year_bounds(1) [OF assms(2)]
    by (intro sdiv_nonneg) (auto simp: second_of_year_def wall_seconds_def day_number_def)
  also have "\<dots> = day_number t - days_before (year t)"
    using assms by (intro second_of_year_day) (auto simp: in_last_second_def)
  finally show ?thesis .
qed

text \<open>The Thursday of a day's week; the first Thursday of the epoch is day 0. An ISO week belongs to
  the year of its Thursday and is counted by it.\<close>

definition thursday :: "int \<Rightarrow> int" where
  "thursday n = n - (n + 3) mod 7 + 3"

definition is_iso_week :: "int \<Rightarrow> int \<Rightarrow> int \<Rightarrow> bool" where
  "is_iso_week n w y \<longleftrightarrow>
     days_before y \<le> thursday n \<and> thursday n < days_before (y + 1)
     \<and> w = (thursday n - days_before y) div 7 + 1"

lemma thursday_bounds: "n - 3 \<le> thursday n" "thursday n \<le> n + 3" "\<exists>a. thursday n = 7 * a"
proof -
  have "0 \<le> (n + 3) mod 7" "(n + 3) mod 7 < 7"
    by simp_all
  then show "n - 3 \<le> thursday n" "thursday n \<le> n + 3"
    unfolding thursday_def by linarith+
  have "thursday n = 7 * ((n + 3) div 7)"
    using minus_mod_eq_mult_div [of "n + 3" 7] by (simp add: thursday_def)
  then show "\<exists>a. thursday n = 7 * a"
    by blast
qed

lemma weeksInYear_eq:
  "weeksInYear = map (\<lambda>k. (thursday (days_before (1970 + int k) - 4) - days_before (1969 + int k)) div 7 + 1) [0..<132]"
  by code_simp

lemma weeksInYear_nth:
  assumes "y \<in> {1969..2100}"
  shows "weeksInYear ! nat (y - 1969) = (thursday (days_before (y + 1) - 4) - days_before y) div 7 + 1"
proof -
  have n: "nat (y - 1969) < 132 - 0" "1969 + int (nat (y - 1969)) = y" "1970 + int (nat (y - 1969)) = y + 1"
    using assms by auto
  show ?thesis
    unfolding weeksInYear_eq nth_map_upt [OF n(1)] add_0 n(2,3) ..
qed

lemma week_arith:
  fixes a b D D' :: int
  assumes "D' - 7 \<le> 7 * b" "7 * b \<le> D' - 1" "D \<le> 7 * a"
  shows "(7 * a - D) div 7 + 1 > (7 * b - D) div 7 + 1 \<longleftrightarrow> D' \<le> 7 * a"
proof -
  have "(7 * a - D) div 7 = a + (- D) div 7" "(7 * b - D) div 7 = b + (- D) div 7"
    using div_mult_self4 [of 7 a "- D"] div_mult_self4 [of 7 b "- D"] by simp_all
  with assms show ?thesis
    by auto
qed

lemma iso_week_cases:
  assumes n: "D \<le> n" "n < days_before (y + 1)" and D: "D = days_before y"
    and y: "y \<in> {1970..2099}"
  defines "w \<equiv> (10 + (n - D + 1) - ((n + 3) mod 7 + 1)) div 7"
  shows "w = 0 \<Longrightarrow> is_iso_week n (weeksInYear ! nat (y - 1 - 1969)) (y - 1)"
    and "w \<noteq> 0 \<Longrightarrow> w > weeksInYear ! nat (y - 1969) \<Longrightarrow> is_iso_week n 1 (y + 1)"
    and "w \<noteq> 0 \<Longrightarrow> \<not> w > weeksInYear ! nat (y - 1969) \<Longrightarrow> is_iso_week n w y"
proof -
  define D' where "D' = days_before (y + 1)"
  have len: "D' = D + year_len y" "D = days_before (y - 1) + year_len (y - 1)" "days_before (y + 1 + 1) = D' + year_len (y + 1)"
    using days_before_Suc [of y] days_before_Suc [of "y - 1"] days_before_Suc [of "y + 1"] D
    by (simp_all add: D'_def)
  have L: "365 \<le> year_len z" for z
    by (simp add: year_len_def)
  obtain a where a: "thursday n = 7 * a"
    using thursday_bounds(3) by blast
  have w: "w = (7 * a - D) div 7 + 1"
  proof -
    have "w = (7 * a - D + 7) div 7"
      using a unfolding w_def thursday_def by (intro arg_cong [of _ _ "\<lambda>x. x div 7"]) linarith
    then show ?thesis
      by simp
  qed
  have bounds: "n - 3 \<le> 7 * a" "7 * a \<le> n + 3"
    using thursday_bounds(1,2) [of n] a by auto
  have T: "thursday (z - 4) = 7 * b \<Longrightarrow> z - 7 \<le> 7 * b \<and> 7 * b \<le> z - 1" for z b
    using thursday_bounds(1,2) [of "z - 4"] by simp
  obtain b where b: "thursday (D' - 4) = 7 * b"
    using thursday_bounds(3) by blast
  have W: "weeksInYear ! nat (y - 1969) = (7 * b - D) div 7 + 1"
    using weeksInYear_nth [of y] y b D by (simp add: D'_def)
  {
    assume "w = 0"
    then have "7 * a - D < 0"
      using w by (simp add: neg_imp_zdiv_neg_iff)
    moreover obtain c where c: "thursday (D - 4) = 7 * c"
      using thursday_bounds(3) by blast
    ultimately have "c = a"
      using T [OF c] bounds n by linarith
    then show "is_iso_week n (weeksInYear ! nat (y - 1 - 1969)) (y - 1)"
      using weeksInYear_nth [of "y - 1"] y c D \<open>7 * a - D < 0\<close> bounds n len(2) L [of "y - 1"]
      by (simp add: is_iso_week_def a)
  next
    assume "w \<noteq> 0"
    then have "D \<le> 7 * a"
      using w bounds n by (intro leI notI) (simp add: int_div_pos_eq [of _ 7 "-1" "7 + (7 * a - D)"])
    note C = week_arith [OF conjunct1 [OF T [OF b]] conjunct2 [OF T [OF b]] this]
    show "is_iso_week n 1 (y + 1)" if "w > weeksInYear ! nat (y - 1969)"
    proof -
      have "D' \<le> 7 * a" "7 * a - D' < 7"
        using C that bounds n unfolding w W D'_def by auto
      then show ?thesis
        using len(3) L [of "y + 1"] by (simp add: is_iso_week_def a D'_def)
    qed
    show "is_iso_week n w y" if "\<not> w > weeksInYear ! nat (y - 1969)"
      using C that \<open>D \<le> 7 * a\<close> D unfolding W is_iso_week_def a w D'_def by auto
  }
qed


lemma iso_dow: "(if (n + 4) mod 7 = 0 then 7 else (n + 4) mod 7) = (n + 3) mod 7 + 1" for n :: int
proof -
  have b: "0 \<le> (n + 3) mod 7" "(n + 3) mod 7 < 7"
    by simp_all
  have "(n + 4) mod 7 = ((n + 3) mod 7 + 1) mod 7"
    using mod_add_left_eq [of "n + 3" 7 1] by (simp add: add.commute)
  then show ?thesis
    using b by (cases "(n + 3) mod 7 = 6") (simp_all add: mod_pos_pos_trivial)
qed


definition time_iso :: syslogTime where
  "time_iso = time0\<lparr>month := 1, day := 1, hour := 12, OffsetMode := CHR ''Z'', year := 2021\<rparr>"


text \<open>\<open>getOrdinal\<close> can leave the range 0 to 365 of the table \<open>daysInYear\<close> (366
  entries) that its callers index with the result: for every zone written with a plus sign it is
  computed from the second of the year less twice the offset, so that it is -1 just after midnight
  of January 1st in zone +13:00, and it is 366 in the last second of a leap year.\<close>

theorem getOrdinal_leaves_table:
  "getOrdinal (time0\<lparr>month := 1, day := 1, OffsetMode := CHR ''+'', OffsetHour := 13, year := 2020\<rparr>) = -1
   \<and> getOrdinal (time0\<lparr>month := 12, day := 31, hour := 23, minute := 59, second := 59,
       OffsetMode := CHR ''Z'', year := 2020\<rparr>) = 366"
  by code_simp

end
