(* ===== verification/Msg_Prop.thy ===== *)
theory Msg_Prop
  imports Prop_Replacer Datetime_Calendar Tcps_Sess
begin

text \<open>
  Message properties (\<open>runtime/msg.c\<close>): their names and identifiers, the texts of the timestamps with
  the caches in the message, the properties of the current time, and \<open>MsgGetProp\<close>, which selects the
  value and hands it to the property replacer.

  Values that come from elsewhere are fields of an environment: the resolved name and address of the sender,
  the name of the input, JSON variables, the clock and the time zone rules of the C library, the
  system's uptime. None stands for an index outside one of the tables.
\<close>

section \<open>Names and identifiers\<close>

definition property_names :: "(string \<times> int) list" where
  "property_names = [(''msg'', 1), (''timestamp'', 2), (''timereported'', 2), (''hostname'', 3), (''source'', 3), (''syslogtag'', 4),
     (''rawmsg'', 5), (''rawmsg-after-pri'', 25), (''inputname'', 6), (''fromhost'', 7), (''fromhost-ip'', 8), (''pri'', 9),
     (''pri-text'', 10), (''iut'', 11), (''syslogfacility'', 12), (''syslogfacility-text'', 13), (''syslogseverity'', 14),
     (''syslogpriority'', 14), (''syslogseverity-text'', 15), (''syslogpriority-text'', 15), (''timegenerated'', 16),
     (''programname'', 17), (''protocol-version'', 18), (''structured-data'', 19), (''app-name'', 20), (''procid'', 21), (''msgid'', 22),
     (''jsonmesg'', 24), (''parsesuccess'', 23), (''uuid'', 161), (''$now'', 150), (''$year'', 151), (''$month'', 152), (''$day'', 153),
     (''$hour'', 154), (''$hhour'', 155), (''$qhour'', 156), (''$minute'', 157), (''$wday'', 170), (''$now-utc'', 162),
     (''$year-utc'', 163), (''$month-utc'', 164), (''$day-utc'', 165), (''$hour-utc'', 166), (''$hhour-utc'', 167), (''$qhour-utc'', 168),
     (''$minute-utc'', 169), (''$wday-utc'', 171), (''$now-unixtimestamp'', 173), (''$myhostname'', 158), (''$!all-json'', 201),
     (''$!all-json-plain'', 204), (''$bom'', 159), (''$uptime'', 160)]"

definition PROP_CEE :: int where "PROP_CEE = 200"
definition PROP_LOCAL_VAR :: int where "PROP_LOCAL_VAR = 202"
definition PROP_GLOBAL_VAR :: int where "PROP_GLOBAL_VAR = 203"

definition propNameToID :: "string \<Rightarrow> int \<times> rsRetVal" where
  "propNameToID name =
     (case map_of property_names (map tolower name) of
        Some i \<Rightarrow> (i, RS_RET_OK)
      | None \<Rightarrow>
          if take 2 name = ''$!'' \<or> deref name = CHR ''!'' then (PROP_CEE, RS_RET_OK)
          else if take 2 name = ''$.'' \<or> deref name = CHR ''.'' then (PROP_LOCAL_VAR, RS_RET_OK)
          else if take 2 name = ''$/'' \<or> deref name = CHR ''/'' then (PROP_GLOBAL_VAR, RS_RET_OK)
          else (0, RS_RET_VAR_NOT_FOUND))"

definition property_ids :: "(int \<times> string) list" where
  "property_ids = [(1, ''msg''), (2, ''timestamp''), (3, ''hostname''), (4, ''syslogtag''), (5, ''rawmsg''), (25, ''rawmsg-after-pri''),
     (6, ''inputname''), (7, ''fromhost''), (8, ''fromhost-ip''), (9, ''pri''), (10, ''pri-text''), (11, ''iut''), (12, ''syslogfacility''),
     (13, ''syslogfacility-text''), (14, ''syslogseverity''), (15, ''syslogseverity-text''), (16, ''timegenerated''), (17, ''programname''),
     (18, ''protocol-version''), (19, ''structured-data''), (20, ''app-name''), (21, ''procid''), (22, ''msgid''), (24, ''jsonmesg''),
     (23, ''parsesuccess''), (161, ''uuid''), (150, ''$NOW''), (151, ''$YEAR''), (152, ''$MONTH''), (153, ''$DAY''), (154, ''$HOUR''),
     (155, ''$HHOUR''), (156, ''$QHOUR''), (157, ''$MINUTE''), (162, ''$NOW-UTC''), (163, ''$YEAR-UTC''), (164, ''$MONTH-UTC''),
     (165, ''$DAY-UTC''), (166, ''$HOUR-UTC''), (167, ''$HHOUR-UTC''), (168, ''$QHOUR-UTC''), (169, ''$MINUTE-UTC''), (170, ''$WDAY''),
     (171, ''$WDAY-UTC''), (173, ''$NOW-UNIXTIMESTAMP''), (158, ''$MYHOSTNAME''), (201, ''$!all-json''), (204, ''$!all-json-plain''),
     (159, ''$BOM''), (160, ''$UPTIME''), (200, ''*CEE-based property*''), (202, ''*LOCAL_VARIABLE*''), (203, ''*GLOBAL_VARIABLE*'')]"

definition propIDToName :: "int \<Rightarrow> string" where
  "propIDToName propID = (case map_of property_ids propID of Some n \<Rightarrow> n | None \<Rightarrow> ''*invalid property id*'')"

section \<open>Texts of a timestamp\<close>

definition two_digits_tab :: "int \<Rightarrow> string option" where
  "two_digits_tab i = (if 0 \<le> i \<and> i < 100 then Some (two_digits i) else None)"

definition wdayNames :: "string list" where
  "wdayNames = [''Sun'', ''Mon'', ''Tue'', ''Wed'', ''Thu'', ''Fri'', ''Sat'']"

definition wdayNames_tab :: "int \<Rightarrow> string option" where
  "wdayNames_tab i = (if 0 \<le> i \<and> i < 7 then Some (wdayNames ! nat i) else None)"

definition one_digit_tab :: "int \<Rightarrow> string option" where
  "one_digit_tab i = (if 0 \<le> i \<and> i < 10 then Some [to_char (48 + i)] else None)"

definition daysInYear_tab :: "int \<Rightarrow> string option" where
  "daysInYear_tab i = (if 0 \<le> i \<and> i < 366 then Some [digit_of (i + 1) 100, digit_of (i + 1) 10, digit_of (i + 1) 1] else None)"

definition formatTimestampUnix :: "syslogTime \<Rightarrow> string" where
  "formatTimestampUnix ts = take 10 (dec_str (nat (to_uint (syslogTime2time_t ts))))"

definition formatISOWeekOrYear :: "tplFormatTypes \<Rightarrow> syslogTime \<Rightarrow> string option" where
  "formatISOWeekOrYear eFmt t =
     (if 1970 \<le> year t \<and> year t \<le> 2099 then
        let (isoWeek, isoWeekYear) = getISOWeek t
        in if eFmt = tplFmtISOWeek then two_digits_tab isoWeek else Some (four_digits isoWeekYear)
      else Some ''YEAR OUT OF RANGE(1970-2099)'')"

text \<open>The formats that are not cached.\<close>

definition part_text :: "tplFormatTypes \<Rightarrow> syslogTime \<Rightarrow> string option" where
  "part_text eFmt t =
     (case eFmt of
        tplFmtWDayName \<Rightarrow> wdayNames_tab (getWeekdayNbr t)
      | tplFmtWDay \<Rightarrow> one_digit_tab (getWeekdayNbr t)
      | tplFmtMonth \<Rightarrow> two_digits_tab (month t)
      | tplFmtYear \<Rightarrow> Some (if 1967 \<le> year t \<and> year t \<le> 2099 then four_digits (year t) else ''YEAR OUT OF RANGE(1967-2099)'')
      | tplFmtDay \<Rightarrow> two_digits_tab (day t)
      | tplFmtHour \<Rightarrow> two_digits_tab (hour t)
      | tplFmtMinute \<Rightarrow> two_digits_tab (minute t)
      | tplFmtSecond \<Rightarrow> two_digits_tab (second t)
      | tplFmtTZOffsHour \<Rightarrow> two_digits_tab (OffsetHour t)
      | tplFmtTZOffsMin \<Rightarrow> two_digits_tab (OffsetMinute t)
      | tplFmtTZOffsDirection \<Rightarrow> Some (if OffsetMode t = CHR ''+'' then ''+'' else ''-'')
      | tplFmtOrdinal \<Rightarrow> daysInYear_tab (getOrdinal t)
      | tplFmtWeek \<Rightarrow> two_digits_tab (getWeek t)
      | _ \<Rightarrow> formatISOWeekOrYear eFmt t)"

text \<open>The texts a message keeps for each of its two timestamps. The short ones are empty when not set.\<close>

record time_cache =
  c3164 :: "string option"
  cMySQL :: "string option"
  cPgSQL :: "string option"
  c3339 :: "string option"
  cUnix :: string
  cSecFrac :: string

definition no_cache :: time_cache where
  "no_cache = \<lparr>c3164 = None, cMySQL = None, cPgSQL = None, c3339 = None, cUnix = [], cSecFrac = []\<rparr>"

definition cached :: "string option \<Rightarrow> string \<Rightarrow> string" where
  "cached c s = (case c of Some t \<Rightarrow> t | None \<Rightarrow> s)"

definition getTimeReported :: "time_cache \<Rightarrow> syslogTime \<Rightarrow> tplFormatTypes \<Rightarrow> (string \<times> time_cache) option" where
  "getTimeReported c t eFmt =
     (if eFmt \<in> {tplFmtDefault, tplFmtRFC3164Date, tplFmtRFC3164BuggyDate} then
        let s = cached (c3164 c) (fst (formatTimestamp3164 t (eFmt = tplFmtRFC3164BuggyDate))) in Some (s, c\<lparr>c3164 := Some s\<rparr>)
      else if eFmt = tplFmtMySQLDate then
        let s = cached (cMySQL c) (fst (formatTimestampToMySQL t)) in Some (s, c\<lparr>cMySQL := Some s\<rparr>)
      else if eFmt = tplFmtPgSQLDate then
        let s = cached (cPgSQL c) (fst (formatTimestampToPgSQL t)) in Some (s, c\<lparr>cPgSQL := Some s\<rparr>)
      else if eFmt = tplFmtRFC3339Date then
        let s = cached (c3339 c) (fst (formatTimestamp3339 t)) in Some (s, c\<lparr>c3339 := Some s\<rparr>)
      else if eFmt = tplFmtUnixDate then
        let s = (if cUnix c = [] then formatTimestampUnix t else cUnix c) in Some (s, c\<lparr>cUnix := s\<rparr>)
      else if eFmt = tplFmtSecFrac then
        let s = (if cSecFrac c = [] then fst (formatTimestampSecFrac t) else cSecFrac c) in Some (s, c\<lparr>cSecFrac := s\<rparr>)
      else map_option (\<lambda>s. (s, c)) (part_text eFmt t))"

text \<open>The same for the time of reception.\<close>

definition getTimeGenerated :: "time_cache \<Rightarrow> syslogTime \<Rightarrow> tplFormatTypes \<Rightarrow> (string \<times> time_cache) option" where
  "getTimeGenerated c t eFmt = getTimeReported c t eFmt"

definition getTimeUTC :: "(int \<Rightarrow> tm) \<Rightarrow> syslogTime \<Rightarrow> tplFormatTypes \<Rightarrow> string option" where
  "getTimeUTC localtime_r tIn eFmt =
     (let t = timeConvertToUTC localtime_r tIn
      in if eFmt \<in> {tplFmtDefault, tplFmtRFC3164Date} then Some (fst (formatTimestamp3164 t False))
         else if eFmt = tplFmtRFC3164BuggyDate then Some (fst (formatTimestamp3164 t True))
         else if eFmt = tplFmtMySQLDate then Some (fst (formatTimestampToMySQL t))
         else if eFmt = tplFmtPgSQLDate then Some (fst (formatTimestampToPgSQL t))
         else if eFmt = tplFmtRFC3339Date then Some (fst (formatTimestamp3339 t))
         else if eFmt = tplFmtUnixDate then Some (formatTimestampUnix t)
         else if eFmt = tplFmtSecFrac then Some (fst (formatTimestampSecFrac t))
         else part_text eFmt t)"

datatype eNOWType = NOW_NOW | NOW_YEAR | NOW_MONTH | NOW_DAY | NOW_HOUR | NOW_HHOUR | NOW_QHOUR | NOW_MINUTE | NOW_WDAY

definition getNOW :: "(bool \<Rightarrow> syslogTime) \<Rightarrow> eNOWType \<Rightarrow> syslogTime option \<Rightarrow> bool \<Rightarrow> string option" where
  "getNOW getCurrTime eNow t0 utc =
     (let t1 = (case t0 of None \<Rightarrow> getCurrTime utc | Some t \<Rightarrow> t);
          t = (if year t1 = 0 \<or> inUTC t1 \<noteq> utc then getCurrTime utc else t1);
          yr = (do { a \<leftarrow> two_digits_tab (year t sdiv 100); b \<leftarrow> two_digits_tab (year t smod 100); Some (a @ b) })
      in case eNow of
        NOW_NOW \<Rightarrow> do { y \<leftarrow> yr; m \<leftarrow> two_digits_tab (month t); d \<leftarrow> two_digits_tab (day t); Some (y @ ''-'' @ m @ ''-'' @ d) }
      | NOW_YEAR \<Rightarrow> yr
      | NOW_MONTH \<Rightarrow> two_digits_tab (month t)
      | NOW_DAY \<Rightarrow> two_digits_tab (day t)
      | NOW_HOUR \<Rightarrow> two_digits_tab (hour t)
      | NOW_HHOUR \<Rightarrow> two_digits_tab (minute t sdiv 30)
      | NOW_QHOUR \<Rightarrow> two_digits_tab (minute t sdiv 15)
      | NOW_MINUTE \<Rightarrow> two_digits_tab (minute t)
      | NOW_WDAY \<Rightarrow> one_digit_tab (wday t))"

section \<open>The value of a property\<close>

definition getPRI :: "smsg \<Rightarrow> string" where
  "getPRI m = (let iPRI = getPRIi m in if 191 < iPRI then ''invld'' else dec_str (unat iPRI))"

definition textpri :: "smsg \<Rightarrow> string option" where
  "textpri m =
     (if unat (iFacility m) < 25 \<and> unat (iSeverity m) < 8
      then Some (syslog_fac_names ! unat (iFacility m) @ ''.'' @ syslog_severity_names ! unat (iSeverity m)) else None)"

record prop_env =
  permitSlash :: bool
  inputName :: string
  resolvedFrom :: "smsg \<Rightarrow> string option"
  resolvedIP :: "smsg \<Rightarrow> string"
  jsonValue :: "int \<Rightarrow> string \<Rightarrow> string"
  allJSON :: "string option"
  jsonMesg :: string
  msgUUID :: string
  currTime :: "bool \<Rightarrow> syslogTime"
  unixTime :: nat
  uptime :: nat
  localHostName :: string
  tzRules :: "int \<Rightarrow> tm"

definition getHOSTNAME :: "prop_env \<Rightarrow> smsg \<Rightarrow> string" where
  "getHOSTNAME env m = (case pszHOSTNAME m of Some s \<Rightarrow> s | None \<Rightarrow> (case resolvedFrom env m of None \<Rightarrow> [] | Some s \<Rightarrow> s))"

definition getRcvFrom :: "prop_env \<Rightarrow> smsg \<Rightarrow> string" where
  "getRcvFrom env m = (case resolvedFrom env m of None \<Rightarrow> [] | Some s \<Rightarrow> s)"

definition getProtocolVersionString :: "smsg \<Rightarrow> string" where
  "getProtocolVersionString m = (if iProtocolVersion m \<noteq> 0 then ''1'' else ''0'')"

definition getParseSuccess :: "smsg \<Rightarrow> string" where
  "getParseSuccess m = (if bParseSuccess m then ''OK'' else ''FAIL'')"

text \<open>A value whose length is known, is not known, or that belongs to the caller.\<close>

definition val_len :: "string \<times> int \<Rightarrow> prop_buf" where
  "val_len v = \<lparr>pRes = fst v, bufLen = snd v, bMustBeFreed = False\<rparr>"

definition val_str :: "string \<Rightarrow> prop_buf" where
  "val_str s = \<lparr>pRes = s, bufLen = - 1, bMustBeFreed = False\<rparr>"

definition val_new :: "string \<Rightarrow> int \<Rightarrow> prop_buf" where
  "val_new s n = \<lparr>pRes = s, bufLen = n, bMustBeFreed = True\<rparr>"

text \<open>The properties of the message header; the message itself caches what is derived from the TAG.\<close>

definition header_value :: "prop_env \<Rightarrow> smsg \<Rightarrow> int \<Rightarrow> (prop_buf \<times> smsg) option" where
  "header_value env m i =
     (if i = 1 then Some (val_len (getMSG m, iLenMSG m), m)
      else if i = 3 then Some (val_len (getHOSTNAME env m, int (length (getHOSTNAME env m))), m)
      else if i = 4 then map_option (\<lambda>(m', s). (val_len (s, int (length s)), m')) (getTAG m)
      else if i = 5 then Some (val_len (getRawMsg m), m)
      else if i = 25 then Some (val_len (getRawMsgAfterPRI m), m)
      else if i = 6 then Some (val_len (inputName env, int (length (inputName env))), m)
      else if i = 7 then Some (val_str (getRcvFrom env m), m)
      else if i = 8 then Some (val_str (resolvedIP env m), m)
      else if i = 9 then Some (val_str (getPRI m), m)
      else if i = 10 then map_option (\<lambda>s. (val_new s (- 1), m)) (textpri m)
      else if i = 11 then Some (val_len (''1'', 1), m)
      else if i = 12 then Some (val_str (getFacility m), m)
      else if i = 13 then Some (val_str (getFacilityStr m), m)
      else if i = 14 then Some (val_str (getSeverity m), m)
      else if i = 15 then Some (val_str (getSeverityStr m), m)
      else if i = 17 then map_option (\<lambda>(m', s). (val_str s, m')) (getProgramName (permitSlash env) m)
      else if i = 18 then Some (val_str (getProtocolVersionString m), m)
      else if i = 19 then Some (val_len (MsgGetStructuredData m, int (length (MsgGetStructuredData m))), m)
      else if i = 20 then map_option (\<lambda>(m', s). (val_str s, m')) (getAPPNAME (permitSlash env) m)
      else if i = 21 then (let (m', s) = getPROCID m in Some (val_str s, m'))
      else if i = 22 then Some (val_str (getMSGID m), m)
      else if i = 24 then Some (val_new (jsonMesg env) (- 1), m)
      else if i = 161 then Some (val_len (msgUUID env, int (length (msgUUID env))), m)
      else if i = 23 then Some (val_str (getParseSuccess m), m)
      else None)"

definition now_type :: "int \<Rightarrow> (eNOWType \<times> bool \<times> int) option" where
  "now_type i =
     map_of [(150, NOW_NOW, False, 10), (151, NOW_YEAR, False, 4), (152, NOW_MONTH, False, 2), (153, NOW_DAY, False, 2),
       (154, NOW_HOUR, False, 2), (155, NOW_HHOUR, False, 2), (156, NOW_QHOUR, False, 2), (157, NOW_MINUTE, False, 2),
       (162, NOW_NOW, True, 10), (163, NOW_YEAR, True, 4), (164, NOW_MONTH, True, 2), (165, NOW_DAY, True, 2),
       (166, NOW_HOUR, True, 2), (167, NOW_HHOUR, True, 2), (168, NOW_QHOUR, True, 2), (169, NOW_MINUTE, True, 2),
       (170, NOW_WDAY, False, 1), (171, NOW_WDAY, True, 1)] i"

definition system_value :: "prop_env \<Rightarrow> syslogTime option \<Rightarrow> int \<Rightarrow> string \<Rightarrow> prop_buf option" where
  "system_value env ttNow i name =
     (case now_type i of
        Some (n, utc, len) \<Rightarrow> map_option (\<lambda>s. val_new s len) (getNOW (currTime env) n ttNow utc)
      | None \<Rightarrow>
          if i = 173 then Some (val_new (take 14 (dec_str (unixTime env))) (- 1))
          else if i = 158 then Some (val_str (localHostName env))
          else if i = 201 \<or> i = 204 then
            Some (case allJSON env of None \<Rightarrow> val_len (''{}'', 2) | Some s \<Rightarrow> val_new s (- 1))
          else if i \<in> {PROP_CEE, PROP_LOCAL_VAR, PROP_GLOBAL_VAR} then
            Some (val_new (jsonValue env i name) (int (length (jsonValue env i name))))
          else if i = 159 then Some (val_str [CHR 0xEF, CHR 0xBB, CHR 0xBF])
          else if i = 160 then Some (val_new (dec_str (uptime env)) (- 1))
          else None)"

text \<open>A message with the texts cached for its two timestamps.\<close>

record msg_state =
  ms_msg :: smsg
  ms_reported :: time_cache
  ms_generated :: time_cache

definition time_value :: "prop_env \<Rightarrow> tpe_field option \<Rightarrow> msg_state \<Rightarrow> bool \<Rightarrow> (prop_buf \<times> msg_state) option" where
  "time_value env tpe s reported =
     (let datefmt = (case tpe of None \<Rightarrow> tplFmtDefault | Some f \<Rightarrow> eDateFormat f);
          utc = (case tpe of None \<Rightarrow> False | Some f \<Rightarrow> bDateInUTC (options f));
          t = (if reported then tTIMESTAMP (ms_msg s) else tRcvdAt (ms_msg s))
      in if utc then map_option (\<lambda>x. (val_new x (- 1), s)) (getTimeUTC (tzRules env) t datefmt)
         else if reported
         then map_option (\<lambda>(x, c). (val_str x, s\<lparr>ms_reported := c\<rparr>)) (getTimeReported (ms_reported s) t datefmt)
         else map_option (\<lambda>(x, c). (val_str x, s\<lparr>ms_generated := c\<rparr>)) (getTimeGenerated (ms_generated s) t datefmt))"

definition MsgGetProp :: "prop_env \<Rightarrow> regexec option \<Rightarrow> tpe_field option \<Rightarrow> msg_state \<Rightarrow> int \<Rightarrow> string \<Rightarrow> syslogTime option
    \<Rightarrow> (prop_buf \<times> msg_state) option" where
  "MsgGetProp env regexp tpe s i name ttNow =
     (let v = (if i = 2 then time_value env tpe s True
               else if i = 16 then time_value env tpe s False
               else case header_value env (ms_msg s) i of
                   Some (b, m) \<Rightarrow> Some (b, s\<lparr>ms_msg := m\<rparr>)
                 | None \<Rightarrow> map_option (\<lambda>b. (b, s)) (system_value env ttNow i name))
      in if i \<notin> fst ` set property_ids then Some (ret_text ''**INVALID PROPERTY NAME**'', s)
         else case v of
             None \<Rightarrow> None
           | Some (b, s') \<Rightarrow>
               (case tpe of
                  None \<Rightarrow> Some (b\<lparr>bufLen := buf_len b\<rparr>, s')
                | Some f \<Rightarrow>
                    if \<not> bComplexProcessing f then Some (b\<lparr>bufLen := buf_len b\<rparr>, s')
                    else map_option (\<lambda>b'. (b', s')) (replacer regexp f b)))"

section \<open>Names\<close>

text \<open>Names and identifiers of properties agree: the name shown for an identifier is read back to it, for every
  property but the three kinds of variables, which have no name of their own.\<close>

theorem property_names_roundtrip:
  "list_all (\<lambda>(i, n). i \<in> {PROP_CEE, PROP_LOCAL_VAR, PROP_GLOBAL_VAR} \<or> propNameToID (propIDToName i) = (i, RS_RET_OK)) property_ids"
  by code_simp

section \<open>Texts without NUL\<close>

lemma digit_of_NUL: "digit_of v k \<noteq> NUL"
proof -
  have "\<bar>(v sdiv k) smod 10\<bar> < 10"
    by (simp add: signed_modulo_int_def abs_mult abs_sgn_eq)
  then have "byte_val (digit_of v k) = (v sdiv k) smod 10 + 48"
    by (simp add: digit_of_def byte_val_to_char)
  then show ?thesis
    using \<open>\<bar>(v sdiv k) smod 10\<bar> < 10\<close> by (auto simp: byte_val_NUL)
qed

lemma digits_NUL: "NUL \<notin> set (two_digits v)" "NUL \<notin> set (four_digits v)"
  using digit_of_NUL by (auto simp: two_digits_def four_digits_def) metis+

lemma digit_list_NUL: "list_all is_digit s \<Longrightarrow> NUL \<notin> set s"
  by (auto simp: list_all_iff)

lemma cached_formats_NUL:
  assumes "writable3339 t"
  shows "NUL \<notin> set (fst (formatTimestamp3164 t b))" "NUL \<notin> set (fst (formatTimestampToMySQL t))"
    "NUL \<notin> set (fst (formatTimestampToPgSQL t))" "NUL \<notin> set (fst (formatTimestamp3339 t))"
    "NUL \<notin> set (fst (formatTimestampSecFrac t))"
proof -
  have sep: "NUL \<noteq> CHR ''-''" "NUL \<noteq> CHR '' ''" "NUL \<noteq> CHR '':''" "NUL \<noteq> CHR ''T''" "NUL \<noteq> CHR ''.''" "NUL \<noteq> CHR ''Z''" "NUL \<noteq> CHR ''0''"
    by (simp_all add: NUL_def)
  have d: "NUL \<noteq> digit_of v k" for v k
    using digit_of_NUL by metis
  have s: "NUL \<notin> set (secfrac_digits t)" if "secfracPrecision t > 0"
    using secfrac_digits_eq(1) [OF _ that] assms digit_list_NUL by (simp add: writable3339_def)
  have o: "NUL \<noteq> OffsetMode t"
    using assms by (auto simp: writable3339_def NUL_def)
  have m: "NUL \<notin> set (monthNames ! nat ((month t - 1) smod 12))"
  proof -
    have "month t \<in> {1..12}"
      using assms by (simp add: writable3339_def time_fields_ok_def)
    then have "nat ((month t - 1) smod 12) < 12"
      by simp linarith
    moreover have "list_all (\<lambda>n. NUL \<notin> set n) monthNames" "length monthNames = 12"
      by code_simp+
    ultimately show ?thesis
      by (simp add: list_all_length)
  qed
  have "to_char ((day t sdiv 10) smod 10 + 48) = digit_of (day t) 10"
    by (simp add: digit_of_def)
  then have day: "NUL \<noteq> to_char ((day t sdiv 10) smod 10 + 48)"
    using d by metis
  show "NUL \<notin> set (fst (formatTimestamp3164 t b))" "NUL \<notin> set (fst (formatTimestampToMySQL t))"
    "NUL \<notin> set (fst (formatTimestampToPgSQL t))" "NUL \<notin> set (fst (formatTimestamp3339 t))"
    "NUL \<notin> set (fst (formatTimestampSecFrac t))"
    using digits_NUL sep d s o m day
    by (simp_all add: formatTimestamp3164_def formatTimestampToMySQL_def formatTimestampToPgSQL_def formatTimestamp3339_def
        formatTimestampSecFrac_def format_tz3339_def Let_def)
qed

lemma dec_str_clean: "NUL \<notin> set (dec_str n)"
proof (induction n rule: dec_str.induct)
  case (1 n)
  have "to_char (48 + int (n mod 10)) \<noteq> NUL" "n < 10 \<Longrightarrow> to_char (48 + int n) \<noteq> NUL"
    using digit_char [of "int (n mod 10)"] digit_char [of "int n"] by auto
  then show ?case
    using 1 by (subst dec_str.simps) auto
qed

definition time_ok :: "syslogTime \<Rightarrow> bool" where
  "time_ok t \<longleftrightarrow> writable3339 t \<and> 1970 \<le> year t"

definition by_day_of_year :: "tplFormatTypes \<Rightarrow> bool" where
  "by_day_of_year f \<longleftrightarrow> f \<in> {tplFmtOrdinal, tplFmtWeek, tplFmtISOWeek, tplFmtISOWeekYear}"

definition clean_text :: "string option \<Rightarrow> bool" where
  "clean_text r \<longleftrightarrow> (case r of None \<Rightarrow> False | Some s \<Rightarrow> NUL \<notin> set s)"

lemma two_digits_tab_clean: "0 \<le> i \<Longrightarrow> i < 100 \<Longrightarrow> clean_text (two_digits_tab i)"
  using digits_NUL by (simp add: clean_text_def two_digits_tab_def)

lemma weekday_tabs_clean:
  assumes "time_ok t"
  shows "clean_text (wdayNames_tab (getWeekdayNbr t))" "clean_text (one_digit_tab (getWeekdayNbr t))"
proof -
  have "getWeekdayNbr t = (day_number t + 4) mod 7"
    using assms by (intro getWeekdayNbr_eq) (auto simp: time_ok_def writable3339_def time_fields_ok_def)
  then have w: "0 \<le> getWeekdayNbr t" "getWeekdayNbr t < 7"
    by simp_all
  have "list_all (\<lambda>n. NUL \<notin> set n) wdayNames" "length wdayNames = 7"
    by code_simp+
  then show "clean_text (wdayNames_tab (getWeekdayNbr t))"
    using w by (simp add: clean_text_def wdayNames_tab_def list_all_length)
  have "to_char (48 + getWeekdayNbr t) \<noteq> NUL"
    using digit_char [of "getWeekdayNbr t"] w by auto
  then show "clean_text (one_digit_tab (getWeekdayNbr t))"
    using w by (simp add: clean_text_def one_digit_tab_def)
qed

lemma part_text_clean:
  assumes "time_ok t" "\<not> by_day_of_year f" "f \<notin> {tplFmtDefault, tplFmtRFC3164Date, tplFmtRFC3164BuggyDate, tplFmtMySQLDate, tplFmtPgSQLDate,
    tplFmtRFC3339Date, tplFmtUnixDate, tplFmtSecFrac}"
  shows "clean_text (part_text f t)"
proof -
  have r: "month t \<in> {1..12}" "day t \<in> {1..31}" "hour t \<in> {0..23}" "minute t \<in> {0..59}" "second t \<in> {0..60}" "OffsetHour t \<in> {0..23}"
      "OffsetMinute t \<in> {0..59}" "1970 \<le> year t" "year t \<le> 2099"
    using assms(1) by (auto simp: time_ok_def writable3339_def time_fields_ok_def)
  have dir: "NUL \<notin> set ''+''" "NUL \<notin> set ''-''"
    by code_simp+
  show ?thesis
    using assms(2,3) r weekday_tabs_clean [OF assms(1)] digits_NUL dir
    by (cases f) (auto simp: part_text_def by_day_of_year_def clean_text_def intro!: two_digits_tab_clean [unfolded clean_text_def])
qed

definition cache_ok :: "time_cache \<Rightarrow> bool" where
  "cache_ok c \<longleftrightarrow> (\<forall>s \<in> set_option (c3164 c) \<union> set_option (cMySQL c) \<union> set_option (cPgSQL c) \<union> set_option (c3339 c) \<union> {cUnix c, cSecFrac c}.
     NUL \<notin> set s)"

lemma getTimeReported_ok:
  assumes "time_ok t" "cache_ok c" "\<not> by_day_of_year f"
  shows "\<exists>s c'. getTimeReported c t f = Some (s, c') \<and> NUL \<notin> set s \<and> cache_ok c'"
proof -
  have w: "writable3339 t"
    using assms(1) by (simp add: time_ok_def)
  have u: "NUL \<notin> set (formatTimestampUnix t)"
    using dec_str_clean by (auto simp: formatTimestampUnix_def dest: in_set_takeD)
  show ?thesis
  proof (cases "f \<in> {tplFmtDefault, tplFmtRFC3164Date, tplFmtRFC3164BuggyDate, tplFmtMySQLDate, tplFmtPgSQLDate,
      tplFmtRFC3339Date, tplFmtUnixDate, tplFmtSecFrac}")
    case True
    then show ?thesis
      using assms(2) cached_formats_NUL [OF w] u
      by (auto simp: getTimeReported_def Let_def cache_ok_def cached_def split: option.splits)
  next
    case False
    then show ?thesis
      using part_text_clean [OF assms(1,3) False] assms(2)
      by (auto simp: getTimeReported_def clean_text_def split: option.splits)
  qed
qed

lemma getTimeUTC_ok:
  assumes "time_ok (timeConvertToUTC tz t)" "\<not> by_day_of_year f"
  shows "clean_text (getTimeUTC tz t f)"
proof -
  let ?t = "timeConvertToUTC tz t"
  have w: "writable3339 ?t"
    using assms(1) by (simp add: time_ok_def)
  have u: "NUL \<notin> set (formatTimestampUnix ?t)"
    using dec_str_clean by (auto simp: formatTimestampUnix_def dest: in_set_takeD)
  show ?thesis
  proof (cases "f \<in> {tplFmtDefault, tplFmtRFC3164Date, tplFmtRFC3164BuggyDate, tplFmtMySQLDate, tplFmtPgSQLDate,
      tplFmtRFC3339Date, tplFmtUnixDate, tplFmtSecFrac}")
    case True
    then show ?thesis
      using cached_formats_NUL [OF w] u by (auto simp: getTimeUTC_def Let_def clean_text_def)
  next
    case False
    then show ?thesis
      using part_text_clean [OF assms False] by (simp add: getTimeUTC_def Let_def)
  qed
qed

definition now_ok :: "syslogTime \<Rightarrow> bool" where
  "now_ok t \<longleftrightarrow> year t \<in> {1..9999} \<and> month t \<in> {0..99} \<and> day t \<in> {0..99} \<and> hour t \<in> {0..99} \<and> minute t \<in> {0..59} \<and> wday t \<in> {0..6}"

lemma getNOW_ok:
  assumes "\<And>u. now_ok (cur u)" "case t0 of None \<Rightarrow> True | Some t \<Rightarrow> year t = 0 \<or> now_ok t"
  shows "\<exists>s. getNOW cur n t0 utc = Some s \<and> NUL \<notin> set s
    \<and> int (length s) = (case n of NOW_NOW \<Rightarrow> 10 | NOW_YEAR \<Rightarrow> 4 | NOW_WDAY \<Rightarrow> 1 | _ \<Rightarrow> 2)"
proof -
  define t1 where "t1 = (case t0 of None \<Rightarrow> cur utc | Some t \<Rightarrow> t)"
  define t where "t = (if year t1 = 0 \<or> inUTC t1 \<noteq> utc then cur utc else t1)"
  have t: "now_ok t"
    using assms by (auto simp: t_def t1_def split: option.splits)
  then have r: "0 \<le> month t" "month t < 100" "0 \<le> day t" "day t < 100" "0 \<le> hour t" "hour t < 100" "0 \<le> minute t" "minute t < 60"
      "0 \<le> wday t" "wday t < 7" "0 \<le> year t" "year t < 10000"
    by (auto simp: now_ok_def)
  have y: "0 \<le> year t sdiv 100" "year t sdiv 100 < 100" "0 \<le> year t smod 100" "year t smod 100 < 100"
      "0 \<le> minute t sdiv 30" "minute t sdiv 30 < 100" "0 \<le> minute t sdiv 15" "minute t sdiv 15 < 100"
    using r by (simp_all add: pos_imp_zdiv_nonneg_iff)
  have two: "two_digits_tab i = Some (two_digits i)" if "0 \<le> i" "i < 100" for i
    using that by (simp add: two_digits_tab_def)
  have one: "one_digit_tab (wday t) = Some [to_char (48 + wday t)]" "to_char (48 + wday t) \<noteq> NUL"
    using r digit_char [of "wday t"] by (auto simp: one_digit_tab_def)
  note tabs = two [OF r(1,2)] two [OF r(3,4)] two [OF r(5,6)] two [OF y(1,2)] two [OF y(3,4)] two [OF y(5,6)] two [OF y(7,8)]
  have mn: "two_digits_tab (minute t) = Some (two_digits (minute t))"
    using r by (intro two) simp_all
  have len: "length (two_digits i) = 2" for i
    by (simp add: two_digits_def)
  have dash: "NUL \<noteq> CHR ''-''"
    by (simp add: NUL_def)
  show ?thesis
    unfolding getNOW_def Let_def t1_def [symmetric] t_def [symmetric]
    by (cases n) (simp_all only: eNOWType.case tabs mn one Option.bind.simps option.inject ex_simps simp_thms,
        simp_all add: digits_NUL len dash one(2) [symmetric])
qed

definition no_nul :: "string \<Rightarrow> bool" where
  "no_nul s \<longleftrightarrow> NUL \<notin> set s"

text \<open>A message whose strings have no NUL inside, whose MSG length is right, and whose emulated TAG fits.\<close>

definition msg_clean :: "smsg \<Rightarrow> bool" where
  "msg_clean m \<longleftrightarrow> no_nul (raw m) \<and> iLenMSG m = int (length (getMSG m)) \<and> no_nul (TAG m) \<and> pri_ok m
     \<and> pred_option no_nul (pszHOSTNAME m) \<and> pred_option no_nul (PROGNAME m) \<and> pred_option no_nul (pszStrucData m)
     \<and> pred_option no_nul (pCSAPPNAME m) \<and> pred_option no_nul (pCSPROCID m) \<and> pred_option no_nul (pCSMSGID m)
     \<and> (iProtocolVersion m = 1 \<longrightarrow>
          length (case pCSAPPNAME m of None \<Rightarrow> [] | Some s \<Rightarrow> s) + length (case pCSPROCID m of None \<Rightarrow> [] | Some s \<Rightarrow> s) < 509)"

definition env_clean :: "prop_env \<Rightarrow> bool" where
  "env_clean env \<longleftrightarrow> no_nul (inputName env) \<and> no_nul (localHostName env) \<and> no_nul (jsonMesg env) \<and> no_nul (msgUUID env)
     \<and> pred_option no_nul (allJSON env) \<and> (\<forall>m. pred_option no_nul (resolvedFrom env m)) \<and> (\<forall>m. no_nul (resolvedIP env m))
     \<and> (\<forall>i n. no_nul (jsonValue env i n)) \<and> (\<forall>u. now_ok (currTime env u))"

lemma val_wf:
  "no_nul s \<Longrightarrow> buf_wf (val_len (s, int (length s)))" "no_nul s \<Longrightarrow> buf_wf (val_str s)" "no_nul s \<Longrightarrow> buf_wf (val_new s (- 1))"
  "no_nul s \<Longrightarrow> buf_wf (val_new s (int (length s)))"
  by (simp_all add: no_nul_def val_len_def val_str_def val_new_def buf_wf_def)

lemma clean_parts:
  "no_nul s \<Longrightarrow> no_nul (drop n s)" "no_nul s \<Longrightarrow> no_nul (take n s)" "no_nul s \<Longrightarrow> no_nul (takeWhile P s)" "no_nul s \<Longrightarrow> no_nul (dropWhile P s)"
  "no_nul s \<Longrightarrow> no_nul (tl s)" "no_nul []" "no_nul s \<Longrightarrow> no_nul t \<Longrightarrow> no_nul (s @ t)"
  by (auto simp: no_nul_def dest: in_set_dropD in_set_takeD set_takeWhileD set_dropWhileD list.set_sel(2))
     (metis list.sel(2) list.set_sel(2))

lemma clean_consts:
  "no_nul ''-''" "no_nul ''0''" "no_nul ''1''" "no_nul ''OK''" "no_nul ''FAIL''" "no_nul ''invld''" "no_nul ''[''" "no_nul '']''" "no_nul ''.''" "no_nul ''{}''"
  "no_nul [CHR 0xEF, CHR 0xBB, CHR 0xBF]"
  by code_simp+

lemma tryEmulateTAG_ok:
  assumes "msg_clean m"
  shows "\<exists>m'. tryEmulateTAG m = Some m' \<and> no_nul (TAG m')"
proof (cases "TAG m = [] \<and> iProtocolVersion m = 1")
  case True
  define app where "app = (case pCSAPPNAME m of None \<Rightarrow> [] | Some s \<Rightarrow> s)"
  define procid where "procid = (case pCSPROCID m of None \<Rightarrow> ''-'' | Some s \<Rightarrow> s)"
  have c: "no_nul app" "no_nul procid"
    using assms clean_consts(1) clean_parts(6) by (auto simp: app_def procid_def msg_clean_def split: option.splits)
  have l: "length app + length procid < 510"
    using assms True by (auto simp: app_def procid_def msg_clean_def split: option.splits)
  have "take (length (app @ ''['' @ procid @ '']'')) (take (CONF_TAG_MAXSIZE - 1) (app @ ''['' @ procid @ '']'') @ [NUL]) = app @ ''['' @ procid @ '']''"
    using l by (simp add: CONF_TAG_MAXSIZE_def)
  moreover have "no_nul (app @ ''['' @ procid @ '']'')"
    using c clean_consts clean_parts(7) by metis
  ultimately show ?thesis
    using True c(1) l unfolding tryEmulateTAG_def Let_def app_def [symmetric] procid_def [symmetric]
    by (simp add: MsgSetTAG_def CONF_TAG_MAXSIZE_def)
next
  case False
  then show ?thesis
    using assms by (auto simp: tryEmulateTAG_def msg_clean_def)
qed

lemma getTAG_ok:
  assumes "msg_clean m"
  shows "\<exists>m' s. getTAG m = Some (m', s) \<and> no_nul s \<and> s = TAG m'"
  using tryEmulateTAG_ok [OF assms] assms by (auto simp: getTAG_def msg_clean_def)

lemma getProgramName_ok:
  assumes "msg_clean m"
  shows "\<exists>m' s. getProgramName b m = Some (m', s) \<and> no_nul s"
proof (cases "PROGNAME m")
  case None
  obtain m1 t where "(if TAG m = [] then getTAG m else Some (m, TAG m)) = Some (m1, t)" "no_nul (TAG m1)"
    using getTAG_ok [OF assms] assms by (cases "TAG m = []") (auto simp: msg_clean_def)
  then show ?thesis
    using None clean_parts(3) by (simp add: getProgramName_def acquireProgramName_def Let_def)
next
  case (Some p)
  then show ?thesis
    using assms by (simp add: getProgramName_def msg_clean_def)
qed

lemma getAPPNAME_ok:
  assumes "msg_clean m"
  shows "\<exists>m' s. getAPPNAME b m = Some (m', s) \<and> no_nul s"
proof (cases "pCSAPPNAME m = None \<and> iProtocolVersion m = 0")
  case True
  then show ?thesis
    using getProgramName_ok [OF assms, of b] clean_consts(1) clean_parts(3)
    by (auto simp: getAPPNAME_def prepareAPPNAME_def MsgSetAPPNAME_def c_str_def)
next
  case False
  then show ?thesis
    using assms clean_parts(6) by (auto simp: getAPPNAME_def prepareAPPNAME_def msg_clean_def split: option.splits)
qed

lemma getPROCID_ok: "msg_clean m \<Longrightarrow> no_nul (snd (getPROCID m))"
  using clean_consts(1) clean_parts
  by (auto simp: getPROCID_def acquirePROCIDFromTAG_def msg_clean_def Let_def split: option.splits)

lemma name_tables_clean:
  "unat w < 25 \<Longrightarrow> no_nul (syslog_fac_names ! unat w)" "unat w < 8 \<Longrightarrow> no_nul (syslog_severity_names ! unat w)"
  "unat w < 25 \<Longrightarrow> no_nul (syslog_number_names ! unat w)" for w :: "16 word"
proof -
  have "list_all no_nul syslog_fac_names" "length syslog_fac_names = 25" "list_all no_nul syslog_severity_names" "length syslog_severity_names = 8"
    "list_all no_nul syslog_number_names" "length syslog_number_names = 25"
    by code_simp+
  then show "unat w < 25 \<Longrightarrow> no_nul (syslog_fac_names ! unat w)" "unat w < 8 \<Longrightarrow> no_nul (syslog_severity_names ! unat w)"
    "unat w < 25 \<Longrightarrow> no_nul (syslog_number_names ! unat w)"
    by (simp_all add: list_all_length)
qed

lemma pri_texts_clean:
  assumes "pri_ok m"
  shows "no_nul (getFacility m)" "no_nul (getFacilityStr m)" "no_nul (getSeverity m)" "no_nul (getSeverityStr m)" "no_nul (getPRI m)"
    "\<exists>s. textpri m = Some s \<and> no_nul s"
proof -
  note b = pri_ok_bounds [OF assms]
  then have b': "unat (iSeverity m) < 25"
    by simp
  show "no_nul (getFacility m)" "no_nul (getFacilityStr m)" "no_nul (getSeverity m)" "no_nul (getSeverityStr m)"
    using name_tables_clean b b' clean_consts(6)
    by (simp_all add: getFacility_def getFacilityStr_def getSeverity_def getSeverityStr_def)
  show "no_nul (getPRI m)"
    using clean_consts(6) dec_str_clean by (simp add: getPRI_def Let_def no_nul_def)
  show "\<exists>s. textpri m = Some s \<and> no_nul s"
    using b name_tables_clean(1,2) clean_consts(9) clean_parts(7) by (simp add: textpri_def) (metis append_Cons append_Nil)
qed

definition header_ids :: "int list" where
  "header_ids = [1, 3, 4, 5, 25, 6, 7, 8, 9, 10, 11, 12, 13, 14, 15, 17, 18, 19, 20, 21, 22, 24, 161, 23]"

lemma byte_at_inside: "byte_at s i = c \<Longrightarrow> c \<noteq> NUL \<Longrightarrow> i < int (length s)"
  by (auto simp: byte_at_def split: if_splits)

lemma getRawMsgAfterPRI_eq:
  "\<exists>off. off \<le> length (raw m) \<and> getRawMsgAfterPRI m = (drop off (raw m), int (length (raw m) - off))"
proof (cases "pszRawMsg m")
  case (Some s)
  have gt: "CHR ''>'' \<noteq> NUL"
    by (simp add: NUL_def)
  define off :: nat where "off = (if byte_at s 0 = CHR ''<'' then
       if byte_at s 2 = CHR ''>'' then 3 else if byte_at s 3 = CHR ''>'' then 4 else if byte_at s 4 = CHR ''>'' then 5 else 0 else 0)"
  have "off \<le> length s"
    using byte_at_inside [of s 2 "CHR ''>''"] byte_at_inside [of s 3 "CHR ''>''"] byte_at_inside [of s 4 "CHR ''>''"] gt
    unfolding off_def by (auto split: if_splits)
  moreover have "getRawMsgAfterPRI m = (drop off s, int (length s) - int off)"
    by (simp add: getRawMsgAfterPRI_def Some off_def Let_def)
  ultimately show ?thesis
    using Some by (auto simp: raw_def of_nat_diff)
qed (simp add: getRawMsgAfterPRI_def raw_def)

lemma header_value_ok:
  assumes "msg_clean m" "env_clean env" "i \<in> set header_ids"
  shows "\<exists>b m'. header_value env m i = Some (b, m') \<and> buf_wf b"
proof -
  have raw: "no_nul (raw m)" "no_nul (getMSG m)" "buf_wf (val_len (getMSG m, iLenMSG m))" "buf_wf (val_len (getRawMsg m))"
      "buf_wf (val_len (getRawMsgAfterPRI m))"
  proof -
    show r: "no_nul (raw m)" and g: "no_nul (getMSG m)"
      using assms(1) clean_parts by (auto simp: msg_clean_def getMSG_def)
    show "buf_wf (val_len (getMSG m, iLenMSG m))" "buf_wf (val_len (getRawMsg m))"
      using assms(1) val_wf(1) r g by (auto simp: msg_clean_def getRawMsg_def iLenRawMsg_def)
    show "buf_wf (val_len (getRawMsgAfterPRI m))"
      using getRawMsgAfterPRI_eq [of m] val_wf(1) [OF clean_parts(1) [OF r]] by (auto simp: length_drop [symmetric] simp del: length_drop)
  qed
  have o: "no_nul (getHOSTNAME env m)" "no_nul (getRcvFrom env m)" "no_nul (resolvedIP env m)" "no_nul (inputName env)" "no_nul (jsonMesg env)"
      "no_nul (msgUUID env)" "no_nul (MsgGetStructuredData m)" "no_nul (getMSGID m)" "no_nul (getProtocolVersionString m)" "no_nul (getParseSuccess m)"
    using assms(1,2) clean_consts clean_parts(6)
    by (auto simp: env_clean_def msg_clean_def getHOSTNAME_def getRcvFrom_def MsgGetStructuredData_def getMSGID_def getProtocolVersionString_def
        getParseSuccess_def split: option.splits) (metis option.pred_inject(2))+
  have p: "pri_ok m"
    using assms(1) by (simp add: msg_clean_def)
  have one: "buf_wf (val_len (''1'', 1))"
    using val_wf(1) [OF clean_consts(3)] by simp
  obtain m1 s1 where g1: "getTAG m = Some (m1, s1)" "no_nul s1"
    using getTAG_ok [OF assms(1)] by blast
  obtain m2 s2 where g2: "getProgramName (permitSlash env) m = Some (m2, s2)" "no_nul s2"
    using getProgramName_ok [OF assms(1)] by blast
  obtain m3 s3 where g3: "getAPPNAME (permitSlash env) m = Some (m3, s3)" "no_nul s3"
    using getAPPNAME_ok [OF assms(1)] by blast
  obtain m4 s4 where g4: "getPROCID m = (m4, s4)" "no_nul s4"
    using getPROCID_ok [OF assms(1)] by (cases "getPROCID m") auto
  obtain s5 where g5: "textpri m = Some s5" "no_nul s5"
    using pri_texts_clean(6) [OF p] by blast
  note facts = raw(3-5) val_wf(1) [OF o(1)] val_wf(1) [OF o(4)] val_wf(2) [OF o(2)] val_wf(2) [OF o(3)] val_wf(3) [OF o(5)] val_wf(1) [OF o(6)]
    val_wf(1) [OF o(7)] val_wf(2) [OF o(8)] val_wf(2) [OF o(9)] val_wf(2) [OF o(10)] one val_wf(1) [OF g1(2)] val_wf(2) [OF g2(2)] val_wf(2) [OF g3(2)]
    val_wf(2) [OF g4(2)] val_wf(3) [OF g5(2)] pri_texts_clean(1-5) [OF p, THEN val_wf(2)]
  show ?thesis
    using assms(3) unfolding header_ids_def list.set
    by (elim insertE emptyE) (simp_all add: header_value_def g1(1) g2(1) g3(1) g4(1) g5(1) facts)
qed

definition system_ids :: "int list" where
  "system_ids = [150, 151, 152, 153, 154, 155, 156, 157, 162, 163, 164, 165, 166, 167, 168, 169, 170, 171,
     173, 158, 201, 204, 159, 160, 200, 202, 203]"

definition now_arg_ok :: "syslogTime option \<Rightarrow> bool" where
  "now_arg_ok t0 \<longleftrightarrow> (case t0 of None \<Rightarrow> True | Some t \<Rightarrow> year t = 0 \<or> now_ok t)"

lemma now_value_ok:
  assumes "env_clean env" "now_arg_ok t0" "now_type i = Some (n, utc, len)"
    "len = (case n of NOW_NOW \<Rightarrow> 10 | NOW_YEAR \<Rightarrow> 4 | NOW_WDAY \<Rightarrow> 1 | _ \<Rightarrow> 2)"
  shows "\<exists>b. system_value env t0 i name = Some b \<and> buf_wf b"
proof -
  have "\<And>u. now_ok (currTime env u)"
    using assms(1) by (simp add: env_clean_def)
  then obtain s where s: "getNOW (currTime env) n t0 utc = Some s" "NUL \<notin> set s" "int (length s) = len"
    using getNOW_ok [of "currTime env" t0 n utc] assms(2,4) by (auto simp: now_arg_ok_def)
  then show ?thesis
    using assms(3) val_wf(4) [of s] by (simp add: system_value_def no_nul_def)
qed

lemma system_value_ok:
  assumes "env_clean env" "now_arg_ok t0" "i \<in> set system_ids"
  shows "\<exists>b. system_value env t0 i name = Some b \<and> buf_wf b"
proof (cases "now_type i")
  case None
  have d: "no_nul (dec_str n)" "no_nul (take k (dec_str n))" for n k
    using dec_str_clean by (auto simp: no_nul_def dest: in_set_takeD)
  have e: "no_nul (localHostName env)" "pred_option no_nul (allJSON env)" "no_nul (jsonValue env i name)"
    using assms(1) by (simp_all add: env_clean_def)
  have j: "buf_wf (val_len (''{}'', 2))"
    using val_wf(1) [OF clean_consts(10)] by simp
  have "i \<in> {173, 158, 201, 204, 159, 160, 200, 202, 203}"
    using assms(3) None by (auto simp: system_ids_def now_type_def split: if_splits)
  then show ?thesis
    using None val_wf d e j clean_consts(11)
    by (auto simp: system_value_def PROP_CEE_def PROP_LOCAL_VAR_def PROP_GLOBAL_VAR_def split: option.splits)
next
  case (Some v)
  then obtain n utc len where v: "now_type i = Some (n, utc, len)"
    by (cases v) auto
  then have "len = (case n of NOW_NOW \<Rightarrow> 10 | NOW_YEAR \<Rightarrow> 4 | NOW_WDAY \<Rightarrow> 1 | _ \<Rightarrow> 2)"
    by (auto simp: now_type_def split: if_splits)
  then show ?thesis
    by (rule now_value_ok [OF assms(1,2) v])
qed

definition times_ok :: "prop_env \<Rightarrow> msg_state \<Rightarrow> bool" where
  "times_ok env s \<longleftrightarrow> time_ok (tTIMESTAMP (ms_msg s)) \<and> time_ok (tRcvdAt (ms_msg s)) \<and> cache_ok (ms_reported s) \<and> cache_ok (ms_generated s)
     \<and> time_ok (timeConvertToUTC (tzRules env) (tTIMESTAMP (ms_msg s))) \<and> time_ok (timeConvertToUTC (tzRules env) (tRcvdAt (ms_msg s)))"

lemma time_value_ok:
  assumes "times_ok env s" "case tpe of None \<Rightarrow> True | Some f \<Rightarrow> \<not> by_day_of_year (eDateFormat f)"
  shows "\<exists>b s'. time_value env tpe s r = Some (b, s') \<and> buf_wf b"
proof -
  define fmt where "fmt = (case tpe of None \<Rightarrow> tplFmtDefault | Some f \<Rightarrow> eDateFormat f)"
  define t where "t = (if r then tTIMESTAMP (ms_msg s) else tRcvdAt (ms_msg s))"
  have f: "\<not> by_day_of_year fmt"
    using assms(2) by (auto simp: fmt_def by_day_of_year_def split: option.splits)
  have tt: "time_ok t" "time_ok (timeConvertToUTC (tzRules env) t)" "cache_ok (if r then ms_reported s else ms_generated s)"
    using assms(1) by (simp_all add: times_ok_def t_def)
  obtain x where x: "getTimeUTC (tzRules env) t fmt = Some x" "no_nul x"
    using getTimeUTC_ok [OF tt(2) f] by (auto simp: clean_text_def no_nul_def split: option.splits)
  obtain y c where y: "getTimeReported (if r then ms_reported s else ms_generated s) t fmt = Some (y, c)" "no_nul y"
    using getTimeReported_ok [OF tt(1,3) f] by (auto simp: no_nul_def)
  show ?thesis
    using x y val_wf(2) [OF y(2)] val_wf(3) [OF x(2)] unfolding time_value_def Let_def fmt_def [symmetric] t_def [symmetric]
    by (cases r) (auto simp: getTimeGenerated_def)
qed

lemma known_ids: "set (map fst property_ids) = {2, 16} \<union> set header_ids \<union> set system_ids"
  by code_simp

lemma unknown_text: "NUL \<notin> set (pRes (ret_text ''**INVALID PROPERTY NAME**''))"
    "bufLen (ret_text ''**INVALID PROPERTY NAME**'') = int (length (pRes (ret_text ''**INVALID PROPERTY NAME**'')))"
  by code_simp+

lemma not_times: "list_all (\<lambda>i. i \<noteq> 2 \<and> i \<noteq> 16) (header_ids @ system_ids)"
  by code_simp

lemma not_header:
  assumes "i \<in> set system_ids"
  shows "header_value env m i = None"
  using assms unfolding system_ids_def list.set by (elim insertE emptyE) (simp_all add: header_value_def)

text \<open>The options and the matcher of a template entry, for any value the property can have.\<close>

definition tpe_ok :: "regexec option \<Rightarrow> tpe_field option \<Rightarrow> bool" where
  "tpe_ok regexp tpe \<longleftrightarrow> (case tpe of None \<Rightarrow> True
     | Some f \<Rightarrow> \<not> by_day_of_year (eDateFormat f) \<and> tpe_field_ok f \<and> (has_fields f \<or> has_regex f \<in> {0, 2} \<or> regexp = None))"

lemma MsgGetProp_ok:
  assumes "msg_clean (ms_msg s)" "env_clean env" "times_ok env s" "now_arg_ok t0" "tpe_ok regexp tpe"
  shows "\<exists>b s'. MsgGetProp env regexp tpe s i name t0 = Some (b, s') \<and> NUL \<notin> set (pRes b) \<and> bufLen b = int (length (pRes b))"
proof -
  define v where "v = (if i = 2 then time_value env tpe s True
               else if i = 16 then time_value env tpe s False
               else case header_value env (ms_msg s) i of
                   Some (b, m) \<Rightarrow> Some (b, s\<lparr>ms_msg := m\<rparr>)
                 | None \<Rightarrow> map_option (\<lambda>b. (b, s)) (system_value env t0 i name))"
  have fmt: "case tpe of None \<Rightarrow> True | Some f \<Rightarrow> \<not> by_day_of_year (eDateFormat f)"
    using assms(5) by (auto simp: tpe_ok_def split: option.splits)
  show ?thesis
  proof (cases "i \<in> set (map fst property_ids)")
    case False
    then show ?thesis
      using unknown_text unfolding MsgGetProp_def Let_def by simp
  next
    case True
    then have "i \<in> {2, 16} \<or> i \<in> set header_ids \<or> i \<in> set system_ids"
      unfolding known_ids by blast
    then have "\<exists>b s'. v = Some (b, s') \<and> buf_wf b"
    proof (elim disjE)
      assume "i \<in> {2, 16}"
      then show ?thesis
        using time_value_ok [OF assms(3) fmt] by (auto simp: v_def)
    next
      assume h: "i \<in> set header_ids"
      then have "i \<noteq> 2" "i \<noteq> 16"
        using not_times by (auto simp: list_all_iff)
      then show ?thesis
        using header_value_ok [OF assms(1,2) h] by (auto simp: v_def)
    next
      assume h: "i \<in> set system_ids"
      then have "i \<noteq> 2" "i \<noteq> 16"
        using not_times by (auto simp: list_all_iff)
      then show ?thesis
        using system_value_ok [OF assms(2,4) h] not_header [OF h] by (auto simp: v_def)
    qed
    then obtain b s' where b: "v = Some (b, s')" "buf_wf b"
      by blast
    have plain: "NUL \<notin> set (pRes (b\<lparr>bufLen := buf_len b\<rparr>)) \<and> bufLen (b\<lparr>bufLen := buf_len b\<rparr>) = int (length (pRes (b\<lparr>bufLen := buf_len b\<rparr>)))"
      using buf_len_wf [OF b(2)] buf_wf_NUL [OF b(2)] by simp
    have ids: "i \<in> fst ` set property_ids"
      using True by simp
    show ?thesis
    proof (cases "case tpe of None \<Rightarrow> False | Some f \<Rightarrow> bComplexProcessing f")
      case False
      then show ?thesis
        using ids b(1) plain unfolding MsgGetProp_def Let_def v_def [symmetric] by (auto split: option.splits)
    next
      case c: True
      then obtain f where f: "tpe = Some f" "bComplexProcessing f"
        by (auto split: option.splits)
      then have "tpe_field_ok f" "has_fields f \<or> regex_ok regexp f b"
        using assms(5) by (auto simp: tpe_ok_def regex_ok_def)
      then obtain b' where "replacer regexp f b = Some b'" "NUL \<notin> set (pRes b')" "bufLen b' = int (length (pRes b'))"
        using replacer_wf [OF b(2)] by blast
      then show ?thesis
        using ids b(1) f unfolding MsgGetProp_def Let_def v_def [symmetric] by auto
    qed
  qed
qed


definition sample_time :: syslogTime where
  "sample_time = zero_time\<lparr>timeType := 2, month := 1, day := 2, wday := 5, hour := 3, secfracPrecision := 3, secfrac := 250,
     OffsetMode := CHR ''+'', OffsetHour := 1, year := 1970\<rparr>"

definition sample_env :: prop_env where
  "sample_env = \<lparr>permitSlash = False, inputName = ''imtcp'', resolvedFrom = (\<lambda>_. Some ''peer''), resolvedIP = (\<lambda>_. ''10.0.0.1''),
     jsonValue = (\<lambda>_ _. ''v''), allJSON = None, jsonMesg = ''{}'', msgUUID = ''00'', currTime = (\<lambda>_. sample_time),
     unixTime = 7200, uptime = 60, localHostName = ''here'', tzRules = gmtime_r\<rparr>"

definition sample_state :: msg_state where
  "sample_state = \<lparr>ms_msg = msg_example\<lparr>iFacility := 1, iSeverity := 5, tTIMESTAMP := sample_time, tRcvdAt := sample_time\<rparr>,
     ms_reported = no_cache, ms_generated = no_cache\<rparr>"

definition sample_tpe :: tpe_field where
  "sample_tpe = plain_field\<lparr>eCaseConv := tplCaseConvUpper, options := no_options\<lparr>bCSV := True\<rparr>\<rparr>"

lemma sample_seconds: "syslogTime2time_t sample_time = 93600"
  by code_simp

lemma sample_gmtime: "gmtime_r 93600 = \<lparr>tm_sec = 0, tm_min = 0, tm_hour = 2, tm_mday = 2, tm_mon = 0, tm_year = 70, tm_wday = 5, tm_gmtoff = 0\<rparr>"
  by code_simp

lemma sample_utc: "timeConvertToUTC lt sample_time = sample_time\<lparr>hour := 2, secfracPrecision := 6, OffsetHour := 0, inUTC := True\<rparr>"
  unfolding timeConvertToUTC_def sample_seconds timeval2syslogTime_def
  by (simp add: sample_gmtime) (simp add: sample_time_def zero_time_def to_signed_def)

lemma sample_times_ok: "time_ok sample_time" "time_ok (timeConvertToUTC lt sample_time)"
  unfolding sample_utc by (simp_all add: time_ok_def writable3339_def time_fields_ok_def secfrac_ok_def sample_time_def zero_time_def INT_MAX_def)

lemma sample_clean: "msg_clean (ms_msg sample_state)"
  by (simp add: msg_clean_def sample_state_def msg_example_def msgBaseConstruct_def getMSG_def raw_def pri_ok_def no_nul_def NUL_def)

lemma sample_env_ok: "env_clean sample_env"
  by (simp add: env_clean_def sample_env_def no_nul_def NUL_def now_ok_def sample_time_def zero_time_def)

lemma sample_state_ok: "times_ok sample_env sample_state"
  using sample_times_ok
  by (simp add: times_ok_def sample_env_def sample_state_def cache_ok_def no_cache_def)

lemma sample_tpe_ok: "tpe_ok None (Some sample_tpe)"
  by (simp add: tpe_ok_def by_day_of_year_def tpe_field_ok_def position_ok_def INT_MAX_def no_options_def NUL_def sample_tpe_def plain_field_def)


text \<open>The message keeps one RFC 3164 text for both formats of the day, so the format asked for first decides: a template
  that asks for \<open>date-rfc3164-buggyday\<close> after one that asked for the default format gets the default format.\<close>

theorem buggy_day_is_ignored:
  assumes "getTimeReported no_cache t tplFmtDefault = Some (s, c)"
  shows "getTimeReported c t tplFmtRFC3164BuggyDate = Some (fst (formatTimestamp3164 t False), c)"
  using assms by (auto simp: getTimeReported_def Let_def cached_def no_cache_def)

lemma buggy_day_differs: "fst (formatTimestamp3164 sample_time False) \<noteq> fst (formatTimestamp3164 sample_time True)"
  by code_simp

text \<open>Converting to UTC keeps the fraction but not its number of digits: a quarter of a second, received as
  \<open>.250\<close>, is written as 250 microseconds.\<close>

theorem utc_fraction_rescaled:
  "fst (formatTimestampSecFrac sample_time) = ''250'' \<and> getTimeUTC lt sample_time tplFmtSecFrac = Some ''000250''"
proof -
  have "fst (formatTimestampSecFrac sample_time) = ''250''"
      "fst (formatTimestampSecFrac (sample_time\<lparr>hour := 2, secfracPrecision := 6, OffsetHour := 0, inUTC := True\<rparr>)) = ''000250''"
    by code_simp+
  then show ?thesis
    by (simp add: getTimeUTC_def sample_utc)
qed

end
