(* ===== verification/Tpl_Parse.thy ===== *)
theory Tpl_Parse
  imports Msg_Prop Rs_Input "HOL-Library.Sublist"
begin

text \<open>
  Templates as they are configured (\<open>template.c\<close>): the parser of the traditional template line with its
  constants, parameters and options, and the entries made of \<open>property\<close> objects of the newer syntax.
  A template is a list of entries, each a constant or a field for the property replacer. The strings parsed
  have no NUL inside. The regular expression compiler is a parameter, as is the lookup of string generator
  modules; \<open>None\<close> stands for a library that cannot be loaded, for an expression that does not compile,
  or, as a result, for a read outside a string. Allocation succeeds.
\<close>

section \<open>Templates and entries\<close>

datatype tpl_entry =
    CONSTANT "string option" string
  | FIELD int tpe_field "regexec option"

datatype optFormatEscape = NO_ESCAPE | SQL_ESCAPE | STDSQL_ESCAPE | JSON_ESCAPE | JSONF

record rs_template =
  pszName :: string
  iLenName :: nat
  pStrgen :: "string option"
  pEntry :: "tpl_entry list"
  subtree :: "(int \<times> string) option"
  optEscape :: optFormatEscape
  optCaseSensitive :: bool

text \<open>A field and a template cleared by \<open>calloc\<close>.\<close>

definition zero_options :: tpe_options where
  "zero_options = \<lparr>bDropCC = False, bSpaceCC = False, bEscapeCC = False, bCompressSP = False, bDropLastLF = False,
     bSecPathDrop = False, bSecPathReplace = False, bSPIffNo1stSP = False, bCSV = False, bJSON = False, bJSONf = False,
     bJSONr = False, bJSONfr = False, bMandatory = False, bFromPosEndRelative = False, bFixedWidth = False, bDateInUTC = False,
     dataType = TPE_DATATYPE_STRING, onEmpty = TPE_DATAEMPTY_KEEP\<rparr>"

definition zero_field :: tpe_field where
  "zero_field = \<lparr>msgPropName = [], iFromPos = 0, iToPos = 0, iFieldNr = 0, has_regex = 0, iMatchToUse = 0, iSubMatchToUse = 0,
     typeRegexERE = False, nomatchAction = TPL_REGEX_NOMATCH_USE_DFLTSTR, has_fields = False, field_delim = NUL,
     eDateFormat = tplFmtDefault, eCaseConv = tplCaseConvNo, options = zero_options, fieldName = [], bComplexProcessing = False\<rparr>"

definition tplConstruct :: "string \<Rightarrow> rs_template" where
  "tplConstruct name = \<lparr>pszName = name, iLenName = length name, pStrgen = None, pEntry = [], subtree = None, optEscape = NO_ESCAPE, optCaseSensitive = False\<rparr>"

definition msgPropDescrFill :: "string \<Rightarrow> rsRetVal \<times> int \<times> string" where
  "msgPropDescrFill name =
     (case propNameToID name of (i, r) \<Rightarrow>
        if r \<noteq> RS_RET_OK then (RS_RET_INVLD_PROP, 0, [])
        else if i \<in> {PROP_CEE, PROP_LOCAL_VAR, PROP_GLOBAL_VAR}
        then (RS_RET_OK, i, CHR ''!'' # tl (if deref name = CHR ''$'' then tl name else name))
        else (RS_RET_OK, i, []))"

section \<open>Constants\<close>

definition isspace :: "char \<Rightarrow> bool" where
  "isspace c \<longleftrightarrow> c = CHR '' '' \<or> 9 \<le> byte_val c \<and> byte_val c \<le> 13"

text \<open>A decimal number as the parser reads it; the sum is an \<open>int\<close>.\<close>

definition scan_number :: "string \<Rightarrow> int \<times> string" where
  "scan_number p = (foldl (\<lambda>i c. to_int (i * 10 + byte_val c - 48)) 0 (takeWhile is_digit p), dropWhile is_digit p)"

function const_loop :: "bool \<Rightarrow> string \<Rightarrow> string \<times> string" where
  "const_loop bDoEscapes [] = ([], [])"
| "const_loop bDoEscapes (c # p) =
     (if c = CHR ''%'' \<or> bDoEscapes \<and> c = CHR 0x22 then ([], c # p)
      else if bDoEscapes \<and> c = CHR 0x5C then
        (case p of
           [] \<Rightarrow> ([NUL], [])
         | d # q \<Rightarrow>
             if d = CHR ''n'' then apfst (Cons (CHR 0x0A)) (const_loop bDoEscapes q)
             else if d = CHR ''r'' then apfst (Cons (CHR 0x0D)) (const_loop bDoEscapes q)
             else if is_digit d then apfst (Cons (to_char (fst (scan_number p)))) (const_loop bDoEscapes (dropWhile is_digit q))
             else apfst (Cons d) (const_loop bDoEscapes q))
      else apfst (Cons c) (const_loop bDoEscapes p))"
  by pat_completeness auto
termination
  by (relation "measure (\<lambda>(b, p). length p)") (auto simp: less_Suc_eq_le le_SucI length_dropWhile_le)

definition do_Constant :: "string \<Rightarrow> bool \<Rightarrow> tpl_entry \<times> string" where
  "do_Constant p bDoEscapes = (case const_loop bDoEscapes p of (s, p') \<Rightarrow> (CONSTANT None s, p'))"

section \<open>Options of a parameter\<close>

definition date_formats :: "(string \<times> tplFormatTypes) list" where
  "date_formats = [(''date-mysql'', tplFmtMySQLDate), (''date-pgsql'', tplFmtPgSQLDate), (''date-rfc3164'', tplFmtRFC3164Date),
     (''date-rfc3164-buggyday'', tplFmtRFC3164BuggyDate), (''date-rfc3339'', tplFmtRFC3339Date), (''date-unixtimestamp'', tplFmtUnixDate),
     (''date-subseconds'', tplFmtSecFrac), (''date-wdayname'', tplFmtWDayName), (''date-wday'', tplFmtWDay), (''date-year'', tplFmtYear),
     (''date-month'', tplFmtMonth), (''date-day'', tplFmtDay), (''date-hour'', tplFmtHour), (''date-minute'', tplFmtMinute),
     (''date-second'', tplFmtSecond), (''date-tzoffshour'', tplFmtTZOffsHour), (''date-tzoffsmin'', tplFmtTZOffsMin),
     (''date-tzoffsdirection'', tplFmtTZOffsDirection), (''date-ordinal'', tplFmtOrdinal), (''date-week'', tplFmtWeek),
     (''date-iso-week'', tplFmtISOWeek), (''date-iso-week-year'', tplFmtISOWeekYear)]"

definition hasFormat :: "tpe_options \<Rightarrow> bool" where
  "hasFormat o1 \<longleftrightarrow> bCSV o1 \<or> bJSON o1 \<or> bJSONf o1 \<or> bJSONr o1"

definition flag_options :: "(string \<times> (tpe_options \<Rightarrow> tpe_options)) list" where
  "flag_options = [(''date-utc'', \<lambda>u. u\<lparr>bDateInUTC := True\<rparr>), (''sp-if-no-1st-sp'', \<lambda>u. u\<lparr>bSPIffNo1stSP := True\<rparr>),
     (''compressspace'', \<lambda>u. u\<lparr>bCompressSP := True\<rparr>), (''escape-cc'', \<lambda>u. u\<lparr>bEscapeCC := True\<rparr>), (''drop-cc'', \<lambda>u. u\<lparr>bDropCC := True\<rparr>),
     (''space-cc'', \<lambda>u. u\<lparr>bSpaceCC := True\<rparr>), (''drop-last-lf'', \<lambda>u. u\<lparr>bDropLastLF := True\<rparr>),
     (''secpath-drop'', \<lambda>u. u\<lparr>bSecPathDrop := True\<rparr>), (''secpath-replace'', \<lambda>u. u\<lparr>bSecPathReplace := True\<rparr>),
     (''pos-end-relative'', \<lambda>u. u\<lparr>bFromPosEndRelative := True\<rparr>), (''fixed-width'', \<lambda>u. u\<lparr>bFixedWidth := True\<rparr>),
     (''csv'', \<lambda>u. if hasFormat u then u else u\<lparr>bCSV := True\<rparr>), (''json'', \<lambda>u. if hasFormat u then u else u\<lparr>bJSON := True\<rparr>),
     (''jsonf'', \<lambda>u. if hasFormat u then u else u\<lparr>bJSONf := True\<rparr>), (''jsonr'', \<lambda>u. if hasFormat u then u else u\<lparr>bJSONr := True\<rparr>),
     (''jsonfr'', \<lambda>u. if hasFormat u then u else u\<lparr>bJSONfr := True\<rparr>), (''mandatory-field'', \<lambda>u. u\<lparr>bMandatory := True\<rparr>)]"

text \<open>Unknown options are ignored.\<close>

definition set_option_word :: "string \<Rightarrow> tpe_field \<Rightarrow> tpe_field" where
  "set_option_word w f =
     (case map_of date_formats w of
        Some d \<Rightarrow> f\<lparr>eDateFormat := d\<rparr>
      | None \<Rightarrow>
          if w = ''lowercase'' then f\<lparr>eCaseConv := tplCaseConvLower\<rparr>
          else if w = ''uppercase'' then f\<lparr>eCaseConv := tplCaseConvUpper\<rparr>
          else case map_of flag_options w of
              Some g \<Rightarrow> f\<lparr>options := g (options f)\<rparr>
            | None \<Rightarrow> f)"

definition opt_char :: "char \<Rightarrow> bool" where
  "opt_char c \<longleftrightarrow> c \<noteq> CHR ''%'' \<and> c \<noteq> CHR '':''"

text \<open>One option has at most 63 bytes; the rest up to the comma is skipped.\<close>

function doOptions :: "string \<Rightarrow> tpe_field \<Rightarrow> tpe_field \<times> string" where
  "doOptions p f =
     (if p \<noteq> [] \<and> opt_char (hd p) then
        let word = takeWhile (\<lambda>c. opt_char c \<and> c \<noteq> CHR '','') p;
            p' = dropWhile (\<lambda>c. opt_char c \<and> c \<noteq> CHR '','') p;
            p'' = (if deref p' = CHR '','' then tl p' else p')
        in doOptions p'' (set_option_word (map tolower (take 63 word)) f)
      else (f, p))"
  by pat_completeness auto
termination
proof (relation "measure (\<lambda>(p, f). length p)", goal_cases)
  case (2 p f word p' p'')
  then obtain c q where p: "p = c # q"
    by (cases p) auto
  have "length p'' < length p"
  proof (cases "c = CHR '',''")
    case True
    then show ?thesis
      using 2 p by auto
  next
    case False
    then have "length p' \<le> length q"
      using 2 p by (auto intro: length_dropWhile_le)
    then show ?thesis
      using 2 p by auto
  qed
  then show ?case by simp
qed simp

declare doOptions.simps [simp del]


section \<open>Parameters\<close>

text \<open>A regular expression: its type, the submatch, what to use without a match, and the number of the match.\<close>

definition ends_word :: "string \<Rightarrow> bool" where
  "ends_word p \<longleftrightarrow> deref p \<in> {CHR '','', CHR '':''}"

definition eat_word :: "string \<Rightarrow> string \<Rightarrow> bool" where
  "eat_word w p \<longleftrightarrow> take (length w) p = w \<and> ends_word (drop (length w) p)"

definition regex_type :: "tpe_field \<Rightarrow> string \<Rightarrow> tpe_field \<times> string" where
  "regex_type f p =
     (if deref p = CHR '','' then
        let p = tl p
        in if eat_word ''BRE'' p then (f\<lparr>typeRegexERE := False\<rparr>, drop 3 p)
           else if eat_word ''ERE'' p then (f\<lparr>typeRegexERE := True\<rparr>, drop 3 p)
           else (f, p)
      else (f, p))"

definition opt_digit :: "string \<Rightarrow> int \<times> string" where
  "opt_digit p =
     (if deref p = CHR '','' then
        let p = tl p in if is_digit (deref p) then (byte_val (deref p) - 48, tl p) else (0, p)
      else (0, p))"

definition regex_nomatch :: "tpe_field \<Rightarrow> string \<Rightarrow> tpe_field \<times> string" where
  "regex_nomatch f p =
     (if deref p = CHR '','' then
        let p = tl p
        in if eat_word ''DFLT'' p then (f\<lparr>nomatchAction := TPL_REGEX_NOMATCH_USE_DFLTSTR\<rparr>, drop 4 p)
           else if eat_word ''BLANK'' p then (f\<lparr>nomatchAction := TPL_REGEX_NOMATCH_USE_BLANK\<rparr>, drop 5 p)
           else if eat_word ''FIELD'' p then (f\<lparr>nomatchAction := TPL_REGEX_NOMATCH_USE_WHOLE_FIELD\<rparr>, drop 5 p)
           else if eat_word ''ZERO'' p then (f\<lparr>nomatchAction := TPL_REGEX_NOMATCH_USE_ZERO\<rparr>, drop 4 p)
           else if deref p = CHR '','' then (f\<lparr>nomatchAction := TPL_REGEX_NOMATCH_USE_DFLTSTR\<rparr>, p)
           else (f, p)
      else (f, p))"

definition from_regex :: "tpe_field \<Rightarrow> string \<Rightarrow> tpe_field \<times> string" where
  "from_regex f p =
     (let (f1, p1) = regex_type f p;
          (sub, p2) = opt_digit p1;
          (f2, p3) = regex_nomatch (f1\<lparr>iSubMatchToUse := sub\<rparr>) p2;
          (nr, p4) = opt_digit p3;
          f3 = f2\<lparr>iMatchToUse := nr\<rparr>
      in if deref p4 \<noteq> CHR '':'' then (f3, p4) else (f3\<lparr>has_regex := 1\<rparr>, p4))"

text \<open>A field: its delimiter as the decimal code of a character, and a position.\<close>

definition from_field :: "tpe_field \<Rightarrow> string \<Rightarrow> rsRetVal \<times> tpe_field \<times> string" where
  "from_field f p =
     (if deref p = CHR '':'' then (RS_RET_OK, f\<lparr>has_fields := True, field_delim := CHR 0x09\<rparr>, p)
      else if deref p = CHR '','' then
        if \<not> is_digit (deref (tl p)) then (RS_RET_OK, f\<lparr>has_fields := True, field_delim := CHR 0x09\<rparr>, tl p)
        else (case scan_number (tl p) of (n, p1) \<Rightarrow>
          if n < 0 \<or> 255 < n then (RS_RET_OK, f\<lparr>has_fields := True, field_delim := CHR 0x09\<rparr>, p1)
          else
            let f1 = f\<lparr>has_fields := True, field_delim := to_char n\<rparr>
            in if deref p1 = CHR '','' then (case scan_number (tl p1) of (m, p2) \<Rightarrow> (RS_RET_OK, f1\<lparr>iFromPos := to_uint m\<rparr>, p2))
               else if deref p1 \<noteq> CHR '':'' then (RS_RET_SYNTAX_ERROR, f1, p1)
               else (RS_RET_OK, f1, p1))
      else (RS_RET_OK, f, p))"

definition skip_to_good :: "string \<Rightarrow> string" where
  "skip_to_good p = dropWhile opt_char p"

definition parse_frompos :: "tpe_field \<Rightarrow> string \<Rightarrow> rsRetVal \<times> tpe_field \<times> string" where
  "parse_frompos f p =
     (if deref p = CHR '':'' then
        let f1 = f\<lparr>bComplexProcessing := True\<rparr>; p1 = tl p
        in if deref p1 = CHR ''R'' then (RS_RET_OK, from_regex f1 (tl p1))
           else if deref p1 = CHR ''F'' then from_field f1 (tl p1)
           else (case scan_number p1 of (n, p2) \<Rightarrow> (RS_RET_OK, f1\<lparr>iFromPos := to_uint n\<rparr>, skip_to_good p2))
      else (RS_RET_OK, f, p))"

text \<open>\<open>strstr\<close> for the mark behind a regular expression: what is before it and what is behind it.\<close>

fun find_end :: "string \<Rightarrow> (string \<times> string) option" where
  "find_end p =
     (if take 5 p = ''--end'' then Some ([], drop 5 p)
      else case p of [] \<Rightarrow> None | c # q \<Rightarrow> map_option (apfst (Cons c)) (find_end q))"

declare find_end.simps [simp del]

type_synonym regex_lib = "(bool \<Rightarrow> string \<Rightarrow> regexec option) option"

definition compile_regex :: "regex_lib \<Rightarrow> tpe_field \<Rightarrow> string \<Rightarrow> tpe_field \<times> regexec option" where
  "compile_regex lib f s =
     (case lib of
        None \<Rightarrow> (f\<lparr>has_regex := 2\<rparr>, None)
      | Some regcomp \<Rightarrow>
          (case regcomp (typeRegexERE f) s of
             None \<Rightarrow> (f\<lparr>has_regex := 2\<rparr>, None)
           | Some re \<Rightarrow> (f, Some re)))"

definition topos_numbers :: "tpe_field \<Rightarrow> string \<Rightarrow> tpe_field \<times> string" where
  "topos_numbers f p =
     (case scan_number p of (n, p1) \<Rightarrow>
        if has_fields f then
          if deref p1 = CHR '','' then (case scan_number (tl p1) of (m, p2) \<Rightarrow> (f\<lparr>iFieldNr := to_uint n, iToPos := to_uint m\<rparr>, p2))
          else (f\<lparr>iFieldNr := to_uint n\<rparr>, p1)
        else (f\<lparr>iToPos := to_uint n\<rparr>, p1))"

definition parse_topos :: "regex_lib \<Rightarrow> tpe_field \<Rightarrow> string \<Rightarrow> tpe_field \<times> regexec option \<times> string" where
  "parse_topos lib f p =
     (if deref p = CHR '':'' then
        let p1 = tl p
        in if has_regex f \<noteq> 0 then
             (case find_end p1 of
                None \<Rightarrow> (f\<lparr>has_regex := 0\<rparr>, None, p1)
              | Some (s, p2) \<Rightarrow> (case compile_regex lib f s of (f1, re) \<Rightarrow> (f1, re, p2)))
           else if deref p1 = CHR ''$'' then (f\<lparr>iToPos := 9999999\<rparr>, None, tl p1)
           else (case topos_numbers f p1 of (f1, p2) \<Rightarrow> (f1, None, skip_to_good p2))
      else (f, None, p))"

definition order_positions :: "tpe_field \<Rightarrow> tpe_field" where
  "order_positions f =
     (if (if bFromPosEndRelative (options f) then iFromPos f < iToPos f else iToPos f < iFromPos f)
      then f\<lparr>iFromPos := iToPos f, iToPos := iFromPos f\<rparr> else f)"

text \<open>The name of the field is the one given or that of the property; for two kinds of variables the code steps over the
  two bytes in front, which a name of one byte does not have.\<close>

definition parse_fieldname :: "int \<Rightarrow> string \<Rightarrow> string \<Rightarrow> (string \<times> string) option" where
  "parse_fieldname i name p =
     (if deref p = CHR '':'' then Some (takeWhile opt_char (tl p), dropWhile opt_char (tl p))
      else if i \<in> {PROP_CEE, PROP_LOCAL_VAR} then if length name < 2 then None else Some (drop 2 name, p)
      else Some (name, p))"

definition do_Parameter :: "regex_lib \<Rightarrow> string \<Rightarrow> (rsRetVal \<times> tpl_entry \<times> string) option" where
  "do_Parameter lib p =
     (let name = takeWhile opt_char p; p1 = dropWhile opt_char p
      in case msgPropDescrFill name of (r, i, pname) \<Rightarrow>
        if r \<noteq> RS_RET_OK then Some (r, FIELD 0 zero_field None, p)
        else
          case parse_frompos (zero_field\<lparr>msgPropName := pname\<rparr>) p1 of (r1, f1, p2) \<Rightarrow>
            if r1 \<noteq> RS_RET_OK then Some (r1, FIELD i f1 None, p)
            else
              (case parse_topos lib f1 p2 of (f2, re, p3) \<Rightarrow>
               case (if deref p3 = CHR '':'' then doOptions (tl p3) f2 else (f2, p3)) of (f3, p4) \<Rightarrow>
               case parse_fieldname i name p4 of
                 None \<Rightarrow> None
               | Some (fname, p5) \<Rightarrow> Some (RS_RET_OK, FIELD i ((order_positions f3)\<lparr>fieldName := fname\<rparr>) re, tl p5)))"

section \<open>Template lines\<close>

text \<open>One entry, and the loop over the text of the template up to the closing quote. In the loop, an outer \<open>None\<close>
  would be a loop that does not end.\<close>

definition tpl_item :: "regex_lib \<Rightarrow> string \<Rightarrow> (rsRetVal \<times> tpl_entry \<times> string) option" where
  "tpl_item lib p = (if deref p = CHR ''%'' then do_Parameter lib (tl p) else Some (RS_RET_OK, do_Constant p True))"

partial_function (option) tpl_loop :: "regex_lib \<Rightarrow> tpl_entry list \<Rightarrow> string \<Rightarrow> (rsRetVal \<times> tpl_entry list \<times> string) option option" where
  "tpl_loop lib es p =
     (if p = [] then Some (Some (RS_RET_OK, es, p))
      else case tpl_item lib p of
          None \<Rightarrow> Some None
        | Some (r, e, p') \<Rightarrow>
            if r \<noteq> RS_RET_OK then Some (Some (r, es @ [e], p))
            else if deref p' = CHR 0x22 then Some (Some (RS_RET_OK, es @ [e], tl p'))
            else tpl_loop lib (es @ [e]) p')"

declare tpl_loop.simps [code]

definition set_tpl_option :: "string \<Rightarrow> rs_template \<Rightarrow> rs_template" where
  "set_tpl_option w t =
     (if w = ''stdsql'' then t\<lparr>optEscape := STDSQL_ESCAPE\<rparr>
      else if w = ''json'' then t\<lparr>optEscape := JSON_ESCAPE\<rparr>
      else if w = ''sql'' then t\<lparr>optEscape := SQL_ESCAPE\<rparr>
      else if w = ''nosql'' then t\<lparr>optEscape := NO_ESCAPE\<rparr>
      else if w = ''casesensitive'' then t\<lparr>optCaseSensitive := True\<rparr>
      else t)"

definition word_char :: "char \<Rightarrow> bool" where
  "word_char c \<longleftrightarrow> c \<noteq> CHR ''='' \<and> c \<noteq> CHR '','' \<and> c \<noteq> CHR 0x0A"

text \<open>An option word has at most 127 bytes; what follows is taken for the next one only behind a comma.\<close>

function tpl_options :: "string \<Rightarrow> rs_template \<Rightarrow> rs_template \<times> string" where
  "tpl_options p t =
     (let p1 = dropWhile isspace p
      in if deref p1 \<noteq> CHR '','' then (t, p1)
         else
           let p2 = dropWhile isspace (tl p1);
               w = takeWhile word_char (take 127 p2);
               p3 = drop (length w) p2;
               p4 = (if deref p3 = CHR 0x0A then tl p3 else p3)
           in tpl_options p4 (set_tpl_option (map tolower w) t))"
  by pat_completeness auto
termination
proof (relation "measure (\<lambda>(p, t). length p)", goal_cases)
  case (2 p t p1 p2 w p3 p4)
  have "length p4 \<le> length p3"
    using 2(6) by (simp only: length_tl diff_le_self order_refl simp_thms split: if_split)
  moreover have "length p3 \<le> length p2"
    using 2(5) by (simp only: length_drop diff_le_self)
  moreover have "length p2 \<le> length (tl p1)" "length p1 \<le> length p"
    using 2 length_dropWhile_le by metis+
  moreover have "p1 \<noteq> []"
    using 2(2) by (cases p1) (simp_all add: NUL_def)
  ultimately show ?case
    by (cases p1) auto
qed simp

declare tpl_options.simps [simp del]

text \<open>The line names a string generator; an option may be part of its name.\<close>

definition ends_with :: "string \<Rightarrow> nat \<Rightarrow> string \<Rightarrow> bool" where
  "ends_with s n e \<longleftrightarrow> map tolower (drop (length s - n) s) = e"

definition tplAddTplMod :: "(string \<Rightarrow> bool) \<Rightarrow> string \<Rightarrow> rs_template \<Rightarrow> rsRetVal \<times> rs_template \<times> string" where
  "tplAddTplMod findStrgen src t =
     (let szMod = takeWhile (\<lambda>c. \<not> isspace c) (take 2047 src);
          rest = drop (length szMod) src
      in if \<not> findStrgen szMod then (RS_RET_NOT_FOUND, t, rest)
         else
           let t1 = t\<lparr>pStrgen := Some szMod\<rparr>; n = length szMod
           in (RS_RET_OK,
               (if 6 < n \<and> ends_with szMod 7 '',stdsql'' then t1\<lparr>optEscape := STDSQL_ESCAPE\<rparr>
                else if 3 < n \<and> ends_with szMod 4 '',sql'' then t1\<lparr>optEscape := SQL_ESCAPE\<rparr>
                else if 4 < n \<and> ends_with szMod 4 '',json'' then t1\<lparr>optEscape := JSON_ESCAPE\<rparr>
                else t1), rest))"

definition apply_case_sensitivity :: "rs_template \<Rightarrow> rs_template" where
  "apply_case_sensitivity t =
     (if optCaseSensitive t then t
      else t\<lparr>pEntry := map (\<lambda>e. case e of
               FIELD i f re \<Rightarrow>
                 if i \<in> {PROP_CEE, PROP_LOCAL_VAR, PROP_GLOBAL_VAR}
                 then FIELD i (f\<lparr>fieldName := map tolower (fieldName f), msgPropName := map tolower (msgPropName f)\<rparr>) re else e
             | _ \<Rightarrow> e) (pEntry t)\<rparr>)"

text \<open>The template added to the configuration, whether the caller gets it, and the rest of the line.\<close>

definition tplAddLine :: "regex_lib \<Rightarrow> (string \<Rightarrow> bool) \<Rightarrow> string \<Rightarrow> string \<Rightarrow> (rs_template \<times> bool \<times> string) option option" where
  "tplAddLine lib findStrgen name line =
     (let t = tplConstruct name; p = dropWhile isspace line
      in if deref p = CHR ''='' then
           (case tplAddTplMod findStrgen (tl p) t of (r, t1, rest) \<Rightarrow>
              Some (Some (if r \<noteq> RS_RET_OK then t1\<lparr>pszName := []\<rparr> else t1, False, rest)))
         else if deref p \<noteq> CHR 0x22 then Some (Some (t\<lparr>pszName := []\<rparr>, False, line))
         else
           case tpl_loop lib [] (tl p) of
             None \<Rightarrow> None
           | Some None \<Rightarrow> Some None
           | Some (Some (r, es, p1)) \<Rightarrow>
               if r \<noteq> RS_RET_OK then Some (Some (t\<lparr>pEntry := es\<rparr>, False, line))
               else (case tpl_options p1 (t\<lparr>pEntry := es\<rparr>) of (t1, p2) \<Rightarrow> Some (Some (apply_case_sensitivity t1, True, p2))))"


section \<open>Templates of the configuration language\<close>

text \<open>Parameters that were given, in the order of the descriptor; the grammar checks their types.\<close>

datatype cnfval = Cstr string | Cnum int

fun cstr_of :: "cnfval \<Rightarrow> string" where
  "cstr_of (Cstr s) = s"
| "cstr_of (Cnum n) = []"

fun cnum_of :: "cnfval \<Rightarrow> int" where
  "cnum_of (Cstr s) = 0"
| "cnum_of (Cnum n) = n"

datatype formatType = F_NONE | F_CSV | F_JSON | F_JSONF | F_JSONR | F_JSONFR
datatype controlchr = CC_NONE | CC_ESCAPE | CC_SPACE | CC_DROP
datatype secpath = SP_NONE | SP_DROP | SP_REPLACE

record prop_params =
  pp_name :: string
  pp_outname :: "string option"
  pp_frompos :: int
  pp_topos :: "int option"
  pp_relative :: bool
  pp_fieldnum :: int
  pp_fielddelim :: int
  pp_re :: "string option"
  pp_re_ERE :: bool
  pp_nomatch :: tlpRegexNoMatchType
  pp_match :: int
  pp_submatch :: int
  pp_format :: formatType
  pp_controlchr :: controlchr
  pp_secpath :: secpath
  pp_caseconv :: tplFormatCaseConvTypes
  pp_datefmt :: tplFormatTypes
  pp_options :: tpe_options
  pp_complex :: bool

definition prop_defaults :: prop_params where
  "prop_defaults = \<lparr>pp_name = [], pp_outname = None, pp_frompos = - 1, pp_topos = None, pp_relative = False, pp_fieldnum = - 1,
     pp_fielddelim = 9, pp_re = None, pp_re_ERE = False, pp_nomatch = TPL_REGEX_NOMATCH_USE_DFLTSTR, pp_match = 0, pp_submatch = 0,
     pp_format = F_NONE, pp_controlchr = CC_NONE, pp_secpath = SP_NONE, pp_caseconv = tplCaseConvNo, pp_datefmt = tplFmtDefault,
     pp_options = zero_options, pp_complex = False\<rparr>"

definition property_date_formats :: "(string \<times> tplFormatTypes) list" where
  "property_date_formats = [(''mysql'', tplFmtMySQLDate), (''pgsql'', tplFmtPgSQLDate), (''rfc3164'', tplFmtRFC3164Date),
     (''rfc3164-buggyday'', tplFmtRFC3164BuggyDate), (''rfc3339'', tplFmtRFC3339Date), (''unixtimestamp'', tplFmtUnixDate),
     (''subseconds'', tplFmtSecFrac), (''wdayname'', tplFmtWDayName), (''wday'', tplFmtWDay), (''year'', tplFmtYear),
     (''month'', tplFmtMonth), (''day'', tplFmtDay), (''hour'', tplFmtHour), (''minute'', tplFmtMinute), (''second'', tplFmtSecond),
     (''tzoffshour'', tplFmtTZOffsHour), (''tzoffsmin'', tplFmtTZOffsMin), (''tzoffsdirection'', tplFmtTZOffsDirection),
     (''ordinal'', tplFmtOrdinal), (''week'', tplFmtWeek)]"

text \<open>One parameter of a \<open>property\<close> object; the flags are bit fields of one bit. \<open>None\<close> is the error for an
  invalid word.\<close>

definition set_prop_param :: "string \<times> cnfval \<Rightarrow> prop_params \<Rightarrow> prop_params option" where
  "set_prop_param p a =
     (case p of (n, v) \<Rightarrow>
      let flag = odd (to_int (cnum_of v)); num = to_int (cnum_of v); c = a\<lparr>pp_complex := True\<rparr> in
      if n = ''name'' then Some (a\<lparr>pp_name := cstr_of v\<rparr>)
      else if n = ''datatype'' then
        map_option (\<lambda>t. a\<lparr>pp_options := (pp_options a)\<lparr>dataType := t\<rparr>\<rparr>)
          (map_of [(''string'', TPE_DATATYPE_STRING), (''number'', TPE_DATATYPE_NUMBER), (''bool'', TPE_DATATYPE_BOOL),
             (''auto'', TPE_DATATYPE_AUTO)] (cstr_of v))
      else if n = ''onempty'' then
        map_option (\<lambda>t. a\<lparr>pp_options := (pp_options a)\<lparr>onEmpty := t\<rparr>\<rparr>)
          (map_of [(''keep'', TPE_DATAEMPTY_KEEP), (''skip'', TPE_DATAEMPTY_SKIP), (''null'', TPE_DATAEMPTY_NULL)] (cstr_of v))
      else if n = ''droplastlf'' then Some (c\<lparr>pp_options := (pp_options a)\<lparr>bDropLastLF := flag\<rparr>\<rparr>)
      else if n = ''fixedwidth'' then Some (c\<lparr>pp_options := (pp_options a)\<lparr>bFixedWidth := flag\<rparr>\<rparr>)
      else if n = ''mandatory'' then Some (a\<lparr>pp_options := (pp_options a)\<lparr>bMandatory := flag\<rparr>\<rparr>)
      else if n = ''spifno1stsp'' then Some (c\<lparr>pp_options := (pp_options a)\<lparr>bSPIffNo1stSP := flag\<rparr>\<rparr>)
      else if n = ''outname'' then Some (a\<lparr>pp_outname := Some (cstr_of v)\<rparr>)
      else if n = ''position.from'' then Some (c\<lparr>pp_frompos := num\<rparr>)
      else if n = ''position.to'' then Some (c\<lparr>pp_topos := Some num\<rparr>)
      else if n = ''position.relativetoend'' then Some (a\<lparr>pp_relative := (num \<noteq> 0)\<rparr>)
      else if n = ''field.number'' then Some (c\<lparr>pp_fieldnum := num\<rparr>)
      else if n = ''field.delimiter'' then Some (c\<lparr>pp_fielddelim := num\<rparr>)
      else if n = ''regex.expression'' then Some (c\<lparr>pp_re := Some (cstr_of v)\<rparr>)
      else if n = ''regex.type'' then
        map_option (\<lambda>t. c\<lparr>pp_re_ERE := t\<rparr>) (map_of [(''BRE'', False), (''ERE'', True)] (cstr_of v))
      else if n = ''regex.nomatchmode'' then
        map_option (\<lambda>t. c\<lparr>pp_nomatch := t\<rparr>)
          (map_of [(''DFLT'', TPL_REGEX_NOMATCH_USE_DFLTSTR), (''BLANK'', TPL_REGEX_NOMATCH_USE_BLANK),
             (''FIELD'', TPL_REGEX_NOMATCH_USE_WHOLE_FIELD), (''ZERO'', TPL_REGEX_NOMATCH_USE_ZERO)] (cstr_of v))
      else if n = ''regex.match'' then Some (c\<lparr>pp_match := num\<rparr>)
      else if n = ''regex.submatch'' then Some (c\<lparr>pp_submatch := num\<rparr>)
      else if n = ''format'' then
        map_option (\<lambda>t. c\<lparr>pp_format := t\<rparr>)
          (map_of [(''csv'', F_CSV), (''json'', F_JSON), (''jsonf'', F_JSONF), (''jsonr'', F_JSONR), (''jsonfr'', F_JSONFR)] (cstr_of v))
      else if n = ''controlcharacters'' then
        map_option (\<lambda>t. c\<lparr>pp_controlchr := t\<rparr>) (map_of [(''escape'', CC_ESCAPE), (''space'', CC_SPACE), (''drop'', CC_DROP)] (cstr_of v))
      else if n = ''securepath'' then
        map_option (\<lambda>t. c\<lparr>pp_secpath := t\<rparr>) (map_of [(''drop'', SP_DROP), (''replace'', SP_REPLACE)] (cstr_of v))
      else if n = ''caseconversion'' then
        map_option (\<lambda>t. c\<lparr>pp_caseconv := t\<rparr>) (map_of [(''lower'', tplCaseConvLower), (''upper'', tplCaseConvUpper)] (cstr_of v))
      else if n = ''compressspace'' then Some (c\<lparr>pp_options := (pp_options a)\<lparr>bCompressSP := flag\<rparr>\<rparr>)
      else if n = ''date.inutc'' then Some (a\<lparr>pp_options := (pp_options a)\<lparr>bDateInUTC := flag\<rparr>\<rparr>)
      else if n = ''dateformat'' then map_option (\<lambda>t. a\<lparr>pp_datefmt := t\<rparr>) (map_of property_date_formats (cstr_of v))
      else Some a)"

fun set_prop_params :: "(string \<times> cnfval) list \<Rightarrow> prop_params \<Rightarrow> prop_params option" where
  "set_prop_params [] a = Some a"
| "set_prop_params (p # ps) a = (case set_prop_param p a of None \<Rightarrow> None | Some b \<Rightarrow> set_prop_params ps b)"

text \<open>The sanity checks: the positions to use, or \<open>None\<close> for an error.\<close>

definition check_positions :: "prop_params \<Rightarrow> (int \<times> int) option" where
  "check_positions a =
     (let topos = (case pp_topos a of Some n \<Rightarrow> n | None \<Rightarrow> if pp_frompos a \<noteq> - 1 then 2000000000 else 0);
          frompos = (if pp_frompos a = - 1 \<and> pp_topos a \<noteq> None then 0 else pp_frompos a)
      in if (if pp_relative a then frompos < topos else 0 \<le> topos \<and> topos < frompos) \<or> pp_fieldnum a \<noteq> - 1 \<and> pp_re a \<noteq> None
         then None else Some (frompos, topos))"

definition format_options :: "prop_params \<Rightarrow> tpe_options" where
  "format_options a =
     (let u = (pp_options a)\<lparr>bCSV := (pp_format a = F_CSV), bJSON := (pp_format a = F_JSON), bJSONf := (pp_format a = F_JSONF),
                bJSONr := (pp_format a = F_JSONR), bJSONfr := (pp_format a = F_JSONFR)\<rparr>
      in u\<lparr>bEscapeCC := (pp_controlchr a = CC_ESCAPE), bSpaceCC := (pp_controlchr a = CC_SPACE), bDropCC := (pp_controlchr a = CC_DROP),
           bSecPathDrop := (pp_secpath a = SP_DROP), bSecPathReplace := (pp_secpath a = SP_REPLACE)\<rparr>)"

definition property_field :: "prop_params \<Rightarrow> string \<Rightarrow> int \<Rightarrow> int \<Rightarrow> tpe_field" where
  "property_field a pname frompos topos =
     (let outname = (case pp_outname a of Some n \<Rightarrow> n | None \<Rightarrow> if take 2 (pp_name a) = ''$!'' then drop 2 (pp_name a) else pp_name a);
          f = zero_field\<lparr>msgPropName := pname, options := format_options a, eCaseConv := pp_caseconv a, fieldName := outname,
                bComplexProcessing := pp_complex a, eDateFormat := pp_datefmt a\<rparr>;
          f1 = (if pp_fieldnum a \<noteq> - 1
                then f\<lparr>has_fields := True, iFieldNr := to_uint (pp_fieldnum a), field_delim := to_char (pp_fielddelim a)\<rparr> else f)
      in if frompos \<noteq> - 1
         then f1\<lparr>iFromPos := to_uint frompos, iToPos := to_uint topos, options := (options f1)\<lparr>bFromPosEndRelative := pp_relative a\<rparr>\<rparr>
         else f1)"

text \<open>The result, and the entry added to the template (none if the parameters are refused).\<close>

definition createPropertyTpe :: "regex_lib \<Rightarrow> (string \<times> cnfval) list \<Rightarrow> rsRetVal \<times> tpl_entry option" where
  "createPropertyTpe lib pvals =
     (case set_prop_params pvals prop_defaults of
        None \<Rightarrow> (RS_RET_ERR, None)
      | Some a \<Rightarrow>
          (case check_positions a of
             None \<Rightarrow> (RS_RET_ERR, None)
           | Some (frompos, topos) \<Rightarrow>
               (case msgPropDescrFill (pp_name a) of (r, i, pname) \<Rightarrow>
                  if r \<noteq> RS_RET_OK then (r, Some (FIELD 0 zero_field None))
                  else
                    let f = property_field a pname frompos topos
                    in case pp_re a of
                         None \<Rightarrow> (RS_RET_OK, Some (FIELD i f None))
                       | Some s \<Rightarrow>
                           let f1 = f\<lparr>typeRegexERE := pp_re_ERE a, nomatchAction := pp_nomatch a, iMatchToUse := to_short (pp_match a),
                                 iSubMatchToUse := to_short (pp_submatch a), has_regex := 1\<rparr>
                           in case compile_regex lib f1 s of (f2, re) \<Rightarrow>
                                (if has_regex f2 = 2 then RS_RET_ERR else RS_RET_OK, Some (FIELD i f2 re)))))"


text \<open>A \<open>constant\<close> object. Removing escapes and writing a JSON object are done by libraries; of the object's text
  the braces and spaces around it are cut off.\<close>

definition createConstantTpe :: "(string \<Rightarrow> string) \<Rightarrow> (string \<Rightarrow> string \<Rightarrow> string) \<Rightarrow> (string \<times> cnfval) list \<Rightarrow> rsRetVal \<times> tpl_entry option" where
  "createConstantTpe unescape json_object pvals =
     (let value = (case map_of pvals ''value'' of Some v \<Rightarrow> cstr_of v | None \<Rightarrow> []);
          outname = map_option cstr_of (map_of pvals ''outname'');
          fmt = map_option cstr_of (map_of pvals ''format'')
      in if fmt \<noteq> None \<and> fmt \<noteq> Some ''jsonf'' then (RS_RET_ERR, None)
         else if fmt = Some ''jsonf'' \<and> outname = None then (RS_RET_ERR, None)
         else if fmt = Some ''jsonf'' then
           (let sz = json_object (the outname) (unescape value)
            in (RS_RET_OK, Some (CONSTANT outname (take (length sz - 4) (drop 2 sz)))))
         else (RS_RET_OK, Some (CONSTANT outname (unescape value))))"

datatype cnfobj = CNFOBJ_PROPERTY "(string \<times> cnfval) list" | CNFOBJ_CONSTANT "(string \<times> cnfval) list"

record tpl_libs =
  regex :: regex_lib
  findStrgen :: "string \<Rightarrow> bool"
  unescapeStr :: "string \<Rightarrow> string"
  jsonObject :: "string \<Rightarrow> string \<Rightarrow> string"

definition createTpe :: "tpl_libs \<Rightarrow> cnfobj \<Rightarrow> rsRetVal \<times> tpl_entry option" where
  "createTpe libs x =
     (case x of
        CNFOBJ_PROPERTY pvals \<Rightarrow> createPropertyTpe (regex libs) pvals
      | CNFOBJ_CONSTANT pvals \<Rightarrow> createConstantTpe (unescapeStr libs) (jsonObject libs) pvals)"

fun createListTpl :: "tpl_libs \<Rightarrow> cnfobj list \<Rightarrow> rsRetVal \<times> tpl_entry list" where
  "createListTpl libs [] = (RS_RET_OK, [])"
| "createListTpl libs (x # xs) =
     (case createTpe libs x of (r, e) \<Rightarrow>
        let es = (case e of None \<Rightarrow> [] | Some y \<Rightarrow> [y])
        in if r \<noteq> RS_RET_OK then (r, es) else apsnd (append es) (createListTpl libs xs))"

text \<open>A template string of the newer syntax: no escapes, no closing quote.\<close>

definition str_item :: "regex_lib \<Rightarrow> string \<Rightarrow> (rsRetVal \<times> tpl_entry \<times> string) option" where
  "str_item lib p = (if deref p = CHR ''%'' then do_Parameter lib (tl p) else Some (RS_RET_OK, do_Constant p False))"

partial_function (option) str_loop :: "regex_lib \<Rightarrow> tpl_entry list \<Rightarrow> string \<Rightarrow> (rsRetVal \<times> tpl_entry list) option option" where
  "str_loop lib es p =
     (if p = [] then Some (Some (RS_RET_OK, es))
      else case str_item lib p of
          None \<Rightarrow> Some None
        | Some (r, e, p') \<Rightarrow> if r \<noteq> RS_RET_OK then Some (Some (r, es @ [e])) else str_loop lib (es @ [e]) p')"

declare str_loop.simps [code]

datatype tplType = T_STRING | T_PLUGIN | T_LIST | T_SUBTREE

record tpl_params =
  tp_name :: string
  tp_type :: tplType
  tp_string :: "string option"
  tp_subtree :: "(int \<times> string) option"
  tp_plugin :: "string option"
  tp_stdsql :: bool
  tp_sql :: bool
  tp_json :: bool
  tp_jsonf :: bool
  tp_casesensitive :: bool

definition tpl_defaults :: tpl_params where
  "tpl_defaults = \<lparr>tp_name = [], tp_type = T_STRING, tp_string = None, tp_subtree = None, tp_plugin = None, tp_stdsql = False,
     tp_sql = False, tp_json = False, tp_jsonf = False, tp_casesensitive = False\<rparr>"

definition set_tpl_param :: "string \<times> cnfval \<Rightarrow> tpl_params \<Rightarrow> rsRetVal \<times> tpl_params" where
  "set_tpl_param p a =
     (case p of (n, v) \<Rightarrow>
      let flag = (to_int (cnum_of v) \<noteq> 0) in
      if n = ''name'' then (RS_RET_OK, a\<lparr>tp_name := cstr_of v\<rparr>)
      else if n = ''type'' then
        (case map_of [(''string'', T_STRING), (''plugin'', T_PLUGIN), (''list'', T_LIST), (''subtree'', T_SUBTREE)] (cstr_of v) of
           None \<Rightarrow> (RS_RET_ERR, a)
         | Some t \<Rightarrow> (RS_RET_OK, a\<lparr>tp_type := t\<rparr>))
      else if n = ''string'' then (RS_RET_OK, a\<lparr>tp_string := Some (cstr_of v)\<rparr>)
      else if n = ''subtree'' then
        if take 2 (cstr_of v) \<noteq> ''$!'' then (RS_RET_ERR, a)
        else (case msgPropDescrFill (cstr_of v) of (r, i, pname) \<Rightarrow>
          if r \<noteq> RS_RET_OK then (r, a) else (RS_RET_OK, a\<lparr>tp_subtree := Some (i, pname)\<rparr>))
      else if n = ''plugin'' then (RS_RET_OK, a\<lparr>tp_plugin := Some (cstr_of v)\<rparr>)
      else if n = ''option.stdsql'' then (RS_RET_OK, a\<lparr>tp_stdsql := flag\<rparr>)
      else if n = ''option.sql'' then (RS_RET_OK, a\<lparr>tp_sql := flag\<rparr>)
      else if n = ''option.json'' then (RS_RET_OK, a\<lparr>tp_json := flag\<rparr>)
      else if n = ''option.jsonf'' then (RS_RET_OK, a\<lparr>tp_jsonf := flag\<rparr>)
      else if n = ''option.casesensitive'' then (RS_RET_OK, a\<lparr>tp_casesensitive := flag\<rparr>)
      else (RS_RET_OK, a))"

fun set_tpl_params :: "(string \<times> cnfval) list \<Rightarrow> tpl_params \<Rightarrow> rsRetVal \<times> tpl_params" where
  "set_tpl_params [] a = (RS_RET_OK, a)"
| "set_tpl_params (p # ps) a = (case set_tpl_param p a of (r, b) \<Rightarrow> if r \<noteq> RS_RET_OK then (r, b) else set_tpl_params ps b)"

definition count_true :: "bool list \<Rightarrow> nat" where
  "count_true bs = length (filter (\<lambda>b. b) bs)"

definition tpl_params_ok :: "tpl_params \<Rightarrow> cnfobj list \<Rightarrow> bool" where
  "tpl_params_ok a subobjs \<longleftrightarrow> (tp_type a = T_STRING \<longrightarrow> tp_string a \<noteq> None) \<and> (tp_type a = T_PLUGIN \<longrightarrow> tp_plugin a \<noteq> None)
     \<and> (tp_type a = T_SUBTREE \<longrightarrow> tp_subtree a \<noteq> None) \<and> (tp_type a = T_LIST \<longrightarrow> subobjs \<noteq> [])
     \<and> count_true [tp_sql a, tp_stdsql a, tp_json a, tp_jsonf a] \<le> 1"

text \<open>The body of the template. Errors in a list of objects are not passed on.\<close>

definition tpl_body :: "tpl_libs \<Rightarrow> tpl_params \<Rightarrow> cnfobj list \<Rightarrow> rs_template \<Rightarrow> (rsRetVal \<times> rs_template) option option" where
  "tpl_body libs a subobjs t =
     (case tp_type a of
        T_STRING \<Rightarrow> map_option (map_option (\<lambda>(r, es). (r, t\<lparr>pEntry := es\<rparr>))) (str_loop (regex libs) [] (the (tp_string a)))
      | T_PLUGIN \<Rightarrow> (case tplAddTplMod (findStrgen libs) (the (tp_plugin a)) t of (r, t1, rest) \<Rightarrow> Some (Some (r, t1)))
      | T_LIST \<Rightarrow> Some (Some (RS_RET_OK, t\<lparr>pEntry := snd (createListTpl libs subobjs)\<rparr>))
      | T_SUBTREE \<Rightarrow> Some (Some (RS_RET_OK, t\<lparr>subtree := tp_subtree a\<rparr>)))"

definition tpl_finish :: "tpl_params \<Rightarrow> rs_template \<Rightarrow> rs_template" where
  "tpl_finish a t =
     apply_case_sensitivity (t\<lparr>optEscape := (if tp_stdsql a then STDSQL_ESCAPE else if tp_sql a then SQL_ESCAPE
          else if tp_json a then JSON_ESCAPE else if tp_jsonf a then JSONF else NO_ESCAPE),
        optCaseSensitive := optCaseSensitive t \<or> tp_casesensitive a\<rparr>)"

text \<open>The result and the template added to the configuration, if it got that far.\<close>

definition tplProcessCnf :: "tpl_libs \<Rightarrow> (string \<times> cnfval) list \<Rightarrow> cnfobj list \<Rightarrow> (rsRetVal \<times> rs_template option) option option" where
  "tplProcessCnf libs pvals subobjs =
     (case set_tpl_params pvals tpl_defaults of (r, a) \<Rightarrow>
        if r \<noteq> RS_RET_OK then Some (Some (r, None))
        else if \<not> tpl_params_ok a subobjs then Some (Some (RS_RET_ERR, None))
        else
          map_option (map_option (\<lambda>(r1, t1). if r1 \<noteq> RS_RET_OK then (r1, Some (t1\<lparr>pszName := []\<rparr>)) else (RS_RET_OK, Some (tpl_finish a t1))))
            (tpl_body libs a subobjs (tplConstruct (tp_name a))))"

definition tplFind :: "rs_template list \<Rightarrow> string \<Rightarrow> nat \<Rightarrow> rs_template option" where
  "tplFind templates name len = find (\<lambda>t. iLenName t = len \<and> pszName t = name) templates"

section \<open>What is left to parse\<close>

text \<open>Every step leaves a suffix of its text.\<close>

lemmas suffix_steps = suffix_dropWhile suffix_drop suffix_tl suffix_order.refl suffix_tl [THEN suffix_order.trans]
  suffix_drop [THEN suffix_order.trans] suffix_dropWhile [THEN suffix_order.trans]

lemma const_loop_suffix: "suffix (snd (const_loop esc p)) p"
proof (induction esc p rule: const_loop.induct)
  case (2 esc c p)
  show ?case
  proof (cases p)
    case (Cons d q)
    have "suffix x (c # d # q)" if "suffix x (dropWhile is_digit q) \<or> suffix x q \<or> suffix x (d # q)" for x
      using that suffix_dropWhile [of is_digit q] by (auto intro: suffix_ConsI suffix_order.trans)
    then show ?thesis
      using 2 Cons by auto
  qed simp
qed simp

lemma const_loop_consumes:
  assumes "p \<noteq> []" "hd p \<noteq> CHR ''%''" "\<not> (esc \<and> hd p = CHR 0x22)"
  shows "length (snd (const_loop esc p)) < length p"
proof (cases p)
  case (Cons c q)
  have "length (snd (const_loop esc q')) \<le> length q'" "length (dropWhile is_digit q') \<le> length q'" for q'
    by (rule suffix_length_le [OF const_loop_suffix], rule length_dropWhile_le)
  note this(1) [of q] this(1) [of "tl q"] this(1) [of "dropWhile is_digit (tl q)"] this(2) [of "tl q"]
  then show ?thesis
    using assms Cons by (cases q) auto
qed (use assms in simp)

lemma doOptions_suffix: "suffix (snd (doOptions p f)) p"
proof (induction p f rule: doOptions.induct)
  case (1 p f)
  show ?case
  proof (cases "p \<noteq> [] \<and> opt_char (hd p)")
    case True
    define q where "q = dropWhile (\<lambda>c. opt_char c \<and> c \<noteq> CHR '','') p"
    define p'' where "p'' = (if deref q = CHR '','' then tl q else q)"
    have "suffix p'' p"
      by (auto simp: p''_def q_def intro: suffix_steps)
    moreover have "suffix (snd (doOptions p'' (set_option_word (map tolower (take 63 (takeWhile (\<lambda>c. opt_char c \<and> c \<noteq> CHR '','') p))) f))) p''"
      by (rule 1 [OF True refl q_def p''_def])
    ultimately have "suffix (snd (doOptions p'' (set_option_word (map tolower (take 63 (takeWhile (\<lambda>c. opt_char c \<and> c \<noteq> CHR '','') p))) f))) p"
      by (rule suffix_order.trans [rotated])
    then show ?thesis
      unfolding p''_def q_def by (subst doOptions.simps) (simp only: True simp_thms if_True Let_def)
  next
    case False
    then show ?thesis
      by (subst doOptions.simps) auto
  qed
qed

definition number_ok :: "int \<Rightarrow> bool" where
  "number_ok n \<longleftrightarrow> 0 \<le> n \<and> n \<le> INT_MAX"

text \<open>The parts of a field that the parser has to get right for the property replacer.\<close>

definition parsed_ok :: "tpe_field \<Rightarrow> bool" where
  "parsed_ok f \<longleftrightarrow> number_ok (iFromPos f) \<and> number_ok (iToPos f) \<and> iSubMatchToUse f \<in> {0..9} \<and> iMatchToUse f \<in> {0..9}
     \<and> has_regex f \<in> {0, 1, 2}"

lemma parsed_ok_zero: "parsed_ok (zero_field\<lparr>msgPropName := n\<rparr>)" "parsed_ok zero_field"
  by (simp_all add: parsed_ok_def zero_field_def number_ok_def INT_MAX_def)

lemma parsed_ok_keeps:
  assumes "parsed_ok f"
  shows "parsed_ok (f\<lparr>typeRegexERE := b\<rparr>)" "parsed_ok (f\<lparr>nomatchAction := a\<rparr>)" "parsed_ok (f\<lparr>has_fields := b, field_delim := c\<rparr>)"
    "parsed_ok (f\<lparr>bComplexProcessing := b\<rparr>)" "parsed_ok (f\<lparr>fieldName := s\<rparr>)" "parsed_ok (f\<lparr>eDateFormat := d\<rparr>)"
    "parsed_ok (f\<lparr>eCaseConv := v\<rparr>)" "parsed_ok (f\<lparr>options := u\<rparr>)" "parsed_ok (f\<lparr>iFieldNr := n\<rparr>)"
    "number_ok n \<Longrightarrow> parsed_ok (f\<lparr>iFromPos := n\<rparr>)" "number_ok n \<Longrightarrow> parsed_ok (f\<lparr>iToPos := n\<rparr>)"
    "number_ok n \<Longrightarrow> parsed_ok (f\<lparr>iFieldNr := m, iToPos := n\<rparr>)"
    "k \<in> {0..9} \<Longrightarrow> parsed_ok (f\<lparr>iSubMatchToUse := k\<rparr>)" "k \<in> {0..9} \<Longrightarrow> parsed_ok (f\<lparr>iMatchToUse := k\<rparr>)"
    "k \<in> {0, 1, 2} \<Longrightarrow> parsed_ok (f\<lparr>has_regex := k\<rparr>)"
  using assms by (simp_all add: parsed_ok_def)

lemma opt_digit_range: "fst (opt_digit p) \<in> {0..9}"
  by (auto simp: opt_digit_def Let_def is_digit_def)

lemma opt_digit_suffix: "suffix (snd (opt_digit p)) p"
  by (auto simp: opt_digit_def Let_def intro: suffix_steps)

lemma regex_type_suffix: "suffix (snd (regex_type f p)) p"
  by (auto simp: regex_type_def Let_def intro: suffix_steps)

lemma regex_nomatch_suffix: "suffix (snd (regex_nomatch f p)) p"
  by (auto simp: regex_nomatch_def Let_def intro: suffix_steps)

lemma from_regex_shape:
  "\<exists>g q k. from_regex f p = (if deref q = CHR '':'' then g\<lparr>iMatchToUse := k, has_regex := 1\<rparr> else g\<lparr>iMatchToUse := k\<rparr>, q)
     \<and> suffix q p \<and> k \<in> {0..9} \<and> has_regex g = has_regex f \<and> (parsed_ok f \<longrightarrow> parsed_ok g)"
proof -
  obtain f1 p1 where 1: "regex_type f p = (f1, p1)"
    by fastforce
  obtain s p2 where 2: "opt_digit p1 = (s, p2)"
    by fastforce
  obtain f2 p3 where 3: "regex_nomatch (f1\<lparr>iSubMatchToUse := s\<rparr>) p2 = (f2, p3)"
    by fastforce
  obtain m p4 where 4: "opt_digit p3 = (m, p4)"
    by fastforce
  have "suffix p1 p" "suffix p2 p1" "suffix p3 p2" "suffix p4 p3"
    using regex_type_suffix [of f p] opt_digit_suffix [of p1] regex_nomatch_suffix [of "f1\<lparr>iSubMatchToUse := s\<rparr>" p2]
      opt_digit_suffix [of p3] 1 2 3 4 by simp_all
  then have "suffix p4 p"
    using suffix_order.trans by blast
  moreover have "s \<in> {0..9}" "m \<in> {0..9}"
    using opt_digit_range [of p1] opt_digit_range [of p3] 2 4 by simp_all
  moreover have "parsed_ok f1" if "parsed_ok f"
    using that 1 by (auto simp: regex_type_def Let_def intro: parsed_ok_keeps split: if_splits)
  then have "parsed_ok f2" if "parsed_ok f"
    using that \<open>s \<in> {0..9}\<close> 3 by (auto simp: regex_nomatch_def Let_def intro!: parsed_ok_keeps split: if_splits)
  moreover have "has_regex f2 = has_regex f"
    using 1 3 by (auto simp: regex_type_def regex_nomatch_def Let_def split: if_splits)
  ultimately show ?thesis
    by (intro exI [of _ f2] exI [of _ p4] exI [of _ m]) (simp add: from_regex_def 1 2 3 4 Let_def)
qed

lemma from_regex_suffix: "suffix (snd (from_regex f p)) p"
  using from_regex_shape [of f p] by auto

lemma from_regex_ok: "parsed_ok f \<Longrightarrow> parsed_ok (fst (from_regex f p))"
  using from_regex_shape [of f p] by (auto simp: parsed_ok_keeps)

lemma from_regex_has:
  assumes "has_regex f = 0"
  shows "has_regex (fst (from_regex f p)) = (if deref (snd (from_regex f p)) = CHR '':'' then 1 else 0)"
proof -
  obtain g q k where "from_regex f p = (if deref q = CHR '':'' then g\<lparr>iMatchToUse := k, has_regex := 1\<rparr> else g\<lparr>iMatchToUse := k\<rparr>, q)"
      "has_regex g = has_regex f"
    using from_regex_shape [of f p] by blast
  then show ?thesis
    using assms by simp
qed

lemma scan_number_suffix: "suffix (snd (scan_number p)) p"
  by (simp add: scan_number_def suffix_dropWhile)

lemma from_field_suffix: "suffix (snd (snd (from_field f p))) p"
proof -
  have "suffix (snd (scan_number (tl p))) p" "suffix (snd (scan_number (tl (snd (scan_number (tl p)))))) p"
    using scan_number_suffix suffix_tl suffix_order.trans by metis+
  then show ?thesis
    by (auto simp: from_field_def Let_def suffix_tl split: prod.splits)
qed

lemma frompos_suffix: "suffix (snd (snd (parse_frompos f p))) p"
proof -
  have "suffix (snd (from_regex f' (tl (tl p)))) p" "suffix (snd (snd (from_field f' (tl (tl p))))) p" for f'
    using from_regex_suffix [of f' "tl (tl p)"] from_field_suffix [of f' "tl (tl p)"] suffix_tl suffix_order.trans by metis+
  moreover have "suffix (skip_to_good (snd (scan_number (tl p)))) p"
    using scan_number_suffix [of "tl p"] suffix_dropWhile suffix_tl suffix_order.trans unfolding skip_to_good_def by metis
  ultimately show ?thesis
    by (auto simp: parse_frompos_def Let_def split: prod.splits)
qed

lemma find_end_suffix: "find_end p = Some (s, p') \<Longrightarrow> suffix p' p"
proof (induction p arbitrary: s rule: find_end.induct)
  case (1 p)
  show ?case
  proof (cases "take 5 p = ''--end''")
    case True
    then show ?thesis
      using "1.prems" by (auto simp: find_end.simps [of p] intro: suffix_drop)
  next
    case False
    then obtain c q where p: "p = c # q"
      using "1.prems" by (cases p) (auto simp: find_end.simps)
    then obtain s' where "find_end q = Some (s', p')"
      using "1.prems" False by (subst (asm) find_end.simps) (auto simp: apfst_def map_prod_def)
    then show ?thesis
      using "1.IH" [OF False p] p by (fastforce intro: suffix_ConsI)
  qed
qed

lemma topos_suffix: "suffix (snd (snd (parse_topos lib f p))) p"
proof -
  have "suffix (snd (scan_number (tl p))) p" "suffix (snd (scan_number (tl (snd (scan_number (tl p)))))) p"
    using scan_number_suffix suffix_tl suffix_order.trans by metis+
  then have "suffix (snd (topos_numbers f (tl p))) p"
    by (auto simp: topos_numbers_def split: prod.splits)
  then have "suffix (skip_to_good (snd (topos_numbers f (tl p)))) p"
    using suffix_dropWhile suffix_order.trans unfolding skip_to_good_def by metis
  moreover have "suffix p' p" if "find_end (tl p) = Some (s, p')" for s p'
    using find_end_suffix [OF that] suffix_tl suffix_order.trans by metis
  moreover have "suffix (tl p) p" "suffix (tl (tl p)) p"
    using suffix_tl suffix_order.trans by metis+
  ultimately show ?thesis
    by (auto simp: parse_topos_def Let_def split: prod.splits option.splits)
qed

lemma fieldname_suffix: "parse_fieldname i name p = Some (n, p') \<Longrightarrow> suffix p' p"
  by (auto simp: parse_fieldname_def intro: suffix_steps split: if_splits)


lemma do_Parameter_suffix:
  assumes "do_Parameter lib p = Some (r, e, p')"
  shows "suffix p' p"
proof -
  obtain r0 i pname where m: "msgPropDescrFill (takeWhile opt_char p) = (r0, i, pname)"
    by (cases "msgPropDescrFill (takeWhile opt_char p)") auto
  define p1 where "p1 = dropWhile opt_char p"
  obtain r1 f1 p2 where 1: "parse_frompos (zero_field\<lparr>msgPropName := pname\<rparr>) p1 = (r1, f1, p2)"
    by (cases "parse_frompos (zero_field\<lparr>msgPropName := pname\<rparr>) p1") auto
  obtain f2 re p3 where 2: "parse_topos lib f1 p2 = (f2, re, p3)"
    by (cases "parse_topos lib f1 p2") auto
  define o3 where "o3 = (if deref p3 = CHR '':'' then doOptions (tl p3) f2 else (f2, p3))"
  have s: "suffix p1 p" "suffix p2 p1" "suffix p3 p2" "suffix (snd o3) p3"
    using frompos_suffix [of "zero_field\<lparr>msgPropName := pname\<rparr>" p1] topos_suffix [of lib f1 p2] doOptions_suffix [of "tl p3" f2]
      suffix_order.trans [OF doOptions_suffix [of "tl p3" f2] suffix_tl] 1 2
    by (simp_all add: o3_def p1_def suffix_dropWhile)
  have *: "suffix (tl p5) p" if "parse_fieldname i (takeWhile opt_char p) (snd o3) = Some (n, p5)" for n p5
    using fieldname_suffix [OF that] s suffix_tl [of p5] suffix_order.trans by metis
  show ?thesis
    using assms unfolding do_Parameter_def Let_def m prod.case p1_def [symmetric] 1 2 o3_def [symmetric]
    by (auto simp: case_prod_beta * split: if_splits option.splits)
qed

lemma do_Constant_suffix: "suffix (snd (do_Constant p esc)) p"
  using const_loop_suffix [of esc p] by (simp add: do_Constant_def case_prod_beta)

lemma do_Parameter_shorter: "do_Parameter lib p = Some (r, e, p') \<Longrightarrow> length p' \<le> length p"
  by (rule suffix_length_le [OF do_Parameter_suffix])

lemma tpl_item_shorter:
  assumes "p \<noteq> []" "tpl_item lib p = Some (r, e, p')" "deref p' \<noteq> CHR 0x22"
  shows "length p' < length p"
proof (cases "deref p = CHR ''%''")
  case True
  then show ?thesis
    using assms do_Parameter_shorter [of lib "tl p" r e p'] by (cases p) (auto simp: tpl_item_def)
next
  case False
  obtain s q where c: "const_loop True p = (s, q)"
    by fastforce
  then have q: "p' = q"
    using assms(2) False by (auto simp: tpl_item_def do_Constant_def)
  have "hd p \<noteq> CHR 0x22"
  proof
    assume "hd p = CHR 0x22"
    then have "const_loop True p = ([], p)"
      using assms(1) by (cases p) auto
    then show False
      using \<open>hd p = CHR 0x22\<close> assms(1,3) c q by (cases p) auto
  qed
  then show ?thesis
    using const_loop_consumes [of p True] assms(1) False c q by (cases p) auto
qed

lemma tpl_loop_returns: "\<exists>r. tpl_loop lib es p = Some r"
proof (induction p arbitrary: es rule: length_induct)
  case (1 p)
  show ?case
  proof (cases "p = []")
    case False
    show ?thesis
    proof (cases "tpl_item lib p")
      case (Some x)
      obtain r e p' where x: "x = (r, e, p')"
        by (cases x) auto
      show ?thesis
        using False Some x 1 tpl_item_shorter [OF False, of lib r e p']
        by (subst tpl_loop.simps) auto
    qed (simp add: tpl_loop.simps False)
  qed (simp add: tpl_loop.simps)
qed

lemma str_item_shorter:
  assumes "p \<noteq> []" "str_item lib p = Some (r, e, p')"
  shows "length p' < length p"
proof (cases "deref p = CHR ''%''")
  case True
  then show ?thesis
    using assms do_Parameter_shorter [of lib "tl p" r e p'] by (cases p) (auto simp: str_item_def)
next
  case False
  then show ?thesis
    using assms const_loop_consumes [of p False]
    by (cases p; cases "const_loop False p") (auto simp: str_item_def do_Constant_def simp del: const_loop.simps)
qed

lemma str_loop_returns: "\<exists>r. str_loop lib es p = Some r"
proof (induction p arbitrary: es rule: length_induct)
  case (1 p)
  show ?case
  proof (cases "p = []")
    case False
    show ?thesis
    proof (cases "str_item lib p")
      case (Some x)
      obtain r e p' where x: "x = (r, e, p')"
        by (cases x) auto
      show ?thesis
        using False Some x 1 str_item_shorter [OF False, of lib r e p']
        by (subst str_loop.simps) auto
    qed (simp add: str_loop.simps False)
  qed (simp add: str_loop.simps)
qed

text \<open>(C16) Parsing a template ends for every text, well-formed or not: the loops over a traditional template line and over a
  template string of the newer syntax return a result.\<close>

theorem template_parsing_ends:
  "(\<exists>r. tplAddLine lib strgens name line = Some r) \<and> (\<exists>r. tplProcessCnf libs pvals subobjs = Some r)"
proof
  obtain r where "tpl_loop lib [] (tl (dropWhile isspace line)) = Some r"
    using tpl_loop_returns by blast
  then show "\<exists>r. tplAddLine lib strgens name line = Some r"
    by (cases r) (auto simp: tplAddLine_def Let_def split: prod.splits)
  have "\<exists>r. tpl_body libs a subobjs t = Some r" for a t
    using str_loop_returns [of "regex libs" "[]" "the (tp_string a)"]
    by (cases "tp_type a") (auto simp: tpl_body_def split: prod.splits)
  then show "\<exists>r. tplProcessCnf libs pvals subobjs = Some r"
    by (fastforce simp: tplProcessCnf_def split: prod.splits)
qed

section \<open>Entries are well-formed\<close>

text \<open>No number in a text has more than nine digits.\<close>

fun small_numbers :: "nat \<Rightarrow> string \<Rightarrow> bool" where
  "small_numbers n [] = True"
| "small_numbers n (c # p) = (if is_digit c then n < 9 \<and> small_numbers (Suc n) p else small_numbers 0 p)"

lemma small_numbers_mono: "small_numbers n p \<Longrightarrow> m \<le> n \<Longrightarrow> small_numbers m p"
  by (induction n p arbitrary: m rule: small_numbers.induct) (auto split: if_splits)

lemma small_numbers_suffix: "small_numbers n p \<Longrightarrow> suffix q p \<Longrightarrow> small_numbers 0 q"
proof (induction n p rule: small_numbers.induct)
  case (2 n c p)
  then show ?case
    by (auto simp: suffix_Cons intro: small_numbers_mono split: if_splits)
qed simp

lemma small_numbers_digits: "small_numbers n p \<Longrightarrow> length (takeWhile is_digit p) + n \<le> 9 \<or> takeWhile is_digit p = []"
  by (induction n p rule: small_numbers.induct) (auto split: if_splits)

lemma digits_bound:
  assumes "list_all is_digit ds" "0 \<le> i" "i < 10 ^ k" "k + length ds \<le> 9"
  shows "0 \<le> foldl (\<lambda>i c. to_int (i * 10 + byte_val c - 48)) i ds \<and> foldl (\<lambda>i c. to_int (i * 10 + byte_val c - 48)) i ds < 10 ^ (k + length ds)"
  using assms
proof (induction ds arbitrary: i k)
  case (Cons d ds)
  have d: "48 \<le> byte_val d" "byte_val d \<le> 57"
    using Cons.prems(1) by (simp_all add: is_digit_def)
  have s: "0 \<le> i * 10 + byte_val d - 48" "i * 10 + byte_val d - 48 < 10 ^ Suc k"
    using Cons.prems(2,3) d by simp_all
  have "(10::int) ^ Suc k \<le> 10 ^ 9"
    using Cons.prems(4) by (intro power_increasing) simp_all
  then have t: "to_int (i * 10 + byte_val d - 48) = i * 10 + byte_val d - 48"
    using s by (intro to_int_id) simp_all
  show ?case
    using Cons.IH [of "i * 10 + byte_val d - 48" "Suc k"] Cons.prems(1,4) s by (simp add: t)
qed simp

lemma scan_number_small:
  assumes "small_numbers 0 p"
  shows "0 \<le> fst (scan_number p)" "fst (scan_number p) \<le> INT_MAX"
proof -
  have "length (takeWhile is_digit p) \<le> 9"
    using small_numbers_digits [OF assms] by auto
  moreover have "list_all is_digit (takeWhile is_digit p)"
    by (auto simp: list_all_iff dest: set_takeWhileD)
  ultimately have b: "0 \<le> fst (scan_number p)" "fst (scan_number p) < 10 ^ length (takeWhile is_digit p)"
    using digits_bound [of "takeWhile is_digit p" 0 0] by (simp_all add: scan_number_def)
  moreover have "(10::int) ^ length (takeWhile is_digit p) \<le> 10 ^ 9"
    using \<open>length (takeWhile is_digit p) \<le> 9\<close> by (intro power_increasing) simp_all
  ultimately show "0 \<le> fst (scan_number p)" "fst (scan_number p) \<le> INT_MAX"
    by (simp_all add: INT_MAX_def)
qed

lemma to_uint_number: "small_numbers 0 p \<Longrightarrow> number_ok (to_uint (fst (scan_number p)))"
  using scan_number_small [of p] by (simp add: number_ok_def to_uint_def INT_MAX_def)

lemma from_field_ok:
  assumes "parsed_ok f" "small_numbers 0 p"
  shows "parsed_ok (fst (snd (from_field f p)))"
proof -
  have "small_numbers 0 (tl (snd (scan_number (tl p))))"
    using small_numbers_suffix [OF assms(2)] scan_number_suffix suffix_tl suffix_order.trans by metis
  then have "number_ok (to_uint (fst (scan_number (tl (snd (scan_number (tl p)))))))"
    by (rule to_uint_number)
  then show ?thesis
    using assms(1) by (simp add: from_field_def Let_def case_prod_beta parsed_ok_keeps)
qed

lemma frompos_ok:
  assumes "parsed_ok f" "small_numbers 0 p"
  shows "parsed_ok (fst (snd (parse_frompos f p)))"
proof -
  have "small_numbers 0 (tl p)" "small_numbers 0 (tl (tl p))"
    using small_numbers_suffix [OF assms(2)] suffix_tl suffix_order.trans by metis+
  then show ?thesis
    using assms(1) to_uint_number [of "tl p"] from_regex_ok from_field_ok
    by (simp add: parse_frompos_def Let_def case_prod_beta parsed_ok_keeps)
qed

lemma topos_ok:
  assumes "parsed_ok f" "small_numbers 0 p"
  shows "parsed_ok (fst (parse_topos lib f p))"
proof -
  have s: "small_numbers 0 (tl p)" "small_numbers 0 (tl (snd (scan_number (tl p))))"
    using small_numbers_suffix [OF assms(2)] scan_number_suffix suffix_tl suffix_order.trans by metis+
  have n: "number_ok 9999999"
    by (simp add: number_ok_def INT_MAX_def)
  show ?thesis
    using assms(1) to_uint_number [OF s(1)] to_uint_number [OF s(2)]
    by (auto simp: parse_topos_def topos_numbers_def compile_regex_def Let_def case_prod_beta parsed_ok_keeps n split: option.splits)
qed

lemma set_option_word_ok: "parsed_ok f \<Longrightarrow> parsed_ok (set_option_word w f)"
  by (auto simp: set_option_word_def parsed_ok_keeps split: option.splits)

lemma doOptions_ok: "parsed_ok f \<Longrightarrow> parsed_ok (fst (doOptions p f))"
proof (induction p f rule: doOptions.induct)
  case (1 p f)
  then show ?case
    by (subst doOptions.simps) (simp add: Let_def set_option_word_ok)
qed

lemma order_positions_ok:
  assumes "parsed_ok f"
  shows "parsed_ok (order_positions f)" "position_ok (order_positions f)"
  using assms by (auto simp: order_positions_def parsed_ok_def position_ok_def number_ok_def)

lemma from_field_has: "has_regex (fst (snd (from_field f p))) = has_regex f"
  by (simp add: from_field_def Let_def case_prod_beta)

lemma frompos_has:
  assumes "has_regex f = 0"
  shows "has_regex (fst (snd (parse_frompos f p))) \<in> {0, 1}"
    "has_regex (fst (snd (parse_frompos f p))) \<noteq> 0 \<Longrightarrow> deref (snd (snd (parse_frompos f p))) = CHR '':''"
    "has_regex (fst (snd (parse_frompos f p))) \<noteq> 0 \<Longrightarrow> fst (parse_frompos f p) = RS_RET_OK"
  using assms from_regex_has [of "f\<lparr>bComplexProcessing := True\<rparr>" "tl (tl p)"]
  by (auto simp: parse_frompos_def Let_def case_prod_beta from_field_has split: if_splits)

lemma topos_has:
  assumes "has_regex f \<in> {0, 1}" "has_regex f \<noteq> 0 \<Longrightarrow> deref p = CHR '':''" "has_regex (fst (parse_topos lib f p)) = 1"
  shows "fst (snd (parse_topos lib f p)) \<noteq> None"
  using assms by (auto simp: parse_topos_def topos_numbers_def compile_regex_def Let_def case_prod_beta split: if_splits option.splits)

lemma set_option_word_has: "has_regex (set_option_word w f) = has_regex f"
  by (simp add: set_option_word_def split: option.splits)

lemma doOptions_has: "has_regex (fst (doOptions p f)) = has_regex f"
proof (induction p f rule: doOptions.induct)
  case (1 p f)
  then show ?case
    by (subst doOptions.simps) (simp add: Let_def set_option_word_has)
qed

definition entry_wf :: "tpl_entry \<Rightarrow> bool" where
  "entry_wf e \<longleftrightarrow> (case e of
       CONSTANT n s \<Rightarrow> True
     | FIELD i f re \<Rightarrow> parsed_ok f \<and> position_ok f \<and> NUL \<notin> set (fieldName f) \<and> (has_regex f = 1 \<longrightarrow> re \<noteq> None))"

lemma entry_wf_zero: "entry_wf (FIELD i zero_field re)"
  using parsed_ok_zero(2) by (simp add: entry_wf_def zero_field_def position_ok_def zero_options_def INT_MAX_def)

lemma from_field_error:
  assumes "fst (from_field f p) \<noteq> RS_RET_OK"
  shows "iFromPos (fst (snd (from_field f p))) = iFromPos f \<and> iToPos (fst (snd (from_field f p))) = iToPos f
    \<and> fieldName (fst (snd (from_field f p))) = fieldName f \<and> options (fst (snd (from_field f p))) = options f"
  using assms by (auto simp: from_field_def Let_def case_prod_beta split: if_splits)

lemma frompos_error:
  assumes "fst (parse_frompos (zero_field\<lparr>msgPropName := n\<rparr>) p) \<noteq> RS_RET_OK" "small_numbers 0 p"
  shows "entry_wf (FIELD i (fst (snd (parse_frompos (zero_field\<lparr>msgPropName := n\<rparr>) p))) None)"
proof -
  let ?z = "zero_field\<lparr>msgPropName := n\<rparr>"
  let ?f = "fst (snd (parse_frompos ?z p))"
  have "has_regex ?f = 0"
    using frompos_has(3) [of ?z p] assms(1) by (auto simp: zero_field_def)
  moreover have "iFromPos ?f = 0 \<and> iToPos ?f = 0 \<and> fieldName ?f = [] \<and> options ?f = zero_options"
    using assms(1) from_field_error [of "?z\<lparr>bComplexProcessing := True\<rparr>" "tl (tl p)"]
    by (auto simp: parse_frompos_def Let_def case_prod_beta zero_field_def split: if_splits)
  moreover have "parsed_ok ?f"
    by (rule frompos_ok [OF parsed_ok_zero(1) assms(2)])
  ultimately show ?thesis
    by (simp add: entry_wf_def position_ok_def zero_options_def INT_MAX_def)
qed

lemma takeWhile_NUL: "NUL \<notin> set p \<Longrightarrow> NUL \<notin> set (takeWhile P p)"
  by (auto dest: set_takeWhileD)

lemma fieldname_NUL:
  assumes "parse_fieldname i (takeWhile opt_char p) q = Some (n, q')" "suffix q p" "NUL \<notin> set p"
  shows "NUL \<notin> set n"
proof -
  have "NUL \<notin> set (tl q)"
    using assms(2,3) suffix_tl [of q] set_mono_suffix by blast
  then show ?thesis
    using assms(1,3) takeWhile_NUL by (auto simp: parse_fieldname_def split: if_splits dest: in_set_dropD set_takeWhileD)
qed

lemma do_Parameter_wf:
  assumes "do_Parameter lib p = Some (r, e, p')" "small_numbers 0 p" "NUL \<notin> set p"
  shows "entry_wf e"
proof -
  obtain r0 i pname where m: "msgPropDescrFill (takeWhile opt_char p) = (r0, i, pname)"
    by (cases "msgPropDescrFill (takeWhile opt_char p)") auto
  define p1 where "p1 = dropWhile opt_char p"
  let ?z = "zero_field\<lparr>msgPropName := pname\<rparr>"
  obtain r1 f1 p2 where 1: "parse_frompos ?z p1 = (r1, f1, p2)"
    by (cases "parse_frompos ?z p1") auto
  obtain f2 re p3 where 2: "parse_topos lib f1 p2 = (f2, re, p3)"
    by (cases "parse_topos lib f1 p2") auto
  define o3 where "o3 = (if deref p3 = CHR '':'' then doOptions (tl p3) f2 else (f2, p3))"
  have s: "suffix p1 p" "suffix p2 p" "suffix (snd o3) p"
  proof -
    show p1: "suffix p1 p"
      by (simp add: p1_def suffix_dropWhile)
    then show p2: "suffix p2 p"
      using frompos_suffix [of ?z p1] 1 by (auto intro: suffix_order.trans [of p2 p1 p])
    then have "suffix p3 p"
      using topos_suffix [of lib f1 p2] 2 by (auto intro: suffix_order.trans [of p3 p2 p])
    then show "suffix (snd o3) p"
      using suffix_order.trans [OF suffix_order.trans [OF doOptions_suffix suffix_tl], of p3 p f2] by (simp add: o3_def)
  qed
  note small = small_numbers_suffix [OF assms(2)]
  have ok: "parsed_ok f1" "parsed_ok f2"
    using frompos_ok [OF parsed_ok_zero(1) small [OF s(1)], of pname] 1 topos_ok [of f1 p2 lib] small [OF s(2)] 2 by auto
  then have ok3: "parsed_ok (fst o3)"
    by (simp add: o3_def doOptions_ok)
  have "has_regex f1 \<in> {0, 1}" "has_regex f1 \<noteq> 0 \<Longrightarrow> deref p2 = CHR '':''"
    using frompos_has(1,2) [of ?z p1] 1 by (auto simp: zero_field_def)
  then have re: "has_regex (fst o3) = 1 \<Longrightarrow> re \<noteq> None"
    using topos_has [of f1 p2 lib] 2 by (auto simp: o3_def doOptions_has split: if_splits)
  have e3: "entry_wf (FIELD i ((order_positions (fst o3))\<lparr>fieldName := n\<rparr>) re)"
    if "parse_fieldname i (takeWhile opt_char p) (snd o3) = Some (n, p5)" for n p5
    using order_positions_ok [OF ok3] fieldname_NUL [OF that s(3) assms(3)] re
    by (auto simp: entry_wf_def parsed_ok_keeps position_ok_def order_positions_def split: if_splits)
  show ?thesis
    using assms(1) e3 entry_wf_zero frompos_error [OF _ small [OF s(1)], of pname i] 1
    unfolding do_Parameter_def Let_def m prod.case p1_def [symmetric] 1 2 o3_def [symmetric]
    by (auto simp: case_prod_beta split: if_splits option.splits)
qed

lemma tpl_loop_wf:
  assumes "tpl_loop lib es p = Some (Some (r, es', p'))" "small_numbers 0 p" "NUL \<notin> set p" "list_all entry_wf es"
  shows "list_all entry_wf es'"
  using assms
proof (induction p arbitrary: es rule: length_induct)
  case (1 p)
  show ?case
  proof (cases "p = []")
    case True
    then show ?thesis
      using "1.prems" by (simp add: tpl_loop.simps)
  next
    case False
    then obtain r1 e p1 where i: "tpl_item lib p = Some (r1, e, p1)"
      using "1.prems"(1) by (cases "tpl_item lib p") (auto simp: tpl_loop.simps [of lib es p])
    have small: "small_numbers 0 (tl p)" "NUL \<notin> set (tl p)"
      using small_numbers_suffix [OF "1.prems"(2) suffix_tl] "1.prems"(3) by (cases p; simp)+
    have e: "entry_wf e" and s: "suffix p1 p"
      using i do_Parameter_wf [OF _ small, of lib r1 e p1] do_Parameter_suffix [of lib "tl p" r1 e p1] do_Constant_suffix [of p True]
        suffix_order.trans [OF _ suffix_tl, of p1 p]
      by (auto simp: tpl_item_def do_Constant_def entry_wf_def case_prod_beta split: if_splits)
    have "small_numbers 0 p1" "NUL \<notin> set p1"
      using small_numbers_suffix [OF "1.prems"(2) s] set_mono_suffix [OF s] "1.prems"(3) by auto
    then show ?thesis
      using "1.prems"(1,4) "1.IH" i e False tpl_item_shorter [OF False i]
      by (subst (asm) tpl_loop.simps) (auto split: if_splits)
  qed
qed

lemma map_tolower_NUL: "NUL \<notin> set s \<Longrightarrow> NUL \<notin> set (map tolower s)"
proof (induction s)
  case (Cons c s)
  then show ?case
    using case_not_NUL(2) [of c] by auto
qed simp

lemma apply_case_wf: "list_all entry_wf (pEntry t) \<Longrightarrow> list_all entry_wf (pEntry (apply_case_sensitivity t))"
  using map_tolower_NUL
  by (auto simp: apply_case_sensitivity_def list_all_iff entry_wf_def parsed_ok_def position_ok_def split: tpl_entry.splits)

lemma pEntry_options: "pEntry (fst (tpl_options p t)) = pEntry t"
proof (induction p t rule: tpl_options.induct)
  case (1 p t)
  have "pEntry (set_tpl_option w t) = pEntry t" for w
    by (simp add: set_tpl_option_def)
  then show ?case
    using 1 by (subst tpl_options.simps) (simp add: Let_def)
qed



section \<open>Templates are read as they are written\<close>

text \<open>The parts of a template: a text, or a property with the positions and the options for it.\<close>

datatype tpl_part = Text string | Prop string nat nat "string list"

definition esc_char :: "char \<Rightarrow> string" where
  "esc_char c =
     (if c \<in> {CHR 0x5C, CHR 0x22, CHR ''%''} then [CHR 0x5C, c]
      else if c = CHR 0x0A then [CHR 0x5C, CHR ''n''] else if c = CHR 0x0D then [CHR 0x5C, CHR ''r''] else [c])"

fun join_words :: "string list \<Rightarrow> string" where
  "join_words [] = []"
| "join_words [w] = w"
| "join_words (w # ws) = w @ '','' @ join_words ws"

fun part_string :: "tpl_part \<Rightarrow> string" where
  "part_string (Text s) = concat (map esc_char s)"
| "part_string (Prop name a b ws) = ''%'' @ name @ '':'' @ dec_str a @ '':'' @ dec_str b @ '':'' @ join_words ws @ ''%''"

fun part_entry :: "tpl_part \<Rightarrow> tpl_entry" where
  "part_entry (Text s) = CONSTANT None s"
| "part_entry (Prop name a b ws) =
     (case msgPropDescrFill name of (r, i, pname) \<Rightarrow>
        FIELD i ((order_positions (fold set_option_word ws (zero_field\<lparr>msgPropName := pname, bComplexProcessing := True,
            iFromPos := int a, iToPos := int b\<rparr>)))\<lparr>fieldName := if i \<in> {PROP_CEE, PROP_LOCAL_VAR} then drop 2 name else name\<rparr>) None)"

definition word_ok :: "string \<Rightarrow> bool" where
  "word_ok w \<longleftrightarrow> w \<noteq> [] \<and> length w \<le> 63 \<and> list_all (\<lambda>c. opt_char c \<and> c \<noteq> CHR '','' \<and> tolower c = c) w"

fun part_ok :: "tpl_part \<Rightarrow> bool" where
  "part_ok (Text s) = (s \<noteq> [])"
| "part_ok (Prop name a b ws) \<longleftrightarrow> list_all opt_char name \<and> fst (msgPropDescrFill name) = RS_RET_OK
     \<and> (fst (snd (msgPropDescrFill name)) \<in> {PROP_CEE, PROP_LOCAL_VAR} \<longrightarrow> 2 \<le> length name)
     \<and> a < 10 ^ 9 \<and> b < 10 ^ 9 \<and> list_all word_ok ws"

text \<open>Two texts in a row would be read as one.\<close>

fun parts_ok :: "tpl_part list \<Rightarrow> bool" where
  "parts_ok [] = True"
| "parts_ok (p # ps) \<longleftrightarrow> part_ok p \<and> parts_ok ps \<and> (case ps of Text s # _ \<Rightarrow> (case p of Text _ \<Rightarrow> False | _ \<Rightarrow> True) | _ \<Rightarrow> True)"

lemma const_loop_text:
  assumes "deref rest \<in> {CHR ''%'', CHR 0x22}"
  shows "const_loop True (concat (map esc_char s) @ rest) = (s, rest)"
proof (induction s)
  case Nil
  then show ?case
    using assms by (cases rest) (auto simp: NUL_def)
next
  case (Cons c s)
  have d: "\<not> is_digit (CHR 0x5C)" "\<not> is_digit (CHR 0x22)" "\<not> is_digit (CHR ''%'')"
    by code_simp+
  show ?case
    using Cons d by (auto simp: esc_char_def)
qed

lemma doOptions_words:
  assumes "list_all word_ok ws" "\<not> opt_char (deref rest)" "rest \<noteq> []"
  shows "doOptions (join_words ws @ rest) f = (fold set_option_word ws f, rest)"
  using assms(1)
proof (induction ws arbitrary: f rule: join_words.induct)
  case 1
  then show ?case
    using assms(2,3) by (cases rest) (simp_all add: doOptions.simps)
next
  case (2 w)
  have w: "w \<noteq> []" "\<forall>c \<in> set w. opt_char c \<and> c \<noteq> CHR '',''" "map tolower w = w" "length w \<le> 63"
    using "2.prems" by (auto simp: word_ok_def list_all_iff map_idI)
  have stop: "\<not> (opt_char (deref rest) \<and> deref rest \<noteq> CHR '','')" "deref rest \<noteq> CHR '',''"
    using assms(2) by (auto simp: opt_char_def)
  have t: "takeWhile (\<lambda>c. opt_char c \<and> c \<noteq> CHR '','') (w @ rest) = w" "dropWhile (\<lambda>c. opt_char c \<and> c \<noteq> CHR '','') (w @ rest) = rest"
    using w(2) stop assms(3) by (cases rest; simp)+
  have h: "w @ rest \<noteq> [] \<and> opt_char (hd (w @ rest))"
    using w(1,2) by (cases w) auto
  have r: "doOptions rest g = (g, rest)" for g
    using assms(2,3) by (cases rest) (simp_all add: doOptions.simps)
  show ?case
    by (subst doOptions.simps) (simp only: h join_words.simps t Let_def if_True simp_thms stop if_False take_all [OF w(4)] w(3) r fold.simps id_apply o_apply)
next
  case (3 w v vs)
  let ?rest = "'','' @ join_words (v # vs) @ rest"
  have w: "w \<noteq> []" "\<forall>c \<in> set w. opt_char c \<and> c \<noteq> CHR '',''" "map tolower w = w" "length w \<le> 63"
    using "3.prems" by (auto simp: word_ok_def list_all_iff map_idI)
  have t: "takeWhile (\<lambda>c. opt_char c \<and> c \<noteq> CHR '','') (w @ ?rest) = w" "dropWhile (\<lambda>c. opt_char c \<and> c \<noteq> CHR '','') (w @ ?rest) = ?rest"
    using w(2) by simp_all
  have h: "w @ ?rest \<noteq> [] \<and> opt_char (hd (w @ ?rest))"
    using w(1,2) by (cases w) auto
  have c: "deref ?rest = CHR '',''" "tl ?rest = join_words (v # vs) @ rest"
    by simp_all
  have ih: "doOptions (join_words (v # vs) @ rest) g = (fold set_option_word (v # vs) g, rest)" for g
    using "3.IH" "3.prems" by simp
  have e: "join_words (w # v # vs) @ rest = w @ ?rest"
    by simp
  show ?case
    unfolding e
    by (subst doOptions.simps)
      (simp only: h t Let_def if_True simp_thms c take_all [OF w(4)] w(3) ih fold.simps id_apply o_apply)
qed

lemma scan_dec_str:
  assumes "n < 10 ^ 9" "\<not> is_digit (deref rest)"
  shows "scan_number (dec_str n @ rest) = (int n, rest)"
proof -
  have fold: "foldl (\<lambda>i c. to_int (i * 10 + byte_val c - 48)) (int v) ds = int (foldl (\<lambda>v c. 10 * v + nat (byte_val c - 48)) v ds)"
    if "list_all is_digit ds" "foldl (\<lambda>v c. 10 * v + nat (byte_val c - 48)) v ds < 10 ^ 9" for v ds
    using that
  proof (induction ds arbitrary: v)
    case (Cons d ds)
    have d: "48 \<le> byte_val d" "byte_val d \<le> 57"
      using Cons.prems(1) by (simp_all add: is_digit_def)
    have "10 * v + nat (byte_val d - 48) < 10 ^ 9"
      using foldl_digits_ge [of "10 * v + nat (byte_val d - 48)" ds] Cons.prems(2) by simp
    then have e: "to_int (int v * 10 + byte_val d - 48) = int (10 * v + nat (byte_val d - 48))"
      using d by (subst to_int_id) simp_all
    have "foldl (\<lambda>i c. to_int (i * 10 + byte_val c - 48)) (int (10 * v + nat (byte_val d - 48))) ds
      = int (foldl (\<lambda>v c. 10 * v + nat (byte_val c - 48)) (10 * v + nat (byte_val d - 48)) ds)"
      using Cons.prems by (intro Cons.IH) simp_all
    then show ?case
      by (simp only: foldl.simps e)
  qed simp
  have "takeWhile is_digit (dec_str n @ rest) = dec_str n" "dropWhile is_digit (dec_str n @ rest) = rest"
    using dec_str_digits [of n] assms(2) by (cases rest; simp add: list_all_iff takeWhile_append2)+
  then show ?thesis
    using fold [of "dec_str n" 0] dec_str_digits [of n] assms(1) by (simp add: scan_number_def digits_value_def)
qed

lemma dec_str_head: "\<exists>d ds. dec_str n = d # ds \<and> is_digit d"
  using dec_str_digits [of n] by (subst dec_str.simps) (cases "dec_str n"; auto simp: dec_str.simps [of n] split: if_splits)

lemma not_digit_seps: "\<not> is_digit (CHR '':'')" "\<not> is_digit (CHR ''%'')" "\<not> is_digit (CHR ''R'')" "\<not> is_digit (CHR ''F'')"
  "\<not> is_digit (CHR ''$'')" "\<not> opt_char (CHR '':'')" "\<not> opt_char (CHR ''%'')"
  by code_simp+

lemma small_to_uint: "n < 10 ^ 9 \<Longrightarrow> to_uint (int n) = int n"
  by (simp add: to_uint_def)

lemma frompos_number:
  assumes "a < 10 ^ 9"
  shows "parse_frompos f ('':'' @ dec_str a @ '':'' @ rest) = (RS_RET_OK, f\<lparr>bComplexProcessing := True, iFromPos := int a\<rparr>, '':'' @ rest)"
proof -
  obtain d ds where d: "dec_str a = d # ds" "is_digit d"
    using dec_str_head by blast
  then have "d \<noteq> CHR ''R''" "d \<noteq> CHR ''F''"
    using not_digit_seps by auto
  moreover have "scan_number (dec_str a @ '':'' @ rest) = (int a, '':'' @ rest)"
    using scan_dec_str [OF assms, of "'':'' @ rest"] not_digit_seps by simp
  ultimately show ?thesis
    using d(1) small_to_uint [OF assms] not_digit_seps by (simp add: parse_frompos_def skip_to_good_def)
qed

lemma topos_number:
  assumes "b < 10 ^ 9" "has_regex f = 0" "\<not> has_fields f"
  shows "parse_topos lib f ('':'' @ dec_str b @ '':'' @ rest) = (f\<lparr>iToPos := int b\<rparr>, None, '':'' @ rest)"
proof -
  obtain d ds where d: "dec_str b = d # ds" "is_digit d"
    using dec_str_head by blast
  then have "d \<noteq> CHR ''$''"
    using not_digit_seps by auto
  moreover have "scan_number (dec_str b @ '':'' @ rest) = (int b, '':'' @ rest)"
    using scan_dec_str [OF assms(1), of "'':'' @ rest"] not_digit_seps by simp
  ultimately show ?thesis
    using d(1) assms(2,3) small_to_uint [OF assms(1)] not_digit_seps by (simp add: parse_topos_def topos_numbers_def skip_to_good_def)
qed

lemma do_Parameter_part:
  assumes "part_ok (Prop name a b ws)"
  shows "do_Parameter lib (tl (part_string (Prop name a b ws)) @ rest) = Some (RS_RET_OK, part_entry (Prop name a b ws), rest)"
proof -
  let ?tail = "join_words ws @ ''%'' @ rest"
  let ?p1 = "'':'' @ dec_str a @ '':'' @ dec_str b @ '':'' @ ?tail"
  obtain i pname where m: "msgPropDescrFill name = (RS_RET_OK, i, pname)"
    using assms by (cases "msgPropDescrFill name") auto
  have name: "takeWhile opt_char (name @ ?p1) = name" "dropWhile opt_char (name @ ?p1) = ?p1"
    using assms not_digit_seps by (simp_all add: list_all_iff takeWhile_append2)
  let ?f1 = "zero_field\<lparr>msgPropName := pname, bComplexProcessing := True, iFromPos := int a\<rparr>"
  have 1: "parse_frompos (zero_field\<lparr>msgPropName := pname\<rparr>) ?p1 = (RS_RET_OK, ?f1, '':'' @ dec_str b @ '':'' @ ?tail)"
    using assms frompos_number [of a "zero_field\<lparr>msgPropName := pname\<rparr>" "dec_str b @ '':'' @ ?tail"] by simp
  have 2: "parse_topos lib ?f1 ('':'' @ dec_str b @ '':'' @ ?tail) = (?f1\<lparr>iToPos := int b\<rparr>, None, '':'' @ ?tail)"
    using assms topos_number [of b ?f1 lib ?tail] by (simp add: zero_field_def)
  have 3: "doOptions ?tail f = (fold set_option_word ws f, ''%'' @ rest)" for f
    using assms doOptions_words [of ws "''%'' @ rest" f] not_digit_seps by simp
  have 4: "parse_fieldname i name (''%'' @ rest) = Some (if i \<in> {PROP_CEE, PROP_LOCAL_VAR} then drop 2 name else name, ''%'' @ rest)"
    using assms m by (auto simp: parse_fieldname_def)
  have c: "deref ('':'' @ ?tail) = CHR '':''" "tl ('':'' @ ?tail) = ?tail" "tl (''%'' @ rest) = rest"
    by simp_all
  have t: "tl (part_string (Prop name a b ws)) @ rest = name @ ?p1"
    by simp
  show ?thesis
    unfolding t do_Parameter_def Let_def name m prod.case 1 2 part_entry.simps
    by (simp only: c 3 4 prod.case if_True if_False simp_thms option.case)
qed

lemma part_string_start: "part_ok p \<Longrightarrow> part_string p \<noteq> [] \<and> hd (part_string p) \<noteq> CHR 0x22"
proof (cases p)
  case (Text s)
  assume "part_ok p"
  then show ?thesis
    using Text by (cases s) (auto simp: esc_char_def)
qed simp

lemma tpl_loop_parts:
  assumes "parts_ok ps" "ps \<noteq> []"
  shows "tpl_loop lib es (concat (map part_string ps) @ CHR 0x22 # rest) = Some (Some (RS_RET_OK, es @ map part_entry ps, rest))"
  using assms
proof (induction ps arbitrary: es)
  case (Cons p ps)
  let ?rest = "concat (map part_string ps) @ CHR 0x22 # rest"
  have ok: "part_ok p" "parts_ok ps"
    using Cons.prems(1) by simp_all
  have r: "deref ?rest = CHR 0x22 \<longleftrightarrow> ps = []"
  proof (cases ps)
    case (Cons q qs)
    then have "part_string q \<noteq> []" "hd (part_string q) \<noteq> CHR 0x22"
      using ok(2) part_string_start by auto
    then show ?thesis
      using Cons by (cases "part_string q") auto
  qed simp
  have item: "tpl_item lib (part_string p @ ?rest) = Some (RS_RET_OK, part_entry p, ?rest)"
  proof (cases p)
    case (Text s)
    have "deref ?rest \<in> {CHR ''%'', CHR 0x22}"
      using Cons.prems(1) Text by (cases ps) (auto split: tpl_part.splits)
    then have "const_loop True (part_string p @ ?rest) = (s, ?rest)"
      using const_loop_text [of ?rest s] Text by simp
    moreover have "deref (part_string p @ ?rest) \<noteq> CHR ''%''"
      using ok(1) Text by (cases s) (auto simp: esc_char_def)
    ultimately show ?thesis
      using Text by (simp add: tpl_item_def do_Constant_def)
  next
    case (Prop name a b ws)
    then show ?thesis
      using do_Parameter_part [of name a b ws lib ?rest] ok(1) by (simp add: tpl_item_def)
  qed
  have ne: "part_string p @ ?rest \<noteq> []"
    by simp
  show ?case
  proof (cases "ps = []")
    case True
    then show ?thesis
      using item r by (subst tpl_loop.simps) simp
  next
    case False
    then show ?thesis
      using item r Cons.IH [OF ok(2) False, of "es @ [part_entry p]"] by (subst tpl_loop.simps) simp
  qed
qed simp

text \<open>(C15) A template line is read as it was written: texts, escaped where the syntax needs it, and properties with positions and
  options give exactly the entries for them, in order.\<close>

theorem template_roundtrip:
  assumes "parts_ok ps" "ps \<noteq> []"
  shows "tplAddLine lib strgens name ([CHR 0x22] @ concat (map part_string ps) @ [CHR 0x22])
    = Some (Some (apply_case_sensitivity (tplConstruct name\<lparr>pEntry := map part_entry ps\<rparr>), True, []))"
proof -
  have "\<not> isspace (CHR 0x22)"
    by code_simp
  moreover have "tpl_options [] t = (t, [])" for t
    by (simp add: tpl_options.simps NUL_def)
  ultimately show ?thesis
    using tpl_loop_parts [OF assms, of lib "[]" "[]"] by (simp add: tplAddLine_def)
qed

definition sample_parts :: "tpl_part list" where
  "sample_parts = [Text ''100% '', Prop ''msg'' 2 20 [''uppercase'', ''csv''], Text [CHR 0x0A]]"

theorem template_roundtrip_witness:
  "tplAddLine None (\<lambda>_. False) ''t'' ([CHR 0x22] @ concat (map part_string sample_parts) @ [CHR 0x22])
    = Some (Some (apply_case_sensitivity (tplConstruct ''t''\<lparr>pEntry := map part_entry sample_parts\<rparr>), True, []))"
proof -
  have "list_all opt_char ''msg''" "fst (msgPropDescrFill ''msg'') = RS_RET_OK" "fst (snd (msgPropDescrFill ''msg'')) \<notin> {PROP_CEE, PROP_LOCAL_VAR}"
      "list_all word_ok [''uppercase'', ''csv'']"
    by code_simp+
  then have "parts_ok sample_parts" "sample_parts \<noteq> []"
    by (simp_all add: sample_parts_def)
  then show ?thesis
    by (rule template_roundtrip)
qed

section \<open>Where the parser goes wrong\<close>

text \<open>The \<open>json\<close> option in the name of a string generator is never recognised: five characters are compared with
  the last four.\<close>

theorem strgen_json_never:
  assumes "optEscape t \<noteq> JSON_ESCAPE"
  shows "optEscape (fst (snd (tplAddTplMod strgens src t))) \<noteq> JSON_ESCAPE"
proof -
  have "\<not> ends_with s 4 '',json''" for s
  proof
    assume "ends_with s 4 '',json''"
    then have "length (map tolower (drop (length s - 4) s)) = 5"
      by (simp add: ends_with_def del: length_map)
    then show False
      by simp
  qed
  then show ?thesis
    using assms by (simp add: tplAddTplMod_def Let_def)
qed

text \<open>In the newer syntax the options in the name of a string generator are set and then overwritten.\<close>

definition sample_libs :: tpl_libs where
  "sample_libs = \<lparr>regex = None, findStrgen = \<lambda>_. True, unescapeStr = \<lambda>s. s, jsonObject = \<lambda>n v. []\<rparr>"

definition plugin_template :: "rs_template option" where
  "plugin_template = (case tplProcessCnf sample_libs [(''name'', Cstr ''t''), (''type'', Cstr ''plugin''), (''plugin'', Cstr ''db,stdsql'')] [] of
     Some (Some (r, t)) \<Rightarrow> t | _ \<Rightarrow> None)"

theorem plugin_option_lost:
  "map_option pStrgen plugin_template = Some (Some ''db,stdsql'') \<and> map_option optEscape plugin_template = Some NO_ESCAPE
    \<and> optEscape (fst (snd (tplAddTplMod (\<lambda>_. True) ''db,stdsql'' (tplConstruct ''t'')))) = STDSQL_ESCAPE"
  by (intro conjI) code_simp+

definition entry_name :: "(rsRetVal \<times> tpl_entry \<times> string) option \<Rightarrow> string option" where
  "entry_name x = (case x of Some (r, FIELD i f re, p) \<Rightarrow> Some (fieldName f) | _ \<Rightarrow> None)"

text \<open>A variable may be written with or without the dollar sign; without it, its field name loses a letter, and the bare root
  is read behind its end.\<close>

theorem bang_name_cut:
  "entry_name (do_Parameter None ''$!usr%'') = Some ''usr'' \<and> entry_name (do_Parameter None ''!usr%'') = Some ''sr''
    \<and> Option.is_none (do_Parameter None ''!%'')"
  by (intro conjI) code_simp+

text \<open>Only one format option is accepted, but \<open>jsonfr\<close> is forgotten in the test for it.\<close>

theorem jsonfr_not_exclusive:
  "bCSV (options (fst (doOptions ''json,csv'' zero_field))) = False \<and> bCSV (options (fst (doOptions ''jsonfr,csv'' zero_field))) = True
    \<and> bJSONfr (options (fst (doOptions ''jsonfr,csv'' zero_field))) = True"
  by (intro conjI) code_simp+

end
