(* ===== verification/Tpl_String.thy ===== *)
theory Tpl_String
  imports Tpl_Parse "HOL-Library.Monad_Syntax"
begin

text \<open>
  The text of a message (\<open>template.c\<close>, \<open>tools/smfile.c\<close>, \<open>tools/smtradfile.c\<close>,
  \<open>tools/smfwd.c\<close>, \<open>tools/smtradfwd.c\<close>): the built-in string generators, the escaping of values
  for SQL and JSON, and \<open>tplToString\<close>, which writes the values of the entries of a template one behind the other
  into a buffer that grows. A buffer is given by the bytes written so far and its size; a write behind its end, or a read
  behind the end of a value, is \<^const>\<open>None\<close>.
\<close>

section \<open>The buffer\<close>

record actWrkrIParams =
  param :: string
  lenBuf :: int
  lenStr :: int

definition ALLOC_INC :: int where
  "ALLOC_INC = 128"

definition ExtendBuf :: "int \<Rightarrow> int" where
  "ExtendBuf iMinSize = (iMinSize div ALLOC_INC + 1) * ALLOC_INC"

text \<open>The bytes of a terminated string that a copy of the given length takes, and a copy behind what is in a buffer.\<close>

definition from_str :: "string \<Rightarrow> int \<Rightarrow> string option" where
  "from_str s n = (if n \<le> 0 then Some [] else if int (length s) + 1 < n then None else Some (take (nat n) (s @ [NUL])))"

definition append_buf :: "int \<Rightarrow> string \<Rightarrow> string \<Rightarrow> string option" where
  "append_buf room out s = (if int (length out + length s) \<le> room then Some (out @ s) else None)"

text \<open>Parts written one behind the other from the start of a buffer, with the terminator.\<close>

definition write_parts :: "int \<Rightarrow> string list \<Rightarrow> string option" where
  "write_parts room ps = (if int (length (concat ps)) < room then Some (concat ps) else None)"

section \<open>String generators\<close>

definition CONST_LEN_TIMESTAMP_3164 :: int where
  "CONST_LEN_TIMESTAMP_3164 = 15"

definition smtradfile :: "prop_env \<Rightarrow> msg_state \<Rightarrow> actWrkrIParams \<Rightarrow> (actWrkrIParams \<times> msg_state) option" where
  "smtradfile env s iparam = do {
     (pTimeStamp, c) \<leftarrow> getTimeReported (ms_reported s) (tTIMESTAMP (ms_msg s)) tplFmtRFC3164Date;
     let pHOSTNAME = getHOSTNAME env (ms_msg s);
     (m, pTAG) \<leftarrow> getTAG (ms_msg s);
     let lenTotal = CONST_LEN_TIMESTAMP_3164 + 1 + int (length pHOSTNAME) + 1 + int (length pTAG) + iLenMSG m + 2
       + (if deref (getMSG m) \<noteq> CHR '' '' then 1 else 0);
     let room = (if lenBuf iparam \<le> lenTotal then ExtendBuf lenTotal else lenBuf iparam);
     ts \<leftarrow> from_str pTimeStamp CONST_LEN_TIMESTAMP_3164;
     msg \<leftarrow> from_str (getMSG m) (iLenMSG m);
     out \<leftarrow> write_parts room [ts, '' '', pHOSTNAME, '' '', pTAG, if deref (getMSG m) \<noteq> CHR '' '' then '' '' else [], msg, [CHR 0x0A]];
     Some (\<lparr>param = out, lenBuf = room, lenStr = lenTotal - 1\<rparr>, s\<lparr>ms_msg := m, ms_reported := c\<rparr>) }"

definition smfile :: "prop_env \<Rightarrow> msg_state \<Rightarrow> actWrkrIParams \<Rightarrow> (actWrkrIParams \<times> msg_state) option" where
  "smfile env s iparam = do {
     (pTimeStamp, c) \<leftarrow> getTimeReported (ms_reported s) (tTIMESTAMP (ms_msg s)) tplFmtRFC3339Date;
     let pHOSTNAME = getHOSTNAME env (ms_msg s);
     (m, pTAG) \<leftarrow> getTAG (ms_msg s);
     let lenTotal = int (length pTimeStamp) + 1 + int (length pHOSTNAME) + 1 + int (length pTAG) + iLenMSG m + 2
       + (if deref (getMSG m) \<noteq> CHR '' '' then 1 else 0);
     let room = (if lenBuf iparam \<le> lenTotal then ExtendBuf lenTotal else lenBuf iparam);
     msg \<leftarrow> from_str (getMSG m) (iLenMSG m);
     out \<leftarrow> write_parts room [pTimeStamp, '' '', pHOSTNAME, '' '', pTAG, if deref (getMSG m) \<noteq> CHR '' '' then '' '' else [], msg, [CHR 0x0A]];
     Some (\<lparr>param = out, lenBuf = room, lenStr = lenTotal - 1\<rparr>, s\<lparr>ms_msg := m, ms_reported := c\<rparr>) }"

text \<open>For forwarding at most 32 bytes of the TAG are used.\<close>

definition smfwd :: "prop_env \<Rightarrow> msg_state \<Rightarrow> actWrkrIParams \<Rightarrow> (actWrkrIParams \<times> msg_state) option" where
  "smfwd env s iparam = do {
     let pPRI = getPRI (ms_msg s);
     (pTimeStamp, c) \<leftarrow> getTimeReported (ms_reported s) (tTIMESTAMP (ms_msg s)) tplFmtRFC3339Date;
     let pHOSTNAME = getHOSTNAME env (ms_msg s);
     (m, pTAG) \<leftarrow> getTAG (ms_msg s);
     let lenTAG = (if 32 < length pTAG then 32 else length pTAG);
     let lenTotal = 1 + int (length pPRI) + 1 + int (length pTimeStamp) + 1 + int (length pHOSTNAME) + 1 + int lenTAG + iLenMSG m + 1
       + (if deref (getMSG m) \<noteq> CHR '' '' then 1 else 0);
     let room = (if lenBuf iparam \<le> lenTotal then ExtendBuf lenTotal else lenBuf iparam);
     msg \<leftarrow> from_str (getMSG m) (iLenMSG m);
     out \<leftarrow> write_parts room [''<'', pPRI, ''>'', pTimeStamp, '' '', pHOSTNAME, '' '', take lenTAG pTAG,
       if deref (getMSG m) \<noteq> CHR '' '' then '' '' else [], msg];
     Some (\<lparr>param = out, lenBuf = room, lenStr = lenTotal - 1\<rparr>, s\<lparr>ms_msg := m, ms_reported := c\<rparr>) }"

definition smtradfwd :: "prop_env \<Rightarrow> msg_state \<Rightarrow> actWrkrIParams \<Rightarrow> (actWrkrIParams \<times> msg_state) option" where
  "smtradfwd env s iparam = do {
     let pPRI = getPRI (ms_msg s);
     (pTimeStamp, c) \<leftarrow> getTimeReported (ms_reported s) (tTIMESTAMP (ms_msg s)) tplFmtRFC3164Date;
     let pHOSTNAME = getHOSTNAME env (ms_msg s);
     (m, pTAG) \<leftarrow> getTAG (ms_msg s);
     let lenTAG = (if 32 < length pTAG then 32 else length pTAG);
     let lenTotal = 1 + int (length pPRI) + 1 + CONST_LEN_TIMESTAMP_3164 + 1 + int (length pHOSTNAME) + 1 + int lenTAG + iLenMSG m + 1
       + (if deref (getMSG m) \<noteq> CHR '' '' then 1 else 0);
     let room = (if lenBuf iparam \<le> lenTotal then ExtendBuf lenTotal else lenBuf iparam);
     ts \<leftarrow> from_str pTimeStamp CONST_LEN_TIMESTAMP_3164;
     msg \<leftarrow> from_str (getMSG m) (iLenMSG m);
     out \<leftarrow> write_parts room [''<'', pPRI, ''>'', ts, '' '', pHOSTNAME, '' '', take lenTAG pTAG,
       if deref (getMSG m) \<noteq> CHR '' '' then '' '' else [], msg];
     Some (\<lparr>param = out, lenBuf = room, lenStr = lenTotal - 1\<rparr>, s\<lparr>ms_msg := m, ms_reported := c\<rparr>) }"

text \<open>The generators by the names they are registered with; others come from modules that are loaded.\<close>

definition builtin_strgens :: "(string \<times> (prop_env \<Rightarrow> msg_state \<Rightarrow> actWrkrIParams \<Rightarrow> (actWrkrIParams \<times> msg_state) option)) list" where
  "builtin_strgens = [(''RSYSLOG_FileFormat'', smfile), (''RSYSLOG_TraditionalFileFormat'', smtradfile), (''RSYSLOG_ForwardFormat'', smfwd),
     (''RSYSLOG_TraditionalForwardFormat'', smtradfwd)]"

section \<open>Escaping\<close>

definition doEmergencyEscape :: "optFormatEscape \<Rightarrow> string \<Rightarrow> string" where
  "doEmergencyEscape mode s =
     map (\<lambda>c. if mode \<in> {SQL_ESCAPE, STDSQL_ESCAPE} \<and> c = CHR 0x27 then CHR 0x22
              else if mode = JSON_ESCAPE then if c = CHR 0x22 then CHR 0x27 else if c = CHR 0x5C then CHR ''/'' else c
              else if mode = SQL_ESCAPE \<and> c = CHR 0x5C then CHR ''/'' else c) s"

definition esc_seq :: "optFormatEscape \<Rightarrow> char \<Rightarrow> string" where
  "esc_seq mode c =
     (if mode \<in> {SQL_ESCAPE, STDSQL_ESCAPE} \<and> c = CHR 0x27 then [if mode = STDSQL_ESCAPE then CHR 0x27 else CHR 0x5C, c]
      else if mode = SQL_ESCAPE \<and> c = CHR 0x5C then [CHR 0x5C, c]
      else if mode = JSON_ESCAPE \<and> c \<in> {CHR 0x22, CHR 0x5C} then [CHR 0x5C, c]
      else [c])"

text \<open>The first loop runs over these characters; if it comes to the end, nothing is escaped.\<close>

definition esc_skipped :: "optFormatEscape \<Rightarrow> char \<Rightarrow> bool" where
  "esc_skipped mode c =
     (case mode of
        STDSQL_ESCAPE \<Rightarrow> c \<noteq> CHR 0x27
      | SQL_ESCAPE \<Rightarrow> c \<noteq> CHR 0x27 \<and> c \<noteq> CHR 0x5C
      | JSON_ESCAPE \<Rightarrow> c = CHR 0x22 \<or> c = CHR 0x5C
      | _ \<Rightarrow> False)"

definition doEscape :: "bool \<Rightarrow> optFormatEscape \<Rightarrow> prop_buf \<Rightarrow> prop_buf" where
  "doEscape alloc mode b =
     (let s = c_str (pRes b); t = concat (map (esc_seq mode) s)
      in if dropWhile (esc_skipped mode) s = [] then b
         else if \<not> alloc then b\<lparr>pRes := doEmergencyEscape mode s @ drop (length s) (pRes b)\<rparr>
         else \<lparr>pRes = t, bufLen = bufLen b + int (length t) - int (length s), bMustBeFreed = True\<rparr>)"

section \<open>Templates\<close>

definition entry_value :: "prop_env \<Rightarrow> optFormatEscape \<Rightarrow> syslogTime option \<Rightarrow> tpl_entry \<Rightarrow> msg_state \<Rightarrow> (string \<times> msg_state) option" where
  "entry_value env mode ttNow e s =
     (case e of
        CONSTANT n c \<Rightarrow> Some (c, s)
      | FIELD i f re \<Rightarrow> do {
          (b, s') \<leftarrow> MsgGetProp env re (Some f) s i (msgPropName f) ttNow;
          let b' = (if mode \<in> {SQL_ESCAPE, JSON_ESCAPE, STDSQL_ESCAPE} then doEscape True mode b else b);
          v \<leftarrow> from_str (pRes b') (bufLen b');
          Some (v, s') })"

definition extra_space :: "optFormatEscape \<Rightarrow> int" where
  "extra_space mode = (if mode = JSONF then 1 else 3)"

text \<open>One value behind the others, and the loop over the entries: what is in the buffer, its size, and the message with what
  was cached.\<close>

definition put_value :: "optFormatEscape \<Rightarrow> bool \<Rightarrow> string \<Rightarrow> string \<times> int \<Rightarrow> (string \<times> int) option" where
  "put_value mode need_comma v buf =
     (case buf of (out, room) \<Rightarrow>
        if v = [] then Some (out, room)
        else let n = int (length out + length v); room' = (if room \<le> n + extra_space mode then ExtendBuf (n + 1) else room)
             in do { out1 \<leftarrow> append_buf room' out (if need_comma then '', '' else []);
                     out2 \<leftarrow> append_buf room' out1 v;
                     Some (out2, room') })"

fun tpl_write :: "prop_env \<Rightarrow> optFormatEscape \<Rightarrow> syslogTime option \<Rightarrow> tpl_entry list \<Rightarrow> bool \<Rightarrow> string \<times> int \<Rightarrow> msg_state
    \<Rightarrow> ((string \<times> int) \<times> msg_state) option" where
  "tpl_write env mode ttNow [] need_comma buf s = Some (buf, s)"
| "tpl_write env mode ttNow (e # es) need_comma buf s = do {
     (v, s1) \<leftarrow> entry_value env mode ttNow e s;
     (out, room) \<leftarrow> put_value mode need_comma v buf;
     out1 \<leftarrow> (if mode = JSONF \<and> es = [] then append_buf room out [CHR ''}'', CHR 0x0A] else Some out);
     tpl_write env mode ttNow es (need_comma \<or> mode = JSONF \<and> v \<noteq> []) (out1, room) s1 }"

definition tplToString :: "prop_env \<Rightarrow> (string \<Rightarrow> msg_state \<Rightarrow> actWrkrIParams \<Rightarrow> (actWrkrIParams \<times> msg_state) option) \<Rightarrow> rs_template
    \<Rightarrow> syslogTime option \<Rightarrow> msg_state \<Rightarrow> actWrkrIParams \<Rightarrow> (actWrkrIParams \<times> msg_state) option" where
  "tplToString env loaded t ttNow s iparam =
     (case pStrgen t of
        Some name \<Rightarrow> (case map_of builtin_strgens name of Some strgen \<Rightarrow> strgen env s iparam | None \<Rightarrow> loaded name s iparam)
      | None \<Rightarrow>
          (case subtree t of
             Some (i, n) \<Rightarrow>
               let v = jsonValue env i n; len = int (length v)
               in Some (iparam\<lparr>param := v, lenBuf := if lenBuf iparam \<le> len then ExtendBuf (len + 1) else lenBuf iparam\<rparr>, s)
           | None \<Rightarrow> do {
               let jsonf = (optEscape t = JSONF);
               ((out, room), s') \<leftarrow> tpl_write env (optEscape t) ttNow (pEntry t) False
                 (if jsonf then (''{'', if lenBuf iparam < 2 then ExtendBuf 2 else lenBuf iparam) else ([], lenBuf iparam)) s;
               let room' = (if int (length out) = room then ExtendBuf (room + 1) else room);
               if int (length out) < room' then Some (\<lparr>param = out, lenBuf = room', lenStr = int (length out)\<rparr>, s') else None }))"

section \<open>The buffer is always large enough\<close>

lemma ExtendBuf_gt: "n < ExtendBuf n"
  by (simp add: ExtendBuf_def ALLOC_INC_def)

lemma ExtendBuf_pos: "0 \<le> n \<Longrightarrow> 0 < ExtendBuf n"
  using ExtendBuf_gt [of n] by simp

text \<open>What a template promises: the values of its entries, each taken from the message as the ones before have left it.\<close>

fun tpl_values :: "prop_env \<Rightarrow> optFormatEscape \<Rightarrow> syslogTime option \<Rightarrow> tpl_entry list \<Rightarrow> msg_state \<Rightarrow> (string list \<times> msg_state) option" where
  "tpl_values env mode ttNow [] s = Some ([], s)"
| "tpl_values env mode ttNow (e # es) s = do {
     (v, s1) \<leftarrow> entry_value env mode ttNow e s;
     (vs, s2) \<leftarrow> tpl_values env mode ttNow es s1;
     Some (v # vs, s2) }"

lemma put_value_fits:
  assumes "mode \<noteq> JSONF" "int (length out) \<le> room"
  shows "\<exists>room'. put_value mode False v (out, room) = Some (out @ v, room') \<and> int (length (out @ v)) \<le> room'"
  using assms ExtendBuf_gt [of "int (length out + length v) + 1"]
  by (auto simp: put_value_def append_buf_def extra_space_def Let_def)

lemma tpl_write_values:
  assumes "mode \<noteq> JSONF" "int (length out) \<le> room" "tpl_values env mode ttNow es s = Some (vs, s')"
  shows "\<exists>room'. tpl_write env mode ttNow es False (out, room) s = Some ((out @ concat vs, room'), s') \<and> int (length (out @ concat vs)) \<le> room'"
  using assms(2,3)
proof (induction es arbitrary: out room s vs)
  case (Cons e es)
  then obtain v s1 ws where v: "entry_value env mode ttNow e s = Some (v, s1)" "tpl_values env mode ttNow es s1 = Some (ws, s')" "vs = v # ws"
    by (auto split: bind_splits)
  obtain room1 where "put_value mode False v (out, room) = Some (out @ v, room1)" "int (length (out @ v)) \<le> room1"
    using put_value_fits [OF assms(1) Cons.prems(1)] by blast
  then show ?case
    using Cons.IH [OF _ v(2), of "out @ v" room1] v assms(1) by auto
qed simp

lemma tplToString_values:
  assumes "pStrgen t = None" "subtree t = None" "optEscape t \<noteq> JSONF" "0 \<le> lenBuf iparam"
    and "tpl_values env (optEscape t) ttNow (pEntry t) s = Some (vs, s')"
  shows "\<exists>ip. tplToString env loaded t ttNow s iparam = Some (ip, s') \<and> param ip = concat vs \<and> lenStr ip = int (length (concat vs))
    \<and> lenStr ip < lenBuf ip"
proof -
  obtain room where "tpl_write env (optEscape t) ttNow (pEntry t) False ([], lenBuf iparam) s = Some ((concat vs, room), s')"
      "int (length (concat vs)) \<le> room"
    using tpl_write_values [OF assms(3) _ assms(5), of "[]" "lenBuf iparam"] assms(4) by auto
  then show ?thesis
    using assms(1-3) ExtendBuf_gt [of "room + 1"] by (simp add: tplToString_def Let_def)
qed

section \<open>Reading a message keeps it readable\<close>

text \<open>A property may be computed and stored when it is asked for; only these four fields change.\<close>

definition reread :: "smsg \<Rightarrow> smsg \<Rightarrow> bool" where
  "reread m m' \<longleftrightarrow> m' = m\<lparr>TAG := TAG m', PROGNAME := PROGNAME m', pCSAPPNAME := pCSAPPNAME m', pCSPROCID := pCSPROCID m'\<rparr>
     \<and> (iProtocolVersion m = 1 \<longrightarrow> pCSAPPNAME m' = pCSAPPNAME m \<and> pCSPROCID m' = pCSPROCID m)"

lemma reread_refl: "reread m m"
  by (simp add: reread_def)

lemma reread_fields:
  assumes "reread m m'"
  shows "tTIMESTAMP m' = tTIMESTAMP m \<and> tRcvdAt m' = tRcvdAt m \<and> getMSG m' = getMSG m \<and> iLenMSG m' = iLenMSG m \<and> raw m' = raw m
    \<and> pszHOSTNAME m' = pszHOSTNAME m \<and> iFacility m' = iFacility m \<and> iSeverity m' = iSeverity m \<and> pszStrucData m' = pszStrucData m
    \<and> pCSMSGID m' = pCSMSGID m \<and> iProtocolVersion m' = iProtocolVersion m"
proof -
  obtain a b c d where "m' = m\<lparr>TAG := a, PROGNAME := b, pCSAPPNAME := c, pCSPROCID := d\<rparr>"
    using assms unfolding reread_def by blast
  then show ?thesis
    by (simp add: getMSG_def raw_def)
qed

lemma reread_clean:
  assumes "reread m m'" "msg_clean m" "no_nul (TAG m')" "pred_option no_nul (PROGNAME m')" "pred_option no_nul (pCSAPPNAME m')"
    "pred_option no_nul (pCSPROCID m')"
  shows "msg_clean m'"
  using reread_fields [OF assms(1)] assms by (simp add: msg_clean_def pri_ok_def reread_def)

lemma reread_trans:
  assumes "reread m m'" "reread m' m''"
  shows "reread m m''"
proof -
  have "iProtocolVersion m' = iProtocolVersion m"
    using reread_fields [OF assms(1)] by simp
  moreover obtain a b c d where "m' = m\<lparr>TAG := a, PROGNAME := b, pCSAPPNAME := c, pCSPROCID := d\<rparr>"
    using assms(1) unfolding reread_def by blast
  ultimately show ?thesis
    using assms unfolding reread_def by simp
qed

lemma getTAG_rereads: "getTAG m = Some (m', t) \<Longrightarrow> reread m m'"
  by (auto simp: getTAG_def tryEmulateTAG_def MsgSetTAG_def Let_def reread_def split: option.splits if_splits)

lemma getTAG_fields: "getTAG m = Some (m', t) \<Longrightarrow> t = TAG m' \<and> (PROGNAME m' = PROGNAME m \<or> PROGNAME m' = None)
    \<and> pCSAPPNAME m' = pCSAPPNAME m \<and> pCSPROCID m' = pCSPROCID m"
  by (auto simp: getTAG_def tryEmulateTAG_def MsgSetTAG_def Let_def split: option.splits if_splits)

lemma getTAG_keeps:
  assumes "msg_clean m" "getTAG m = Some (m', t)"
  shows "msg_clean m'"
proof (rule reread_clean [OF getTAG_rereads [OF assms(2)] assms(1)])
  show "no_nul (TAG m')"
    using getTAG_ok [OF assms(1)] assms(2) by auto
  show "pred_option no_nul (PROGNAME m')" "pred_option no_nul (pCSAPPNAME m')" "pred_option no_nul (pCSPROCID m')"
    using getTAG_fields [OF assms(2)] assms(1) by (auto simp: msg_clean_def)
qed

lemma getProgramName_keeps:
  assumes "msg_clean m" "getProgramName b m = Some (m', t)"
  shows "msg_clean m' \<and> reread m m'"
proof (cases "PROGNAME m")
  case None
  obtain m1 where m1: "m' = acquireProgramName b m1" "msg_clean m1" "reread m m1"
    using assms None getTAG_keeps [OF assms(1)] getTAG_rereads [of m] reread_refl [of m]
    by (auto simp: getProgramName_def Let_def split: option.splits if_splits)
  then have "no_nul (the (PROGNAME m'))"
    using clean_parts(3) by (simp add: acquireProgramName_def msg_clean_def)
  moreover have r: "reread m1 m'"
    unfolding m1(1) by (simp add: reread_def acquireProgramName_def)
  ultimately have "msg_clean m'"
    using m1(1,2) by (intro reread_clean [OF r m1(2)]) (simp_all add: acquireProgramName_def msg_clean_def)
  then show ?thesis
    using reread_trans [OF m1(3) r] by simp
next
  case (Some p)
  then show ?thesis
    using assms reread_refl by (simp add: getProgramName_def)
qed

lemma getAPPNAME_keeps:
  assumes "msg_clean m" "getAPPNAME b m = Some (m', t)"
  shows "msg_clean m' \<and> reread m m'"
proof (cases "pCSAPPNAME m = None \<and> iProtocolVersion m = 0")
  case True
  then obtain m1 p where p: "getProgramName b m = Some (m1, p)" "m' = MsgSetAPPNAME m1 p"
    using assms(2) by (auto simp: getAPPNAME_def prepareAPPNAME_def split: option.splits)
  have m1: "msg_clean m1" "reread m m1" "no_nul p" "iProtocolVersion m1 = 0"
    using getProgramName_keeps [OF assms(1) p(1)] getProgramName_ok [OF assms(1), of b] p(1) True reread_fields [of m m1] by auto
  have r: "reread m1 m'"
    using m1(4) unfolding p(2) by (simp add: reread_def MsgSetAPPNAME_def)
  have "msg_clean m'"
    using m1 clean_parts(3) clean_consts(1) unfolding p(2)
    by (intro reread_clean [OF r [unfolded p(2)] m1(1)]) (simp_all add: MsgSetAPPNAME_def msg_clean_def c_str_def)
  then show ?thesis
    using reread_trans [OF m1(2) r] by simp
next
  case False
  then show ?thesis
    using assms reread_refl by (auto simp: getAPPNAME_def prepareAPPNAME_def)
qed

lemma getPROCID_keeps:
  assumes "msg_clean m" "getPROCID m = (m', t)"
  shows "msg_clean m' \<and> reread m m'"
proof -
  have r: "reread m m'"
    using assms(2) by (auto simp: getPROCID_def acquirePROCIDFromTAG_def Let_def reread_def split: if_splits)
  have "pred_option no_nul (pCSPROCID m')"
    using getPROCID_ok [OF assms(1)] assms(2) by (auto simp: getPROCID_def Let_def split: option.splits)
  moreover have "TAG m' = TAG m \<and> PROGNAME m' = PROGNAME m \<and> pCSAPPNAME m' = pCSAPPNAME m"
    using assms(2) by (auto simp: getPROCID_def acquirePROCIDFromTAG_def Let_def split: if_splits)
  ultimately show ?thesis
    using reread_clean [OF r assms(1)] r assms(1) by (simp add: msg_clean_def)
qed

lemma header_value_keeps:
  assumes "msg_clean m" "header_value env m i = Some (b, m')"
  shows "msg_clean m' \<and> reread m m'"
  using assms(2) getTAG_keeps [OF assms(1)] getTAG_rereads [of m] getProgramName_keeps [OF assms(1)] getAPPNAME_keeps [OF assms(1)]
    getPROCID_keeps [OF assms(1)] assms(1) reread_refl [of m]
  unfolding header_value_def by (auto split: if_splits prod.splits)

lemma time_value_keeps:
  assumes "times_ok env s" "case tpe of None \<Rightarrow> True | Some f \<Rightarrow> \<not> by_day_of_year (eDateFormat f)"
    and "time_value env tpe s r = Some (b, s')"
  shows "ms_msg s' = ms_msg s \<and> cache_ok (ms_reported s') \<and> cache_ok (ms_generated s')"
proof -
  define fmt where "fmt = (case tpe of None \<Rightarrow> tplFmtDefault | Some f \<Rightarrow> eDateFormat f)"
  define t where "t = (if r then tTIMESTAMP (ms_msg s) else tRcvdAt (ms_msg s))"
  have f: "\<not> by_day_of_year fmt"
    using assms(2) by (auto simp: fmt_def by_day_of_year_def split: option.splits)
  have tt: "time_ok t" "cache_ok (ms_reported s)" "cache_ok (ms_generated s)"
    using assms(1) by (simp_all add: times_ok_def t_def)
  obtain x c where "getTimeReported (ms_reported s) t fmt = Some (x, c)" "cache_ok c"
    using getTimeReported_ok [OF tt(1,2) f] by blast
  moreover obtain y d where "getTimeReported (ms_generated s) t fmt = Some (y, d)" "cache_ok d"
    using getTimeReported_ok [OF tt(1,3) f] by blast
  ultimately show ?thesis
    using assms(3) tt unfolding time_value_def Let_def fmt_def [symmetric] t_def [symmetric]
    by (auto simp: getTimeGenerated_def split: if_splits)
qed

lemma MsgGetProp_keeps:
  assumes "msg_clean (ms_msg s)" "times_ok env s" "tpe_ok regexp tpe" "MsgGetProp env regexp tpe s i name t0 = Some (b, s')"
  shows "msg_clean (ms_msg s') \<and> times_ok env s' \<and> reread (ms_msg s) (ms_msg s')"
proof -
  have fmt: "case tpe of None \<Rightarrow> True | Some f \<Rightarrow> \<not> by_day_of_year (eDateFormat f)"
    using assms(3) by (auto simp: tpe_ok_def split: option.splits)
  define v where "v = (if i = 2 then time_value env tpe s True
               else if i = 16 then time_value env tpe s False
               else case header_value env (ms_msg s) i of
                   Some (b, m) \<Rightarrow> Some (b, s\<lparr>ms_msg := m\<rparr>)
                 | None \<Rightarrow> map_option (\<lambda>b. (b, s)) (system_value env t0 i name))"
  have "s' = s \<or> (\<exists>b'. v = Some (b', s'))"
    using assms(4) unfolding MsgGetProp_def Let_def v_def [symmetric] by (auto split: if_splits option.splits)
  then consider "s' = s" | b' r where "time_value env tpe s r = Some (b', s')"
    | b' m where "header_value env (ms_msg s) i = Some (b', m)" "s' = s\<lparr>ms_msg := m\<rparr>"
    unfolding v_def by (auto split: if_splits option.splits)
  then show ?thesis
  proof cases
    case 1
    then show ?thesis
      using assms(1,2) reread_refl by simp
  next
    case 2
    then show ?thesis
      using time_value_keeps [OF assms(2) fmt 2] assms(1,2) reread_refl by (simp add: times_ok_def)
  next
    case 3
    then have k: "msg_clean m" "reread (ms_msg s) m"
      using header_value_keeps [OF assms(1) 3(1)] by simp_all
    then show ?thesis
      using reread_fields [OF k(2)] assms(2) 3(2) by (simp add: times_ok_def)
  qed
qed

section \<open>Every template can be written\<close>

lemma from_str_all: "from_str s (int (length s)) = Some s"
  by (simp add: from_str_def)

lemma esc_seq_clean:
  assumes "NUL \<notin> set s"
  shows "NUL \<notin> set (concat (map (esc_seq mode) s))"
proof -
  have n: "NUL \<noteq> CHR 0x27" "NUL \<noteq> CHR 0x5C" "NUL \<noteq> CHR 0x22"
    by code_simp+
  have "NUL \<notin> set (esc_seq mode c)" if "c \<noteq> NUL" for c
    unfolding esc_seq_def using that n by (simp split: if_split)
  then show ?thesis
    using assms by (simp, metis)
qed

lemma doEscape_length:
  assumes "NUL \<notin> set (pRes b)" "bufLen b = int (length (pRes b))"
  shows "NUL \<notin> set (pRes (doEscape True mode b)) \<and> bufLen (doEscape True mode b) = int (length (pRes (doEscape True mode b)))"
  using assms esc_seq_clean [OF assms(1)] by (simp add: doEscape_def Let_def c_str_id)

definition entry_ok_for :: "tpl_entry \<Rightarrow> bool" where
  "entry_ok_for e \<longleftrightarrow> (case e of CONSTANT n s \<Rightarrow> True | FIELD i f re \<Rightarrow> tpe_ok re (Some f))"

lemma entry_value_ok:
  assumes "msg_clean (ms_msg s)" "env_clean env" "times_ok env s" "now_arg_ok ttNow" "entry_ok_for e"
  shows "\<exists>v s'. entry_value env mode ttNow e s = Some (v, s') \<and> msg_clean (ms_msg s') \<and> times_ok env s' \<and> reread (ms_msg s) (ms_msg s')"
proof (cases e)
  case (CONSTANT n c)
  then show ?thesis
    using assms reread_refl by (simp add: entry_value_def)
next
  case (FIELD i f re)
  then have t: "tpe_ok re (Some f)"
    using assms(5) by (simp add: entry_ok_for_def)
  obtain b s' where b: "MsgGetProp env re (Some f) s i (msgPropName f) ttNow = Some (b, s')" "NUL \<notin> set (pRes b)" "bufLen b = int (length (pRes b))"
    using MsgGetProp_ok [OF assms(1-4) t] by blast
  then show ?thesis
    using MsgGetProp_keeps [OF assms(1,3) t b(1)] doEscape_length [OF b(2,3)] FIELD from_str_all
    by (auto simp: entry_value_def Let_def)
qed

lemma tpl_values_ok:
  assumes "msg_clean (ms_msg s)" "env_clean env" "times_ok env s" "now_arg_ok ttNow" "list_all entry_ok_for es"
  shows "\<exists>vs s'. tpl_values env mode ttNow es s = Some (vs, s') \<and> length vs = length es \<and> msg_clean (ms_msg s') \<and> times_ok env s' \<and> reread (ms_msg s) (ms_msg s')"
  using assms(1,3,5)
proof (induction es arbitrary: s)
  case (Cons e es)
  obtain v s1 where v: "entry_value env mode ttNow e s = Some (v, s1)" "msg_clean (ms_msg s1)" "times_ok env s1" "reread (ms_msg s) (ms_msg s1)"
    using entry_value_ok [OF Cons.prems(1) assms(2) Cons.prems(2) assms(4)] Cons.prems(3) by fastforce
  then show ?case
    using Cons.IH [OF v(2,3)] Cons.prems(3) reread_trans [OF v(4)] by fastforce
qed (simp add: reread_refl)


definition sample_template :: rs_template where
  "sample_template = tplConstruct ''t''\<lparr>pEntry := [CONSTANT None ''msg='', FIELD 1 sample_tpe None], optEscape := SQL_ESCAPE\<rparr>"


section \<open>Values in SQL statements\<close>

text \<open>How a database reads a string literal behind its opening quote: a doubled quote stands for a quote, any other quote ends
  the literal; with the \<open>smart\<close> syntax a backslash takes the next character out of its role. The result is the
  value and what follows the literal.\<close>

fun sql_read :: "(char \<Rightarrow> char) option \<Rightarrow> string \<Rightarrow> (string \<times> string) option" where
  "sql_read smart [] = None"
| "sql_read smart (c # s) =
     (if c = CHR 0x27 then
        (case s of d # r \<Rightarrow> if d = CHR 0x27 then map_option (apfst (Cons d)) (sql_read smart r) else Some ([], s) | [] \<Rightarrow> Some ([], []))
      else if c = CHR 0x5C \<and> smart \<noteq> None then
        (case s of [] \<Rightarrow> None | d # r \<Rightarrow> map_option (apfst (Cons (the smart d))) (sql_read smart r))
      else map_option (apfst (Cons c)) (sql_read smart s))"

text \<open>A database for which the escape mode is meant.\<close>

definition reads_mode :: "optFormatEscape \<Rightarrow> (char \<Rightarrow> char) option \<Rightarrow> bool" where
  "reads_mode mode smart \<longleftrightarrow>
     mode = STDSQL_ESCAPE \<and> smart = None
     \<or> mode = SQL_ESCAPE \<and> (\<exists>u. smart = Some u \<and> u (CHR 0x27) = CHR 0x27 \<and> u (CHR 0x5C) = CHR 0x5C)"

lemma sql_read_escaped:
  assumes "reads_mode mode smart" "deref rest \<noteq> CHR 0x27"
  shows "sql_read smart (concat (map (esc_seq mode) s) @ CHR 0x27 # rest) = Some (s, rest)"
proof (induction s)
  case Nil
  then show ?case
    using assms(2) by (cases rest) auto
next
  case (Cons c s)
  have std: "esc_seq STDSQL_ESCAPE c = (if c = CHR 0x27 then [c, c] else [c])"
    and smt: "esc_seq SQL_ESCAPE c = (if c = CHR 0x27 \<or> c = CHR 0x5C then [CHR 0x5C, c] else [c])"
    by (simp_all add: esc_seq_def)
  consider "mode = STDSQL_ESCAPE" "smart = None" | u where "mode = SQL_ESCAPE" "smart = Some u" "u (CHR 0x27) = CHR 0x27" "u (CHR 0x5C) = CHR 0x5C"
    using assms(1) unfolding reads_mode_def by blast
  then show ?case
    using Cons.IH by cases (auto simp: std smt)
qed

lemma sql_read_plain:
  assumes "deref rest \<noteq> CHR 0x27" "\<forall>c \<in> set s. c \<noteq> CHR 0x27 \<and> (smart \<noteq> None \<longrightarrow> c \<noteq> CHR 0x5C)"
  shows "sql_read smart (s @ CHR 0x27 # rest) = Some (s, rest)"
  using assms(2)
proof (induction s)
  case Nil
  then show ?case
    using assms(1) by (cases rest) auto
qed auto

lemma doEscape_read:
  assumes "reads_mode mode smart" "deref rest \<noteq> CHR 0x27" "NUL \<notin> set (pRes b)"
  shows "sql_read smart (pRes (doEscape True mode b) @ CHR 0x27 # rest) = Some (pRes b, rest)"
proof (cases "dropWhile (esc_skipped mode) (pRes b) = []")
  case True
  then have "\<forall>c \<in> set (pRes b). esc_skipped mode c"
    by simp
  then have "\<forall>c \<in> set (pRes b). c \<noteq> CHR 0x27 \<and> (smart \<noteq> None \<longrightarrow> c \<noteq> CHR 0x5C)"
    using assms(1) unfolding reads_mode_def by (auto simp: esc_skipped_def)
  then show ?thesis
    using True sql_read_plain [OF assms(2)] by (simp add: doEscape_def Let_def c_str_id assms(3))
next
  case False
  then show ?thesis
    using sql_read_escaped [OF assms(1,2)] by (simp add: doEscape_def Let_def c_str_id assms(3) del: dropWhile_eq_Nil_conv)
qed

lemma doEmergencyEscape_read:
  assumes "reads_mode mode smart" "deref rest \<noteq> CHR 0x27"
  shows "sql_read smart (doEmergencyEscape mode s @ CHR 0x27 # rest) = Some (doEmergencyEscape mode s, rest)"
  using assms(1) unfolding reads_mode_def by (intro sql_read_plain [OF assms(2)]) (auto simp: doEmergencyEscape_def)

lemma doEscape_no_memory_read:
  assumes "reads_mode mode smart" "deref rest \<noteq> CHR 0x27" "NUL \<notin> set (pRes b)"
  shows "sql_read smart (pRes (doEscape False mode b) @ CHR 0x27 # rest) = Some (pRes (doEscape False mode b), rest)"
proof (cases "dropWhile (esc_skipped mode) (pRes b) = []")
  case True
  then have "doEscape False mode b = b" "doEscape True mode b = b"
    by (simp_all add: doEscape_def Let_def c_str_id assms(3))
  then show ?thesis
    using doEscape_read [OF assms] by simp
next
  case False
  then show ?thesis
    using doEmergencyEscape_read [OF assms(1,2)] by (simp add: doEscape_def Let_def c_str_id assms(3) del: dropWhile_eq_Nil_conv)
qed



section \<open>Where the writer goes wrong\<close>

text \<open>For JSON the test whether a value needs escaping is inverted: a value made of quotes and backslashes only is not
  escaped.\<close>

theorem json_escape_skipped:
  assumes "set (pRes b) \<subseteq> {CHR 0x22, CHR 0x5C}"
  shows "doEscape True JSON_ESCAPE b = b"
proof -
  have "NUL \<notin> set (pRes b)"
    using assms by (auto simp: NUL_def)
  then show ?thesis
    using assms by (auto simp: doEscape_def esc_skipped_def c_str_id Let_def)
qed

text \<open>The reserve for the characters that JSONF mode adds is one byte where it should be three, and three where it could be
  one: an entry that just fits leaves no room for the comma in front of it.\<close>

theorem jsonf_overrun:
  "tplToString env loaded (tplConstruct ''t''\<lparr>optEscape := JSONF, pEntry := [CONSTANT None (replicate 10 (CHR ''a'')), CONSTANT None (replicate 115 (CHR ''b''))]\<rparr>)
     ttNow s \<lparr>param = [], lenBuf = 128, lenStr = 0\<rparr> = None"
  by (simp add: tplToString_def tplConstruct_def entry_value_def put_value_def append_buf_def extra_space_def ExtendBuf_def ALLOC_INC_def Let_def)

text \<open>A template made of a subtree leaves the reported length as the message before had it.\<close>

theorem subtree_length_stale:
  assumes "pStrgen t = None" "subtree t = Some (i, n)" "tplToString env loaded t ttNow s iparam = Some (ip, s')"
  shows "param ip = jsonValue env i n \<and> lenStr ip = lenStr iparam"
  using assms by (auto simp: tplToString_def Let_def)

section \<open>String generators and the templates they stand for\<close>

text \<open>The templates named in the comments at the start of the four generator modules, as lines of a configuration.\<close>

definition tradfile_line :: string where
  "tradfile_line = CHR 0x22 # ''%TIMESTAMP% %HOSTNAME% %syslogtag%%msg:::sp-if-no-1st-sp%%msg:::drop-last-lf%'' @ [CHR 0x5C, CHR ''n'', CHR 0x22]"

definition file_line :: string where
  "file_line = CHR 0x22 # ''%TIMESTAMP:::date-rfc3339% %HOSTNAME% %syslogtag%%msg:::sp-if-no-1st-sp%%msg:::drop-last-lf%'' @ [CHR 0x5C, CHR ''n'', CHR 0x22]"

definition fwd_line :: string where
  "fwd_line = CHR 0x22 # ''<%PRI%>%TIMESTAMP:::date-rfc3339% %HOSTNAME% %syslogtag:1:32%%msg:::sp-if-no-1st-sp%%msg%'' @ [CHR 0x22]"

definition tradfwd_line :: string where
  "tradfwd_line = CHR 0x22 # ''<%PRI%>%TIMESTAMP% %HOSTNAME% %syslogtag:1:32%%msg:::sp-if-no-1st-sp%%msg%'' @ [CHR 0x22]"

definition same_entry :: "tpl_entry \<Rightarrow> tpl_entry \<Rightarrow> bool" where
  "same_entry e e' =
     (case e of
        CONSTANT n s \<Rightarrow> (case e' of CONSTANT n' s' \<Rightarrow> n = n' \<and> s = s' | FIELD _ _ _ \<Rightarrow> False)
      | FIELD i f re \<Rightarrow> (case e' of FIELD i' f' re' \<Rightarrow> i = i' \<and> f = f' \<and> Option.is_none re \<and> Option.is_none re' | CONSTANT _ _ \<Rightarrow> False))"

lemma same_entry_eq: "same_entry e e' \<Longrightarrow> e = e'"
  by (auto simp: same_entry_def Option.is_none_def split: tpl_entry.splits)

definition complex_field :: "string \<Rightarrow> tpe_field" where
  "complex_field n = zero_field\<lparr>fieldName := n, bComplexProcessing := True\<rparr>"

definition file_tail :: "tpl_entry list" where
  "file_tail = [CONSTANT None '' '', FIELD 3 (zero_field\<lparr>fieldName := ''HOSTNAME''\<rparr>) None, CONSTANT None '' '',
     FIELD 4 (zero_field\<lparr>fieldName := ''syslogtag''\<rparr>) None,
     FIELD 1 (complex_field ''msg''\<lparr>options := zero_options\<lparr>bSPIffNo1stSP := True\<rparr>\<rparr>) None,
     FIELD 1 (complex_field ''msg''\<lparr>options := zero_options\<lparr>bDropLastLF := True\<rparr>\<rparr>) None, CONSTANT None [CHR 0x0A]]"

definition fwd_tail :: "tpl_entry list" where
  "fwd_tail = [CONSTANT None '' '', FIELD 3 (zero_field\<lparr>fieldName := ''HOSTNAME''\<rparr>) None, CONSTANT None '' '',
     FIELD 4 (complex_field ''syslogtag''\<lparr>iFromPos := 1, iToPos := 32\<rparr>) None,
     FIELD 1 (complex_field ''msg''\<lparr>options := zero_options\<lparr>bSPIffNo1stSP := True\<rparr>\<rparr>) None,
     FIELD 1 (zero_field\<lparr>fieldName := ''msg''\<rparr>) None]"

definition fwd_head :: "tpl_entry list" where
  "fwd_head = [CONSTANT None ''<'', FIELD 9 (zero_field\<lparr>fieldName := ''PRI''\<rparr>) None, CONSTANT None ''>'']"

definition time_3164 :: tpl_entry where
  "time_3164 = FIELD 2 (zero_field\<lparr>fieldName := ''TIMESTAMP''\<rparr>) None"

definition time_3339 :: tpl_entry where
  "time_3339 = FIELD 2 (complex_field ''TIMESTAMP''\<lparr>eDateFormat := tplFmtRFC3339Date\<rparr>) None"

definition line_is :: "string \<Rightarrow> tpl_entry list \<Rightarrow> bool" where
  "line_is line es =
     (case tplAddLine None (\<lambda>_. False) ''t'' line of
        Some (Some (t, ok, rest)) \<Rightarrow> ok \<and> rest = [] \<and> Option.is_none (pStrgen t) \<and> Option.is_none (subtree t) \<and> optEscape t = NO_ESCAPE
          \<and> list_all2 same_entry (pEntry t) es
      | _ \<Rightarrow> False)"

lemma line_isD:
  assumes "line_is line es" "tplAddLine None (\<lambda>_. False) ''t'' line = Some (Some (t, ok, rest))"
  shows "pStrgen t = None \<and> subtree t = None \<and> optEscape t = NO_ESCAPE \<and> pEntry t = es"
proof -
  have "list_all2 (=) (pEntry t) es"
    using assms by (auto simp: line_is_def intro: list_all2_mono [of same_entry, OF _ same_entry_eq])
  then show ?thesis
    using assms by (auto simp: line_is_def Option.is_none_def list.rel_eq split: option.splits)
qed

lemma lines_parsed:
  "line_is tradfile_line (time_3164 # file_tail)" "line_is file_line (time_3339 # file_tail)"
  "line_is fwd_line (fwd_head @ time_3339 # fwd_tail)" "line_is tradfwd_line (fwd_head @ time_3164 # fwd_tail)"
  by code_simp+

lemma used_ids: "list_all (\<lambda>i. i \<in> set (map fst property_ids)) [1, 2, 3, 4, 9]"
  by code_simp

lemma used_id: "i \<in> {1, 2, 3, 4, 9} \<Longrightarrow> i \<in> fst ` set property_ids"
  using used_ids by auto

lemma value_plain:
  assumes "i \<in> {1, 3, 4, 9}" "header_value env (ms_msg s) i = Some (b, m)" "\<not> bComplexProcessing f" "buf_wf b"
  shows "entry_value env NO_ESCAPE ttNow (FIELD i f None) s = Some (pRes b, s\<lparr>ms_msg := m\<rparr>)"
  using assms used_id [of i] buf_len_wf [OF assms(4)] from_str_all [of "pRes b"]
  by (auto simp: entry_value_def MsgGetProp_def Let_def)

lemma value_complex:
  assumes "i \<in> {1, 3, 4, 9}" "header_value env (ms_msg s) i = Some (b, m)" "bComplexProcessing f" "replacer None f b = Some b'"
    and "bufLen b' = int (length (pRes b'))"
  shows "entry_value env NO_ESCAPE ttNow (FIELD i f None) s = Some (pRes b', s\<lparr>ms_msg := m\<rparr>)"
  using assms used_id [of i] from_str_all [of "pRes b'"]
  by (auto simp: entry_value_def MsgGetProp_def Let_def)

text \<open>The stages of the replacer that the options of these templates leave out.\<close>

lemmas replacer_stages = replacer_def extract_regex_def extract_position_def change_text_def space_if_none_def convert_case_def control_chars_def
  secure_path_def drop_last_lf_def compress_spaces_def format_value_def zero_based_def complex_field_def zero_field_def zero_options_def Let_def

lemma replacer_none:
  assumes "buf_wf b"
  shows "replacer None (complex_field n\<lparr>eDateFormat := d\<rparr>) b = Some (b\<lparr>bufLen := int (length (pRes b))\<rparr>)"
  using buf_len_wf [OF assms] by (simp add: replacer_stages)

lemma replacer_space:
  assumes "buf_wf b" "pRes b \<noteq> []"
  shows "replacer None (complex_field n\<lparr>options := zero_options\<lparr>bSPIffNo1stSP := True\<rparr>\<rparr>) b
    = Some (if deref (pRes b) = CHR '' '' then ret_text [] else ret_text '' '')"
proof -
  have "deref (pRes b) \<noteq> NUL"
    using assms by (cases "pRes b") (auto simp: buf_wf_def)
  moreover have "buf_len (ret_text []) = 0" "buf_len (ret_text '' '') = 1" "bufLen (ret_text []) = 0" "bufLen (ret_text '' '') = 1"
    by (simp_all add: buf_len_def ret_text_def)
  moreover have "CHR '' '' \<noteq> NUL"
    by (simp add: NUL_def)
  ultimately show ?thesis
    by (simp add: replacer_stages ret_text_def)
qed

lemma replacer_keep_last:
  assumes "buf_wf b" "pRes b \<noteq> []" "last (pRes b) \<noteq> CHR 0x0A"
  shows "replacer None (complex_field n\<lparr>options := zero_options\<lparr>bDropLastLF := True\<rparr>\<rparr>) b = Some (b\<lparr>bufLen := int (length (pRes b))\<rparr>)"
proof -
  have "nat (int (length (pRes b)) - 1) = length (pRes b) - 1"
    by simp
  then have "pRes b ! nat (int (length (pRes b)) - 1) \<noteq> CHR 0x0A"
    using assms(2,3) by (simp only: last_conv_nth not_False_eq_True)
  then show ?thesis
    using buf_len_wf [OF assms(1)] by (simp add: replacer_stages buf_len_def)
qed

lemma first_32:
  assumes "NUL \<notin> set s"
  shows "\<exists>b. extract_position (complex_field n\<lparr>iFromPos := 1, iToPos := 32\<rparr>) (val_len (s, int (length s))) = Some (Inr b)
    \<and> pRes b = take 32 s \<and> bufLen b = int (length (take 32 s))"
proof -
  have i: "to_int 1 = 1" "to_int 32 = 32"
    by code_simp+
  have f: "iFromPos (complex_field n\<lparr>iFromPos := 1, iToPos := 32\<rparr>) = 1" "iToPos (complex_field n\<lparr>iFromPos := 1, iToPos := 32\<rparr>) = 32"
      "options (complex_field n\<lparr>iFromPos := 1, iToPos := 32\<rparr>) = zero_options"
      "bFixedWidth zero_options = False" "bFromPosEndRelative zero_options = False"
    by (simp_all add: complex_field_def zero_field_def zero_options_def)
  consider "s = []" | "s \<noteq> []" "length s \<le> 31" | "31 < length s"
    by linarith
  then show ?thesis
    by cases (auto simp: extract_position_def zero_based_def f i val_len_def buf_len_def ret_text_def Let_def c_str_id [OF assms])
qed

lemma replacer_first_32:
  assumes "NUL \<notin> set s"
  shows "\<exists>b'. replacer None (complex_field n\<lparr>iFromPos := 1, iToPos := 32\<rparr>) (val_len (s, int (length s))) = Some b'
    \<and> pRes b' = take 32 s \<and> bufLen b' = int (length (take 32 s))"
proof -
  obtain b where b: "extract_position (complex_field n\<lparr>iFromPos := 1, iToPos := 32\<rparr>) (val_len (s, int (length s))) = Some (Inr b)"
      "pRes b = take 32 s" "bufLen b = int (length (take 32 s))"
    using first_32 [OF assms] by blast
  have "change_text (complex_field n\<lparr>iFromPos := 1, iToPos := 32\<rparr>) b = Some b"
    by (simp add: change_text_def space_if_none_def convert_case_def control_chars_def secure_path_def drop_last_lf_def compress_spaces_def
        format_value_def complex_field_def zero_field_def zero_options_def Let_def)
  moreover have "has_fields (complex_field n\<lparr>iFromPos := 1, iToPos := 32\<rparr>) = False" "has_regex (complex_field n\<lparr>iFromPos := 1, iToPos := 32\<rparr>) = 0"
    by (simp_all add: complex_field_def zero_field_def)
  ultimately show ?thesis
    using b by (simp add: replacer_def extract_regex_def buf_len_def)
qed

lemma tpl_values_append:
  assumes "tpl_values env mode ttNow xs s = Some (vs, s1)" "tpl_values env mode ttNow ys s1 = Some (ws, s2)"
  shows "tpl_values env mode ttNow (xs @ ys) s = Some (vs @ ws, s2)"
  using assms(1)
proof (induction xs arbitrary: s vs)
  case (Cons e xs)
  then obtain v s' vs' where "entry_value env mode ttNow e s = Some (v, s')" "tpl_values env mode ttNow xs s' = Some (vs', s1)" "vs = v # vs'"
    by (auto split: bind_splits)
  then show ?case
    using Cons.IH by simp
qed (use assms(2) in simp)

lemma value_time:
  assumes "getTimeReported (ms_reported s) (tTIMESTAMP (ms_msg s)) tplFmtRFC3164Date = Some (x, c)" "no_nul x"
  shows "entry_value env NO_ESCAPE ttNow time_3164 s = Some (x, s\<lparr>ms_reported := c\<rparr>)"
proof -
  have "getTimeReported (ms_reported s) (tTIMESTAMP (ms_msg s)) tplFmtDefault = Some (x, c)"
    using assms(1) by (simp add: getTimeReported_def)
  then show ?thesis
    using used_id [of 2] buf_len_wf [OF val_wf(2) [OF assms(2)]] from_str_all [of x]
    by (simp add: entry_value_def MsgGetProp_def time_3164_def time_value_def zero_field_def zero_options_def val_str_def Let_def)
qed

lemma value_time_3339:
  assumes "getTimeReported (ms_reported s) (tTIMESTAMP (ms_msg s)) tplFmtRFC3339Date = Some (x, c)" "no_nul x"
  shows "entry_value env NO_ESCAPE ttNow time_3339 s = Some (x, s\<lparr>ms_reported := c\<rparr>)"
proof -
  define f where "f = complex_field ''TIMESTAMP''\<lparr>eDateFormat := tplFmtRFC3339Date\<rparr>"
  have "eDateFormat f = tplFmtRFC3339Date" "bDateInUTC (options f) = False" "bComplexProcessing f"
    by (simp_all add: f_def complex_field_def zero_field_def zero_options_def)
  moreover have "replacer None f (val_str x) = Some (val_str x\<lparr>bufLen := int (length x)\<rparr>)"
    using replacer_none [OF val_wf(2) [OF assms(2)]] by (simp add: f_def val_str_def)
  ultimately show ?thesis
    using used_id [of 2] assms(1) from_str_all [of x]
    by (simp add: entry_value_def MsgGetProp_def time_3339_def f_def [symmetric] time_value_def val_str_def Let_def)
qed

text \<open>The texts of a message that all of these templates and generators use.\<close>

definition space_for :: "string \<Rightarrow> string" where
  "space_for msg = (if deref msg \<noteq> CHR '' '' then '' '' else [])"

lemma msg_values:
  assumes "msg_clean (ms_msg s)" "getMSG (ms_msg s) \<noteq> []"
  shows "entry_value env NO_ESCAPE ttNow (FIELD 1 (complex_field n\<lparr>options := zero_options\<lparr>bSPIffNo1stSP := True\<rparr>\<rparr>) None) s = Some (space_for (getMSG (ms_msg s)), s)"
    "entry_value env NO_ESCAPE ttNow (FIELD 1 (zero_field\<lparr>fieldName := n\<rparr>) None) s = Some (getMSG (ms_msg s), s)"
    "last (getMSG (ms_msg s)) \<noteq> CHR 0x0A \<Longrightarrow>
      entry_value env NO_ESCAPE ttNow (FIELD 1 (complex_field n\<lparr>options := zero_options\<lparr>bDropLastLF := True\<rparr>\<rparr>) None) s = Some (getMSG (ms_msg s), s)"
proof -
  let ?b = "val_len (getMSG (ms_msg s), iLenMSG (ms_msg s))"
  have l: "iLenMSG (ms_msg s) = int (length (getMSG (ms_msg s)))" and c: "no_nul (getMSG (ms_msg s))"
    using assms(1) clean_parts by (auto simp: msg_clean_def getMSG_def)
  have w: "buf_wf ?b" "pRes ?b = getMSG (ms_msg s)" "pRes ?b \<noteq> []"
    using val_wf(1) [OF c] l assms(2) by (simp_all add: val_len_def)
  have h: "header_value env (ms_msg s) 1 = Some (?b, ms_msg s)"
    by (simp add: header_value_def)
  have b: "bComplexProcessing (complex_field n\<lparr>options := z\<rparr>)" "\<not> bComplexProcessing (zero_field\<lparr>fieldName := n\<rparr>)" for z
    by (simp_all add: complex_field_def zero_field_def)
  show "entry_value env NO_ESCAPE ttNow (FIELD 1 (complex_field n\<lparr>options := zero_options\<lparr>bSPIffNo1stSP := True\<rparr>\<rparr>) None) s = Some (space_for (getMSG (ms_msg s)), s)"
    using value_complex [OF _ h b(1) replacer_space [OF w(1,3)]] w(2) by (auto simp: space_for_def ret_text_def)
  show "entry_value env NO_ESCAPE ttNow (FIELD 1 (zero_field\<lparr>fieldName := n\<rparr>) None) s = Some (getMSG (ms_msg s), s)"
    using value_plain [OF _ h b(2) w(1)] w(2) by simp
  show "entry_value env NO_ESCAPE ttNow (FIELD 1 (complex_field n\<lparr>options := zero_options\<lparr>bDropLastLF := True\<rparr>\<rparr>) None) s = Some (getMSG (ms_msg s), s)"
    if "last (getMSG (ms_msg s)) \<noteq> CHR 0x0A"
    using value_complex [OF _ h b(1) replacer_keep_last [OF w(1,3)]] w(2) that by simp
qed

lemma header_values:
  assumes "msg_clean (ms_msg s)" "env_clean env" "getTAG (ms_msg s) = Some (m, tag)"
  shows "entry_value env NO_ESCAPE ttNow (FIELD 3 (zero_field\<lparr>fieldName := n\<rparr>) None) s = Some (getHOSTNAME env (ms_msg s), s)"
    "entry_value env NO_ESCAPE ttNow (FIELD 9 (zero_field\<lparr>fieldName := n\<rparr>) None) s = Some (getPRI (ms_msg s), s)"
    "entry_value env NO_ESCAPE ttNow (FIELD 4 (zero_field\<lparr>fieldName := n\<rparr>) None) s = Some (tag, s\<lparr>ms_msg := m\<rparr>)"
    "entry_value env NO_ESCAPE ttNow (FIELD 4 (complex_field n\<lparr>iFromPos := 1, iToPos := 32\<rparr>) None) s = Some (take 32 tag, s\<lparr>ms_msg := m\<rparr>)"
proof -
  have b: "\<not> bComplexProcessing (zero_field\<lparr>fieldName := n\<rparr>)" "bComplexProcessing (complex_field n\<lparr>iFromPos := 1, iToPos := 32\<rparr>)"
    by (simp_all add: complex_field_def zero_field_def)
  have c: "no_nul tag"
    using getTAG_ok [OF assms(1)] assms(3) by auto
  have h: "header_value env (ms_msg s) 3 = Some (val_len (getHOSTNAME env (ms_msg s), int (length (getHOSTNAME env (ms_msg s)))), ms_msg s)"
      "header_value env (ms_msg s) 9 = Some (val_str (getPRI (ms_msg s)), ms_msg s)"
      "header_value env (ms_msg s) 4 = Some (val_len (tag, int (length tag)), m)"
    by (simp_all add: header_value_def assms(3))
  have w: "buf_wf (val_len (getHOSTNAME env (ms_msg s), int (length (getHOSTNAME env (ms_msg s)))))" "buf_wf (val_str (getPRI (ms_msg s)))"
      "buf_wf (val_len (tag, int (length tag)))"
    using header_value_ok [OF assms(1,2), of 3] header_value_ok [OF assms(1,2), of 9] h val_wf(1) [OF c] by (auto simp: header_ids_def)
  show "entry_value env NO_ESCAPE ttNow (FIELD 3 (zero_field\<lparr>fieldName := n\<rparr>) None) s = Some (getHOSTNAME env (ms_msg s), s)"
    using value_plain [OF _ h(1) b(1) w(1)] by (simp add: val_len_def)
  show "entry_value env NO_ESCAPE ttNow (FIELD 9 (zero_field\<lparr>fieldName := n\<rparr>) None) s = Some (getPRI (ms_msg s), s)"
    using value_plain [OF _ h(2) b(1) w(2)] by (simp add: val_str_def)
  show "entry_value env NO_ESCAPE ttNow (FIELD 4 (zero_field\<lparr>fieldName := n\<rparr>) None) s = Some (tag, s\<lparr>ms_msg := m\<rparr>)"
    using value_plain [OF _ h(3) b(1) w(3)] by (simp add: val_len_def)
  show "entry_value env NO_ESCAPE ttNow (FIELD 4 (complex_field n\<lparr>iFromPos := 1, iToPos := 32\<rparr>) None) s = Some (take 32 tag, s\<lparr>ms_msg := m\<rparr>)"
    using value_complex [OF _ h(3) b(2)] replacer_first_32 [OF c [unfolded no_nul_def], of n] by fastforce
qed

lemma tail_values:
  assumes "msg_clean (ms_msg s)" "env_clean env" "getTAG (ms_msg s) = Some (m, tag)" "getMSG (ms_msg s) = msg" "msg \<noteq> []" "last msg \<noteq> CHR 0x0A"
  shows "tpl_values env NO_ESCAPE ttNow file_tail s
      = Some ([[CHR '' ''], getHOSTNAME env (ms_msg s), [CHR '' ''], tag, space_for msg, msg, [CHR 0x0A]], s\<lparr>ms_msg := m\<rparr>)"
    "tpl_values env NO_ESCAPE ttNow fwd_tail s
      = Some ([[CHR '' ''], getHOSTNAME env (ms_msg s), [CHR '' ''], take 32 tag, space_for msg, msg], s\<lparr>ms_msg := m\<rparr>)"
    "tpl_values env NO_ESCAPE ttNow fwd_head s = Some ([''<'', getPRI (ms_msg s), ''>''], s)"
proof -
  have m: "msg_clean m" "getMSG m = msg"
    using getTAG_keeps [OF assms(1,3)] reread_fields [OF getTAG_rereads [OF assms(3)]] assms(4) by simp_all
  have k: "entry_value env NO_ESCAPE ttNow (CONSTANT None x) s1 = Some (x, s1)" for x s1
    by (simp add: entry_value_def)
  have v: "msg_clean (ms_msg (s\<lparr>ms_msg := m\<rparr>))" "getMSG (ms_msg (s\<lparr>ms_msg := m\<rparr>)) = msg" "getMSG (ms_msg (s\<lparr>ms_msg := m\<rparr>)) \<noteq> []"
    using m assms(5) by simp_all
  note vs = k header_values [OF assms(1-3)] msg_values(1,2) [OF v(1,3), unfolded v(2)] msg_values(3) [OF v(1,3), unfolded v(2), OF assms(6)]
  show "tpl_values env NO_ESCAPE ttNow file_tail s
      = Some ([[CHR '' ''], getHOSTNAME env (ms_msg s), [CHR '' ''], tag, space_for msg, msg, [CHR 0x0A]], s\<lparr>ms_msg := m\<rparr>)"
    by (simp add: file_tail_def vs)
  show "tpl_values env NO_ESCAPE ttNow fwd_tail s
      = Some ([[CHR '' ''], getHOSTNAME env (ms_msg s), [CHR '' ''], take 32 tag, space_for msg, msg], s\<lparr>ms_msg := m\<rparr>)"
    by (simp add: fwd_tail_def vs)
  show "tpl_values env NO_ESCAPE ttNow fwd_head s = Some ([''<'', getPRI (ms_msg s), ''>''], s)"
    by (simp add: fwd_head_def vs)
qed

lemma room_enough:
  assumes "int (length (concat ps)) < n"
  shows "write_parts (if lenBuf iparam \<le> n then ExtendBuf n else lenBuf iparam) ps = Some (concat ps)"
  using assms ExtendBuf_gt [of n] by (simp add: write_parts_def)

lemma timestamp_15:
  assumes "time_ok t" "pred_option (\<lambda>x. length x = 15) (c3164 c)" "getTimeReported c t tplFmtRFC3164Date = Some (x, c')"
  shows "length x = 15"
proof -
  have "month t \<in> {1..12}"
    using assms(1) by (simp add: time_ok_def writable3339_def time_fields_ok_def)
  then have "length (fst (formatTimestamp3164 t False)) = 15"
    using length_formatTimestamp3164 [of t False] by (simp add: formatTimestamp3164_def Let_def)
  then show ?thesis
    using assms(2,3) by (auto simp: getTimeReported_def Let_def cached_def split: option.splits)
qed

lemma from_str_15: "length x = 15 \<Longrightarrow> from_str x CONST_LEN_TIMESTAMP_3164 = Some x"
  by (simp add: from_str_def CONST_LEN_TIMESTAMP_3164_def)

text \<open>A generator and its template put the same parts one behind the other.\<close>

definition writes :: "(actWrkrIParams \<times> msg_state) option \<Rightarrow> string list \<Rightarrow> msg_state \<Rightarrow> bool" where
  "writes r ps s' \<longleftrightarrow> (\<exists>ip. r = Some (ip, s') \<and> param ip = concat ps \<and> lenStr ip = int (length (concat ps)) \<and> lenStr ip < lenBuf ip)"

lemma writes_same:
  assumes "writes r ps s'" "writes r' ps s'"
  shows "\<exists>ip ip' s'. r = Some (ip, s') \<and> r' = Some (ip', s') \<and> param ip = param ip' \<and> lenStr ip = lenStr ip' \<and> lenStr ip < lenBuf ip \<and> lenStr ip' < lenBuf ip'"
  using assms by (auto simp: writes_def)

lemma room_gt: "n < (if lenBuf iparam \<le> n then ExtendBuf n else lenBuf iparam)"
  using ExtendBuf_gt [of n] by simp

lemma file_generators:
  assumes "getTAG (ms_msg s) = Some (m, tag)" "getMSG m = msg" "iLenMSG m = int (length msg)"
  shows "getTimeReported (ms_reported s) (tTIMESTAMP (ms_msg s)) tplFmtRFC3164Date = Some (x, c) \<Longrightarrow> length x = 15 \<Longrightarrow>
      writes (smtradfile env s iparam) [x, '' '', getHOSTNAME env (ms_msg s), '' '', tag, space_for msg, msg, [CHR 0x0A]] (s\<lparr>ms_msg := m, ms_reported := c\<rparr>)"
    "getTimeReported (ms_reported s) (tTIMESTAMP (ms_msg s)) tplFmtRFC3339Date = Some (x, c) \<Longrightarrow>
      writes (smfile env s iparam) [x, '' '', getHOSTNAME env (ms_msg s), '' '', tag, space_for msg, msg, [CHR 0x0A]] (s\<lparr>ms_msg := m, ms_reported := c\<rparr>)"
proof -
  let ?ps = "[x, '' '', getHOSTNAME env (ms_msg s), '' '', tag, space_for msg, msg, [CHR 0x0A]]"
  define n where "n = int (length (concat ?ps)) + 1"
  have n: "int (length x) + 1 + int (length (getHOSTNAME env (ms_msg s))) + 1 + int (length tag) + iLenMSG m + 2
      + (if deref msg \<noteq> CHR '' '' then 1 else 0) = n"
    by (simp add: n_def assms(3) space_for_def)
  have w: "write_parts (if lenBuf iparam \<le> n then ExtendBuf n else lenBuf iparam) ?ps = Some (concat ?ps)"
    by (rule room_enough) (simp add: n_def)
  have g: "n - 1 < (if lenBuf iparam \<le> n then ExtendBuf n else lenBuf iparam)" "n - 1 = int (length (concat ?ps))"
    using room_gt [of n iparam] by (simp_all add: n_def)
  have f: "from_str msg (iLenMSG m) = Some msg"
    using from_str_all assms(3) by simp
  show "writes (smtradfile env s iparam) ?ps (s\<lparr>ms_msg := m, ms_reported := c\<rparr>)"
    if t: "getTimeReported (ms_reported s) (tTIMESTAMP (ms_msg s)) tplFmtRFC3164Date = Some (x, c)" "length x = 15"
  proof -
    have c15: "CONST_LEN_TIMESTAMP_3164 = int (length x)"
      by (simp add: t(2) CONST_LEN_TIMESTAMP_3164_def)
    show ?thesis
      using g
      by (simp only: writes_def smtradfile_def t(1) c15 assms(1,2) n f w Option.bind.simps case_prod_conv Let_def option.inject
          space_for_def [symmetric] from_str_all prod.inject) auto
  qed
  show "writes (smfile env s iparam) ?ps (s\<lparr>ms_msg := m, ms_reported := c\<rparr>)"
    if t: "getTimeReported (ms_reported s) (tTIMESTAMP (ms_msg s)) tplFmtRFC3339Date = Some (x, c)"
    using g by (simp only: writes_def smfile_def t assms(1,2) n f w Option.bind.simps case_prod_conv Let_def option.inject
        space_for_def [symmetric] prod.inject) auto
qed

lemma fwd_generators:
  assumes "getTAG (ms_msg s) = Some (m, tag)" "getMSG m = msg" "iLenMSG m = int (length msg)"
  shows "getTimeReported (ms_reported s) (tTIMESTAMP (ms_msg s)) tplFmtRFC3164Date = Some (x, c) \<Longrightarrow> length x = 15 \<Longrightarrow>
      writes (smtradfwd env s iparam) [''<'', getPRI (ms_msg s), ''>'', x, '' '', getHOSTNAME env (ms_msg s), '' '', take 32 tag, space_for msg, msg]
        (s\<lparr>ms_msg := m, ms_reported := c\<rparr>)"
    "getTimeReported (ms_reported s) (tTIMESTAMP (ms_msg s)) tplFmtRFC3339Date = Some (x, c) \<Longrightarrow>
      writes (smfwd env s iparam) [''<'', getPRI (ms_msg s), ''>'', x, '' '', getHOSTNAME env (ms_msg s), '' '', take 32 tag, space_for msg, msg]
        (s\<lparr>ms_msg := m, ms_reported := c\<rparr>)"
proof -
  let ?ps = "[''<'', getPRI (ms_msg s), ''>'', x, '' '', getHOSTNAME env (ms_msg s), '' '', take 32 tag, space_for msg, msg]"
  define l where "l = (if 32 < length tag then 32 else length tag)"
  have l: "take l tag = take 32 tag" "length (take 32 tag) = l"
    by (simp_all add: l_def)
  define n where "n = int (length (concat ?ps)) + 1"
  have n: "1 + int (length (getPRI (ms_msg s))) + 1 + int (length x) + 1 + int (length (getHOSTNAME env (ms_msg s))) + 1 + int l + iLenMSG m + 1
      + (if deref msg \<noteq> CHR '' '' then 1 else 0) = n"
    using l(2) by (simp add: n_def assms(3) space_for_def)
  have w: "write_parts (if lenBuf iparam \<le> n then ExtendBuf n else lenBuf iparam) ?ps = Some (concat ?ps)"
    by (rule room_enough) (simp add: n_def)
  have g: "n - 1 < (if lenBuf iparam \<le> n then ExtendBuf n else lenBuf iparam)" "n - 1 = int (length (concat ?ps))"
    using room_gt [of n iparam] by (simp_all add: n_def)
  have f: "from_str msg (iLenMSG m) = Some msg"
    using from_str_all assms(3) by simp
  show "writes (smtradfwd env s iparam) ?ps (s\<lparr>ms_msg := m, ms_reported := c\<rparr>)"
    if t: "getTimeReported (ms_reported s) (tTIMESTAMP (ms_msg s)) tplFmtRFC3164Date = Some (x, c)" "length x = 15"
  proof -
    have c15: "CONST_LEN_TIMESTAMP_3164 = int (length x)"
      by (simp add: t(2) CONST_LEN_TIMESTAMP_3164_def)
    show ?thesis
      using g
      by (simp only: writes_def smtradfwd_def t(1) c15 assms(1,2) l_def [symmetric] l(1) n f w Option.bind.simps case_prod_conv Let_def option.inject
          space_for_def [symmetric] from_str_all prod.inject) auto
  qed
  show "writes (smfwd env s iparam) ?ps (s\<lparr>ms_msg := m, ms_reported := c\<rparr>)"
    if t: "getTimeReported (ms_reported s) (tTIMESTAMP (ms_msg s)) tplFmtRFC3339Date = Some (x, c)"
    using g by (simp only: writes_def smfwd_def t assms(1,2) l_def [symmetric] l(1) n f w Option.bind.simps case_prod_conv Let_def option.inject
        space_for_def [symmetric] prod.inject) auto
qed

lemma template_writes:
  assumes "line_is line es" "tpl_values env NO_ESCAPE ttNow es s = Some (vs, s')" "0 \<le> lenBuf iparam"
  shows "\<exists>t. tplAddLine None (\<lambda>_. False) ''t'' line = Some (Some (t, True, [])) \<and> writes (tplToString env loaded t ttNow s iparam) vs s'"
proof -
  obtain t where t: "tplAddLine None (\<lambda>_. False) ''t'' line = Some (Some (t, True, []))"
    using assms(1) by (auto simp: line_is_def split: option.splits)
  then have "pStrgen t = None" "subtree t = None" "optEscape t = NO_ESCAPE" "pEntry t = es"
    using line_isD [OF assms(1)] by blast+
  then show ?thesis
    using t tplToString_values [of t iparam env ttNow s vs s' loaded] assms(2,3) by (auto simp: writes_def)
qed

definition strgen_lines :: "(string \<times> (prop_env \<Rightarrow> msg_state \<Rightarrow> actWrkrIParams \<Rightarrow> (actWrkrIParams \<times> msg_state) option)) list" where
  "strgen_lines = [(tradfile_line, smtradfile), (file_line, smfile), (fwd_line, smfwd), (tradfwd_line, smtradfwd)]"

lemma strgen_writes:
  assumes "(line, gen) \<in> set strgen_lines"
    and "msg_clean (ms_msg s)" "env_clean env" "times_ok env s" "pred_option (\<lambda>x. length x = 15) (c3164 (ms_reported s))"
    and "getMSG (ms_msg s) \<noteq> []" "last (getMSG (ms_msg s)) \<noteq> CHR 0x0A"
  shows "\<exists>es vs s'. line_is line es \<and> tpl_values env NO_ESCAPE ttNow es s = Some (vs, s') \<and> writes (gen env s iparam) vs s'"
proof -
  let ?msg = "getMSG (ms_msg s)"
  obtain m tag where tag: "getTAG (ms_msg s) = Some (m, tag)"
    using getTAG_ok [OF assms(2)] by blast
  have m: "getMSG m = ?msg" "iLenMSG m = int (length ?msg)"
    using reread_fields [OF getTAG_rereads [OF tag]] assms(2) by (simp_all add: msg_clean_def)
  have ok: "time_ok (tTIMESTAMP (ms_msg s))" "cache_ok (ms_reported s)"
    using assms(4) by (simp_all add: times_ok_def)
  obtain x c where x: "getTimeReported (ms_reported s) (tTIMESTAMP (ms_msg s)) tplFmtRFC3164Date = Some (x, c)" "no_nul x"
    using getTimeReported_ok [OF ok, of tplFmtRFC3164Date] by (auto simp: by_day_of_year_def no_nul_def)
  obtain y d where y: "getTimeReported (ms_reported s) (tTIMESTAMP (ms_msg s)) tplFmtRFC3339Date = Some (y, d)" "no_nul y"
    using getTimeReported_ok [OF ok, of tplFmtRFC3339Date] by (auto simp: by_day_of_year_def no_nul_def)
  have tails: "tpl_values env NO_ESCAPE ttNow file_tail (s\<lparr>ms_reported := e\<rparr>)
        = Some ([[CHR '' ''], getHOSTNAME env (ms_msg s), [CHR '' ''], tag, space_for ?msg, ?msg, [CHR 0x0A]], s\<lparr>ms_msg := m, ms_reported := e\<rparr>)"
      "tpl_values env NO_ESCAPE ttNow fwd_tail (s\<lparr>ms_reported := e\<rparr>)
        = Some ([[CHR '' ''], getHOSTNAME env (ms_msg s), [CHR '' ''], take 32 tag, space_for ?msg, ?msg], s\<lparr>ms_msg := m, ms_reported := e\<rparr>)" for e
    using tail_values(1,2) [of "s\<lparr>ms_reported := e\<rparr>" env m tag ?msg] assms(2,3,6,7) tag by simp_all
  have head: "tpl_values env NO_ESCAPE ttNow fwd_head s = Some ([''<'', getPRI (ms_msg s), ''>''], s)"
    using tail_values(3) [OF assms(2,3) tag refl assms(6,7)] .
  have vs: "tpl_values env NO_ESCAPE ttNow (time_3164 # file_tail) s
        = Some ([x, '' '', getHOSTNAME env (ms_msg s), '' '', tag, space_for ?msg, ?msg, [CHR 0x0A]], s\<lparr>ms_msg := m, ms_reported := c\<rparr>)"
      "tpl_values env NO_ESCAPE ttNow (time_3339 # file_tail) s
        = Some ([y, '' '', getHOSTNAME env (ms_msg s), '' '', tag, space_for ?msg, ?msg, [CHR 0x0A]], s\<lparr>ms_msg := m, ms_reported := d\<rparr>)"
      "tpl_values env NO_ESCAPE ttNow (fwd_head @ time_3339 # fwd_tail) s
        = Some ([''<'', getPRI (ms_msg s), ''>'', y, '' '', getHOSTNAME env (ms_msg s), '' '', take 32 tag, space_for ?msg, ?msg], s\<lparr>ms_msg := m, ms_reported := d\<rparr>)"
      "tpl_values env NO_ESCAPE ttNow (fwd_head @ time_3164 # fwd_tail) s
        = Some ([''<'', getPRI (ms_msg s), ''>'', x, '' '', getHOSTNAME env (ms_msg s), '' '', take 32 tag, space_for ?msg, ?msg], s\<lparr>ms_msg := m, ms_reported := c\<rparr>)"
    using tpl_values_append [OF head, of "time_3339 # fwd_tail"] tpl_values_append [OF head, of "time_3164 # fwd_tail"]
    by (simp_all add: value_time [OF x] value_time_3339 [OF y] tails)
  note gens = file_generators(1) [OF tag m x(1) timestamp_15 [OF ok(1) assms(5) x(1)], of env iparam] file_generators(2) [OF tag m y(1), of env iparam]
    fwd_generators(2) [OF tag m y(1), of env iparam] fwd_generators(1) [OF tag m x(1) timestamp_15 [OF ok(1) assms(5) x(1)], of env iparam]
  show ?thesis
    using assms(1) lines_parsed vs gens unfolding strgen_lines_def by auto
qed

text \<open>(C8) Each of the four built-in string generators writes what the template in the comment at its start writes: the line is
  accepted by the parser of templates, and the text of a message with a MSG part that is not empty and does not end with LF is the
  same, byte for byte, with the same reported length and the same message afterwards, and both stay inside their buffers.\<close>

theorem strgen_is_template:
  assumes "(line, gen) \<in> set strgen_lines"
    and "msg_clean (ms_msg s)" "env_clean env" "times_ok env s" "pred_option (\<lambda>x. length x = 15) (c3164 (ms_reported s))"
    and "getMSG (ms_msg s) \<noteq> []" "last (getMSG (ms_msg s)) \<noteq> CHR 0x0A" "0 \<le> lenBuf iparam"
  shows "\<exists>t ip ip' s'. tplAddLine None (\<lambda>_. False) ''t'' line = Some (Some (t, True, []))
    \<and> tplToString env loaded t ttNow s iparam = Some (ip, s') \<and> gen env s iparam = Some (ip', s')
    \<and> param ip = param ip' \<and> lenStr ip = lenStr ip' \<and> lenStr ip < lenBuf ip \<and> lenStr ip' < lenBuf ip'"
proof -
  obtain es vs s' where v: "line_is line es" "tpl_values env NO_ESCAPE ttNow es s = Some (vs, s')" "writes (gen env s iparam) vs s'"
    using strgen_writes [OF assms(1-7)] by blast
  obtain t where t: "tplAddLine None (\<lambda>_. False) ''t'' line = Some (Some (t, True, []))" "writes (tplToString env loaded t ttNow s iparam) vs s'"
    using template_writes [OF v(1,2) assms(8)] by blast
  show ?thesis
    using t(1) writes_same [OF t(2) v(3)] by blast
qed

theorem strgen_is_template_witness:
  "\<exists>t ip ip' s'. tplAddLine None (\<lambda>_. False) ''t'' fwd_line = Some (Some (t, True, []))
    \<and> tplToString sample_env (\<lambda>_ _ _. None) t None sample_state \<lparr>param = [], lenBuf = 0, lenStr = 0\<rparr> = Some (ip, s')
    \<and> smfwd sample_env sample_state \<lparr>param = [], lenBuf = 0, lenStr = 0\<rparr> = Some (ip', s') \<and> param ip = param ip'"
proof -
  have "(fwd_line, smfwd) \<in> set strgen_lines" "pred_option (\<lambda>x. length x = 15) (c3164 (ms_reported sample_state))"
      "getMSG (ms_msg sample_state) = '' hi''"
    by (simp_all add: strgen_lines_def sample_state_def no_cache_def msg_example_def getMSG_def raw_def)
  then show ?thesis
    using strgen_is_template [OF _ sample_clean sample_env_ok sample_state_ok, of fwd_line smfwd "\<lparr>param = [], lenBuf = 0, lenStr = 0\<rparr>" "\<lambda>_ _ _. None" None]
    by fastforce
qed

text \<open>The restriction to other texts is needed. For an empty MSG part the generator writes a space in front of it where the
  template has nothing, and a final LF is written although the template drops it.\<close>

lemma smfile_ends_with:
  assumes "msg_clean (ms_msg s)" "times_ok env s"
  shows "\<exists>ps s'. writes (smfile env s iparam) (ps @ [space_for (getMSG (ms_msg s)), getMSG (ms_msg s), [CHR 0x0A]]) s'"
proof -
  obtain m tag where tag: "getTAG (ms_msg s) = Some (m, tag)"
    using getTAG_ok [OF assms(1)] by blast
  have m: "getMSG m = getMSG (ms_msg s)" "iLenMSG m = int (length (getMSG (ms_msg s)))"
    using reread_fields [OF getTAG_rereads [OF tag]] assms(1) by (simp_all add: msg_clean_def)
  obtain y d where "getTimeReported (ms_reported s) (tTIMESTAMP (ms_msg s)) tplFmtRFC3339Date = Some (y, d)"
    using getTimeReported_ok [of "tTIMESTAMP (ms_msg s)" "ms_reported s" tplFmtRFC3339Date] assms(2) by (auto simp: times_ok_def by_day_of_year_def)
  then have "writes (smfile env s iparam) ([y, '' '', getHOSTNAME env (ms_msg s), '' '', tag] @ [space_for (getMSG (ms_msg s)), getMSG (ms_msg s), [CHR 0x0A]])
      (s\<lparr>ms_msg := m, ms_reported := d\<rparr>)"
    using file_generators(2) [OF tag m] by simp
  then show ?thesis
    by blast
qed

theorem strgen_adds_space:
  assumes "msg_clean (ms_msg s)" "times_ok env s" "getMSG (ms_msg s) = []"
  shows "entry_value env NO_ESCAPE ttNow (FIELD 1 (complex_field ''msg''\<lparr>options := zero_options\<lparr>bSPIffNo1stSP := True\<rparr>\<rparr>) None) s = Some ([], s)
    \<and> (\<exists>ps s'. writes (smfile env s iparam) (ps @ ['' '', [], [CHR 0x0A]]) s')"
proof -
  let ?f = "complex_field ''msg''\<lparr>options := zero_options\<lparr>bSPIffNo1stSP := True\<rparr>\<rparr>"
  have l: "iLenMSG (ms_msg s) = 0"
    using assms(1,3) by (simp add: msg_clean_def)
  have "replacer None ?f (val_len ([], 0)) = Some (val_len ([], 0))" "bComplexProcessing ?f"
    by (simp_all add: replacer_stages val_len_def buf_len_def)
  moreover have "header_value env (ms_msg s) 1 = Some (val_len ([], 0), ms_msg s)"
    using l assms(3) by (simp add: header_value_def)
  moreover have "space_for [] = '' ''"
    by (simp add: space_for_def NUL_def)
  ultimately show ?thesis
    using value_complex [of 1 env s "val_len ([], 0)" "ms_msg s" ?f] smfile_ends_with [OF assms(1,2)] assms(3) by (simp add: val_len_def)
qed

theorem strgen_keeps_LF:
  assumes "msg_clean (ms_msg s)" "times_ok env s" "getMSG (ms_msg s) = body @ [CHR 0x0A]"
  shows "entry_value env NO_ESCAPE ttNow (FIELD 1 (complex_field ''msg''\<lparr>options := zero_options\<lparr>bDropLastLF := True\<rparr>\<rparr>) None) s = Some (body, s)
    \<and> (\<exists>ps s'. writes (smfile env s iparam) (ps @ [body @ [CHR 0x0A], [CHR 0x0A]]) s')"
proof -
  let ?f = "complex_field ''msg''\<lparr>options := zero_options\<lparr>bDropLastLF := True\<rparr>\<rparr>" and ?b = "val_len (body @ [CHR 0x0A], int (length body) + 1)"
  have "replacer None ?f ?b = Some \<lparr>pRes = body, bufLen = int (length body), bMustBeFreed = True\<rparr>" "bComplexProcessing ?f"
    by (simp_all add: replacer_stages val_len_def buf_len_def)
  moreover have "header_value env (ms_msg s) 1 = Some (?b, ms_msg s)"
    using assms(1,3) by (simp add: header_value_def msg_clean_def add.commute)
  ultimately have v: "entry_value env NO_ESCAPE ttNow (FIELD 1 ?f None) s = Some (body, s)"
    using value_complex [of 1 env s ?b "ms_msg s" ?f] by simp
  obtain ps s' where "writes (smfile env s iparam) (ps @ [space_for (getMSG (ms_msg s)), getMSG (ms_msg s), [CHR 0x0A]]) s'"
    using smfile_ends_with [OF assms(1,2)] by blast
  then have "writes (smfile env s iparam) ((ps @ [space_for (getMSG (ms_msg s))]) @ [body @ [CHR 0x0A], [CHR 0x0A]]) s'"
    using assms(3) by simp
  then show ?thesis
    using v by blast
qed

end
