(* ===== verification/Spec2Isabelle.thy ===== *)
theory Spec2Isabelle
  imports Queue_Params Rs_Input Msg_Prop Tpl_String
begin

text \<open>
  rsyslog: the parts of the syslog daemon under \<open>src/rsyslog\<close> that decide what happens to a message, from the
  bytes of a TCP session to the text that an output module gets.

  \<^bold>\<open>The program.\<close> An input receives bytes and cuts them into raw messages; a message object is made of each
  (\<open>runtime/tcps_sess.c\<close>, \<open>runtime/msg.c\<close>). The parser object removes or escapes control characters, reads the
  priority and asks one parser module after the other until one accepts the message (\<open>runtime/parser.c\<close>,
  \<open>tools/pmrfc5424.c\<close>, \<open>tools/pmrfc3164.c\<close>); the modules use the timestamp parsers (\<open>runtime/datetime.c\<close>,
  \<open>runtime/timezones.c\<close>). Messages pass through queues (\<open>runtime/queue.c\<close>) on the way to the rulesets, whose
  traditional filters test the priority against a mask (\<open>runtime/conf.c\<close>, \<open>grammar/rainerscript.c\<close>). An action
  formats a message with a template (\<open>template.c\<close>): constants and properties, where a property is read by
  \<open>MsgGetProp\<close> (\<open>runtime/msg.c\<close>) and changed by the options of its entry; four frequent templates exist as C code
  (\<open>tools/sm*.c\<close>).

  \<^bold>\<open>Theories and sources.\<close>
  \<^item> \<open>Rs_Prelude\<close>: return codes, C integers and strings, binary search and sorting of the C library.
  \<^item> \<open>Timezones\<close>, \<open>Datetime\<close>, \<open>Datetime_Format\<close>, \<open>Datetime_Calendar\<close>: \<open>runtime/timezones.c\<close> and
    \<open>runtime/datetime.c\<close>. The record \<open>syslogTime\<close> has the fields of the struct; each parser, formatter and calendar
    function has the name it has in the code.
  \<^item> \<open>Tcps_Sess\<close>: the framing automaton \<open>processDataRcvd\<close> with its states; the session record is the struct without
    the socket.
  \<^item> \<open>Rs_Msg\<close>: the message object \<open>smsg\<close> and its accessors. \<open>Rs_Parser\<close>: \<open>SanitizeMsg\<close>, \<open>ParsePRI\<close>,
    \<open>ParseMsg\<close>, and the locale \<open>parser_module\<close>, the contract of a parser module. \<open>Pm_Rfc5424\<close> and
    \<open>Pm_Rfc3164\<close>: the two modules, each an interpretation of it. \<open>Rs_Input\<close>: the message made of a frame, and its way
    through the parsers.
  \<^item> \<open>Queue_Store\<close>: the storage drivers of the queue; the locale \<open>queue_store\<close> is their contract, interpreted by
    the fixed array and by the linked list with its nodes in a heap. \<open>Rs_Queue\<close>, \<open>Queue_Params\<close>: the queue object over
    any driver, its flow control, batches and parameters. The other threads are a list of the states found when a wait ends.
  \<^item> \<open>Rs_Prifilt\<close>: names of facilities and severities, selector lines and masks.
  \<^item> \<open>Json_Escape\<close>, \<open>Prop_Replacer\<close>, \<open>Msg_Prop\<close>: \<open>MsgGetProp\<close> from the name of a property to its formatted
    value, stage by stage.
  \<^item> \<open>Tpl_Parse\<close>: the parser of template lines and of template objects of the configuration. \<open>Tpl_String\<close>:
    \<open>tplToString\<close>, the escape modes and the built-in string generators.

  \<^bold>\<open>What is shown.\<close>
  \<^item> Round trips: a written timestamp, RFC 5424 or RFC 3164 message, sequence of frames, CSV or JSON value or template line is
    read back to what it was made of. The theorems of this theory compose them from the bytes on the wire to the fields of the message,
    for any division of the bytes into receive calls.
  \<^item> Safety: with the stated conditions on the configuration no modelled operation reads or writes outside its buffer (which is the
    result \<^const>\<open>None\<close> wherever the code could do so), and the lengths it reports are right; the SQL options of templates keep values
    inside their literals.
  \<^item> Contracts: what the timestamp parsers, \<open>ParsePRI\<close>, \<open>SanitizeMsg\<close>, selector lines, field and position extraction, time
    zone lookup, calendar functions and the queue parameters compute.
  \<^item> Queues: both drivers implement a FIFO store, enqueueing never leaves the array, waits end when they should, and a worker processes
    the messages in order and deletes exactly those.
  \<^item> Equivalence and refinement: a string generator writes what the template in its comment writes; expanding a template is the
    concatenation of the values of its entries.
  \<^item> Flaws of the code are theorems as well: they show the input on which a buffer is left or a text is wrong.

  \<^bold>\<open>Bounds and fuel.\<close> The search for a match of a regular expression is given 65537 rounds, which is one more than its
  16 bit counter has values. The JSON work buffer starts with 100000 bytes as in the code and is doubled. Output buffers
  grow in steps of 128 bytes. The loops over a template that could run forever are partial functions with the option monad; that
  they end for every input is a theorem. The waits of the queue use up the given list of states of the other threads; that they return is a theorem
  under the condition that a state with room is among them. All other recursions terminate by their measure. Sizes of buffers are
  integers without a limit; C integers are wrapped where the code stores into a smaller type.

  \<^bold>\<open>Parameters.\<close> zlib's \<open>uncompress\<close>, the regular expression library, the JSON library, name resolution, the clock, the time zone rules
  of the machine, and string generators that are loaded as modules are arguments of the definitions.

  \<^bold>\<open>Not modelled.\<close> Failing allocations, except where the code has a fallback that matters (the emergency escape); locks and reference
  counts; disk queues and streams, sockets and TLS (pure I/O or bindings to libraries); the configuration loader, module registry and object
  system; evaluation of RainerScript and \<open>tplToJSON\<close>, which work on objects of the JSON and string libraries; the state machine of actions, which is
  driven by output modules and the clock; lookup tables, statistics, the name cache; input, output and contributed modules; the lexer
  and parser that are generated from the grammar; the separate programs in \<open>src\<close> beside the daemon.
\<close>

section \<open>From the wire to the fields of a message\<close>

text \<open>(C1) End to end over TCP: however the octets of a sequence of octet-counted or delimited frames are split into
  receive calls, if each frame holds the RFC 5424 text of a log entry, then one message is submitted per
  frame, in order, and \<open>ParseMsg\<close> on each of them succeeds and yields exactly the priority, time stamp,
  fields and text of the entry.\<close>

theorem tcp_to_fields:
  assumes "at_start s" "0 < tcpsrv.iMaxLine srv" "list_all (frame_ok srv) fs" "concat ds = concat (map encode fs)"
    and "map content fs = map wire5424 es" "list_all (entry_ok cfg) es" "\<forall>e \<in> set es. int (length (wire5424 e)) \<le> tcpsrv.iMaxLine srv"
  shows "\<exists>s' msgs. receive_all srv s ds = (s', msgs, length es)
    \<and> list_all2 (\<lambda>e msg. \<exists>m. ParseMsg zuncompress cfg (pmrfc5424 # ps) (submit_msg l fromHost stTime msg) = Some (RS_RET_OK, m) \<and> carries m e) es msgs"
proof -
  have "length fs = length es"
    using assms(5) by (metis length_map)
  moreover have "map (\<lambda>f. truncate_to srv (content f)) fs = map (truncate_to srv) (map wire5424 es)"
    unfolding assms(5) [symmetric] by simp
  moreover have "length (wire5424 e) \<le> nat (tcpsrv.iMaxLine srv)" if "e \<in> set es" for e
    using bspec [OF assms(7) that] by linarith
  then have "map (truncate_to srv) (map wire5424 es) = map wire5424 es"
    by (simp add: truncate_to_def)
  ultimately obtain s' where "receive_all srv s ds = (s', map wire5424 es, length es)"
    using frames_read [OF assms(1,3,2)] assms(4) by (auto simp: receive_all_concat)
  moreover have "\<exists>m. ParseMsg zuncompress cfg (pmrfc5424 # ps) (submit_msg l fromHost stTime (wire5424 e)) = Some (RS_RET_OK, m) \<and> carries m e"
    if "e \<in> set es" for e
    using ParseMsg_wire5424 [OF _ submit_msg_fields(1-3)] that assms(6) by (simp add: list_all_iff)
  ultimately show ?thesis
    by (simp add: list_all2_map2 list.rel_refl_strong list_all2_same)
qed

text \<open>(C19) Dispatch to the legacy parser: with the default order of parsers, a well-formed RFC 3164 message is
  declined by the RFC 5424 module, and the RFC 3164 module behind it sets priority, time stamp, HOSTNAME,
  TAG and MSG as they were written.\<close>

theorem legacy_dispatch:
  assumes "entry3164_ok cfg stamp e" "formatTimestamp3164 (l_time e) b = (stamp, n)" "lstn_dfltTZ l = []"
    and "\<not> bDetectYearAfterTimestamp inst" "\<not> bRemoveMsgFirstSpace inst"
  shows "\<exists>m. ParseMsg zuncompress cfg (pmrfc5424 # pmrfc3164 tzs True inst # ps) (submit_msg l fromHost stTime (wire3164 stamp e)) = Some (RS_RET_OK, m)
    \<and> carries3164 m (submit_msg l fromHost stTime (wire3164 stamp e)) e"
  using ParseMsg_wire3164 [OF assms(1,2) submit_msg_fields(1-5) submit_msg_dfltTZ [OF assms(3)] assms(4,5)] .

definition srv_plain :: tcpsrv where
  "srv_plain = srv_example\<lparr>tcpsrv.iMaxLine := 8192\<rparr>"

definition lstn_plain :: listener where
  "lstn_plain = \<lparr>lstn_dfltTZ = [], bUseFlowControl = True\<rparr>"

definition entry_example :: log_entry where
  "entry_example = \<lparr>l_pri = 34, l_time = time_example, l_host = ''host'', l_app = ''su'', l_procid = ''77'', l_msgid = ''ID47'',
     l_sd = ''-'', l_msg = ''hi''\<rparr>"

lemma wire_example:
  "wire5424 entry_example = ''<34>1 2003-10-11T22:14:15.003-07:00 host su 77 ID47 - hi''"
  "wire3164 ''Oct 11 22:14:15'' entry_example = ''<34>Oct 11 22:14:15 host su:hi''"
proof -
  have d: "dec_str 34 = ''34''"
    by code_simp
  show "wire5424 entry_example = ''<34>1 2003-10-11T22:14:15.003-07:00 host su 77 ID47 - hi''"
      "wire3164 ''Oct 11 22:14:15'' entry_example = ''<34>Oct 11 22:14:15 host su:hi''"
    by (simp_all add: wire5424_def wire3164_def entry_example_def d text5424_def rest5424_def time_example_written)
qed

lemma entry_example_ok: "entry_ok parser_cfg_default entry_example"
  using time_example_writable msg5424_example(5-8) sd_ok_dash
  by (simp add: entry_ok_def wire_example plain_def byte_val_def) (simp add: entry_example_def)

lemma entry3164_example_ok: "entry3164_ok parser_cfg_default ''Oct 11 22:14:15'' entry_example"
  using time_example_fields host_ok_example
  by (simp add: entry3164_ok_def wire_example plain_def byte_val_def) (simp add: entry_example_def)

lemma frame_example:
  "list_all (frame_ok srv_plain) [Counted (wire5424 entry_example)]"
  "concat [''56 <34>1 2003-10-11T22:14'', '':15.003-07:00 host su 77 ID47 - hi''] = concat (map encode [Counted (wire5424 entry_example)])"
  unfolding wire_example by code_simp+

theorem tcp_to_fields_witness:
  "\<exists>s' msg m. receive_all srv_plain tcps_sessConstruct [''56 <34>1 2003-10-11T22:14'', '':15.003-07:00 host su 77 ID47 - hi''] = (s', [msg], 1)
    \<and> ParseMsg (\<lambda>z n. None) parser_cfg_default [pmrfc5424] (submit_msg lstn_plain ''peer'' time_example msg) = Some (RS_RET_OK, m)
    \<and> carries m entry_example"
  using tcp_to_fields [OF start_example _ frame_example, of "[entry_example]" parser_cfg_default "\<lambda>z n. None" "[]" lstn_plain "''peer''" time_example]
    entry_example_ok
  by (simp add: srv_plain_def wire_example list_all2_Cons1 del: ParseMsg_def) blast

theorem legacy_dispatch_witness:
  "\<exists>m. ParseMsg (\<lambda>z n. None) parser_cfg_default [pmrfc5424, pmrfc3164 [] True createInstance]
      (submit_msg lstn_plain ''peer'' time_example (wire3164 ''Oct 11 22:14:15'' entry_example)) = Some (RS_RET_OK, m)
    \<and> carries3164 m (submit_msg lstn_plain ''peer'' time_example (wire3164 ''Oct 11 22:14:15'' entry_example)) entry_example"
proof -
  have "formatTimestamp3164 (l_time entry_example) True = (''Oct 11 22:14:15'', 16)" "lstn_dfltTZ lstn_plain = []"
    using time_example_3164 by (simp_all add: entry_example_def lstn_plain_def)
  from legacy_dispatch [OF entry3164_example_ok this createInstance_off] show ?thesis .
qed

end
